(* ===== verification/Portolan_Prelude.thy ===== *)
theory Portolan_Prelude
  imports Main "HOL-Library.Word"
begin

text \<open>
  Shared ground of the development: the fallible-result combinator, the parts of Go's
  \<^verbatim>\<open>strings\<close>, \<^verbatim>\<open>strconv\<close> and \<^verbatim>\<open>context\<close> packages the daemon uses, and the generic list
  lemmas the component theories rewrite with. A Go string is a sequence of bytes, so it is
  a \<^typ>\<open>string\<close> here (a list of eight-bit characters) and lengths and offsets count bytes.
\<close>

named_theorems go_defs \<open>definitions of the Go string helpers, to be unfolded on demand\<close>

section \<open>Results\<close>

text \<open>A fallible operation returns \<open>Inl\<close> of its error or \<open>Inr\<close> of its value.\<close>

fun rbind :: "'e + 'a \<Rightarrow> ('a \<Rightarrow> 'e + 'b) \<Rightarrow> 'e + 'b" where
  "rbind (Inl e) f = Inl e"
| "rbind (Inr a) f = f a"

fun isOk :: "'e + 'a \<Rightarrow> bool" where
  "isOk (Inl e) = False"
| "isOk (Inr a) = True"

lemma rbind_eq_Inr [simp]: "rbind r f = Inr b \<longleftrightarrow> (\<exists>a. r = Inr a \<and> f a = Inr b)"
  by (cases r) auto

lemma isOk_iff: "isOk r \<longleftrightarrow> (\<exists>a. r = Inr a)"
  by (cases r) auto

section \<open>Contexts\<close>

text \<open>
  A \<^verbatim>\<open>context.Context\<close> is observed only through \<^verbatim>\<open>ctx.Err()\<close>. An execution polls it a number
  of times; \<open>cancel_at\<close> is the first poll that sees the cancellation (\<open>None\<close>: never), after
  which every poll sees it, and \<open>ctx_cause\<close> is the text of the error it returns. Operations
  that poll take the number of polls made so far and return the new number.
\<close>

record ctx =
  cancel_at :: "nat option"
  ctx_cause :: string

definition ctx_err :: "ctx \<Rightarrow> nat \<Rightarrow> string option" where
  "ctx_err c n = (case cancel_at c of
     None \<Rightarrow> None
   | Some k \<Rightarrow> if k \<le> n then Some (ctx_cause c) else None)"

definition background :: ctx where
  "background = \<lparr>cancel_at = None, ctx_cause = []\<rparr>"

lemma ctx_err_background [simp]: "ctx_err background n = None"
  by (simp add: ctx_err_def background_def)

lemma ctx_err_never [simp]: "cancel_at c = None \<Longrightarrow> ctx_err c n = None"
  by (simp add: ctx_err_def)

lemma ctx_err_mono: "ctx_err c n = Some e \<Longrightarrow> n \<le> m \<Longrightarrow> ctx_err c m = Some e"
  by (auto simp: ctx_err_def split: option.splits if_splits)

lemma ctx_err_None_mono: "ctx_err c m = None \<Longrightarrow> n \<le> m \<Longrightarrow> ctx_err c n = None"
  by (auto simp: ctx_err_def split: option.splits if_splits)

lemma ctx_err_cause: "ctx_err c n = Some e \<Longrightarrow> e = ctx_cause c"
  by (auto simp: ctx_err_def split: option.splits if_splits)

section \<open>Bytes\<close>

abbreviation (input) byte_val :: "char \<Rightarrow> nat" where
  "byte_val c \<equiv> of_char c"

abbreviation (input) slash :: char where "slash \<equiv> CHR 0x2F"
abbreviation (input) backslash :: char where "backslash \<equiv> CHR 0x5C"
abbreviation (input) newline :: char where "newline \<equiv> CHR 0x0A"
abbreviation (input) colon :: char where "colon \<equiv> CHR 0x3A"
abbreviation (input) percent :: char where "percent \<equiv> CHR 0x25"
abbreviation (input) NUL :: char where "NUL \<equiv> CHR 0x00"

definition isASCIIUpper :: "char \<Rightarrow> bool" where
  "isASCIIUpper b \<longleftrightarrow> 65 \<le> byte_val b \<and> byte_val b \<le> 90"

definition isASCIILower :: "char \<Rightarrow> bool" where
  "isASCIILower b \<longleftrightarrow> 97 \<le> byte_val b \<and> byte_val b \<le> 122"

definition isASCIIDigit :: "char \<Rightarrow> bool" where
  "isASCIIDigit b \<longleftrightarrow> 48 \<le> byte_val b \<and> byte_val b \<le> 57"

definition asciiToLower :: "char \<Rightarrow> char" where
  "asciiToLower b = (if isASCIIUpper b then char_of (byte_val b + 32) else b)"

definition asciiToUpper :: "char \<Rightarrow> char" where
  "asciiToUpper b = (if isASCIILower b then char_of (byte_val b - 32) else b)"

section \<open>The \<^verbatim>\<open>strings\<close> package, byte-wise part\<close>

definition has_prefix :: "string \<Rightarrow> string \<Rightarrow> bool" where
  "has_prefix s p \<longleftrightarrow> take (length p) s = p"

definition has_suffix :: "string \<Rightarrow> string \<Rightarrow> bool" where
  "has_suffix s p \<longleftrightarrow> length p \<le> length s \<and> drop (length s - length p) s = p"

definition trim_prefix :: "string \<Rightarrow> string \<Rightarrow> string" where
  "trim_prefix s p = (if has_prefix s p then drop (length p) s else s)"

definition trim_suffix :: "string \<Rightarrow> string \<Rightarrow> string" where
  "trim_suffix s p = (if has_suffix s p then take (length s - length p) s else s)"

text \<open>\<^verbatim>\<open>strings.Split(s, sep)\<close> with a one-byte separator: never the empty list.\<close>

fun split_byte :: "char \<Rightarrow> string \<Rightarrow> string list" where
  "split_byte c [] = [[]]"
| "split_byte c (x # xs) =
     (if x = c then [] # split_byte c xs
      else (case split_byte c xs of [] \<Rightarrow> [[x]] | y # ys \<Rightarrow> (x # y) # ys))"

text \<open>\<^verbatim>\<open>strings.Join(xs, sep)\<close>.\<close>

fun join :: "string \<Rightarrow> string list \<Rightarrow> string" where
  "join sep [] = []"
| "join sep [x] = x"
| "join sep (x # y # ys) = x @ sep @ join sep (y # ys)"

text \<open>\<^verbatim>\<open>strings.ReplaceAll(s, old, new)\<close> with one-byte \<^verbatim>\<open>old\<close> and \<^verbatim>\<open>new\<close>.\<close>

definition replace_byte :: "char \<Rightarrow> char \<Rightarrow> string \<Rightarrow> string" where
  "replace_byte old new = map (\<lambda>b. if b = old then new else b)"

text \<open>\<^verbatim>\<open>strings.Cut(s, sep)\<close> with a one-byte separator.\<close>

fun cut_byte :: "char \<Rightarrow> string \<Rightarrow> (string \<times> string) option" where
  "cut_byte c [] = None"
| "cut_byte c (x # xs) =
     (if x = c then Some ([], xs)
      else map_option (\<lambda>(a, b). (x # a, b)) (cut_byte c xs))"

text \<open>\<^verbatim>\<open>strings.Index(s, sub)\<close>: the first offset at which \<open>sub\<close> occurs.\<close>

fun index_sub :: "string \<Rightarrow> string \<Rightarrow> nat option" where
  "index_sub sub [] = (if sub = [] then Some 0 else None)"
| "index_sub sub (x # xs) =
     (if has_prefix (x # xs) sub then Some 0 else map_option Suc (index_sub sub xs))"

text \<open>\<^verbatim>\<open>strings.LastIndex(s, sub)\<close>: the last offset at which \<open>sub\<close> occurs.\<close>

fun last_index_sub :: "string \<Rightarrow> string \<Rightarrow> nat option" where
  "last_index_sub sub [] = (if sub = [] then Some 0 else None)"
| "last_index_sub sub (x # xs) =
     (case last_index_sub sub xs of
        Some i \<Rightarrow> Some (Suc i)
      | None \<Rightarrow> if has_prefix (x # xs) sub then Some 0 else None)"

text \<open>\<^verbatim>\<open>strconv.Itoa\<close>: decimal digits, most significant first.\<close>

fun digits_nat :: "nat \<Rightarrow> string" where
  "digits_nat n =
     (if n < 10 then [char_of (48 + n)] else digits_nat (n div 10) @ [char_of (48 + n mod 10)])"

declare digits_nat.simps [simp del]

definition itoa :: "int \<Rightarrow> string" where
  "itoa i = (if i < 0 then CHR ''-'' # digits_nat (nat (- i)) else digits_nat (nat i))"

lemmas [go_defs] = has_prefix_def has_suffix_def trim_prefix_def trim_suffix_def

subsection \<open>Prefixes\<close>

lemma has_prefix_append [simp]: "has_prefix (p @ s) p"
  by (simp add: has_prefix_def)

lemma has_prefix_iff: "has_prefix s p \<longleftrightarrow> (\<exists>r. s = p @ r)"
  by (metis append_eq_conv_conj append_take_drop_id has_prefix_def)

lemma has_prefix_Nil [simp]: "has_prefix s []"
  by (simp add: has_prefix_def)

lemma has_prefix_Nil_left [simp]: "has_prefix [] p \<longleftrightarrow> p = []"
  by (auto simp: has_prefix_def)

lemma has_prefix_Cons [simp]: "has_prefix (x # s) (y # p) \<longleftrightarrow> x = y \<and> has_prefix s p"
  by (auto simp: has_prefix_def)

lemma has_prefix_length: "has_prefix s p \<Longrightarrow> length p \<le> length s"
  by (auto simp: has_prefix_iff)

lemma trim_prefix_append [simp]: "trim_prefix (p @ s) p = s"
  by (simp add: trim_prefix_def)

subsection \<open>Splitting and joining\<close>

lemma split_byte_not_Nil [simp]: "split_byte c s \<noteq> []"
  by (cases s) (auto split: list.splits)

lemma split_byte_no_sep: "x \<in> set (split_byte c s) \<Longrightarrow> c \<notin> set x"
  by (induction s arbitrary: x) (auto split: if_splits list.splits)

lemma split_byte_notin: "c \<notin> set s \<Longrightarrow> split_byte c s = [s]"
  by (induction s) auto

lemma split_byte_sub: "x \<in> set (split_byte c s) \<Longrightarrow> set x \<subseteq> set s"
  by (induction s arbitrary: x) (fastforce split: if_splits list.splits)+

lemma split_byte_append_sep:
  "c \<notin> set x \<Longrightarrow> split_byte c (x @ c # s) = x # split_byte c s"
  by (induction x) (auto split: list.splits)

lemma join_Cons: "xs \<noteq> [] \<Longrightarrow> join sep (x # xs) = x @ sep @ join sep xs"
  by (cases xs) auto

lemma join_Nil_iff: "join sep xs = [] \<longleftrightarrow> xs = [] \<or> xs = [[]] \<or> (sep = [] \<and> (\<forall>x \<in> set xs. x = []))"
  by (induction sep xs rule: join.induct) auto

lemma join_split_byte [simp]: "join [c] (split_byte c s) = s"
proof (induction s)
  case (Cons x s)
  obtain y ys where ys: "split_byte c s = y # ys"
    using split_byte_not_Nil by (meson neq_Nil_conv)
  with Cons show ?case by (cases ys) auto
qed simp

lemma split_byte_join:
  "xs \<noteq> [] \<Longrightarrow> (\<And>x. x \<in> set xs \<Longrightarrow> c \<notin> set x) \<Longrightarrow> split_byte c (join [c] xs) = xs"
proof (induction "[c]" xs rule: join.induct)
  case (2 x)
  then show ?case by (simp add: split_byte_notin)
next
  case (3 x y ys)
  then show ?case by (simp add: split_byte_append_sep)
qed simp

lemma set_join: "set (join sep xs) \<subseteq> set sep \<union> \<Union> (set ` set xs)"
  by (induction sep xs rule: join.induct) auto

lemma set_join_mem: "x \<in> set xs \<Longrightarrow> set x \<subseteq> set (join sep xs)"
  by (induction sep xs rule: join.induct) auto

lemma notin_join: "c \<notin> set sep \<Longrightarrow> c \<notin> set (join sep xs) \<longleftrightarrow> (\<forall>x \<in> set xs. c \<notin> set x)"
  by (induction sep xs rule: join.induct) auto

lemma map_join: "map f (join sep xs) = join (map f sep) (map (map f) xs)"
  by (induction sep xs rule: join.induct) auto

subsection \<open>Replacing bytes\<close>

lemma replace_byte_notin [simp]: "old \<notin> set s \<Longrightarrow> replace_byte old new s = s"
  by (induction s) (auto simp: replace_byte_def)

lemma replace_byte_Nil [simp]: "replace_byte old new [] = []"
  by (simp add: replace_byte_def)

lemma replace_byte_Cons [simp]:
  "replace_byte old new (x # s) = (if x = old then new else x) # replace_byte old new s"
  by (simp add: replace_byte_def)

lemma replace_byte_append [simp]:
  "replace_byte old new (s @ t) = replace_byte old new s @ replace_byte old new t"
  by (simp add: replace_byte_def)

lemma replace_byte_back:
  "new \<notin> set s \<Longrightarrow> replace_byte new old (replace_byte old new s) = s"
  by (induction s) (auto simp: replace_byte_def)

lemma set_replace_byte: "set (replace_byte old new s) \<subseteq> insert new (set s - {old})"
  by (auto simp: replace_byte_def)

lemma notin_replace_byte: "c \<noteq> new \<Longrightarrow> c \<notin> set s \<Longrightarrow> c \<notin> set (replace_byte old new s)"
  using set_replace_byte [of old new s] by auto

lemma old_notin_replace_byte: "old \<noteq> new \<Longrightarrow> old \<notin> set (replace_byte old new s)"
  by (auto simp: replace_byte_def)

subsection \<open>Decimal numerals\<close>

lemma mod_window: "k * m \<le> n \<Longrightarrow> n < k * m + m \<Longrightarrow> n mod m = n - k * m" for k m n :: nat
  by (metis add_diff_inverse_nat add_less_cancel_left mod_less mod_mult_self3 not_less)

lemma digits_nat_nonempty [simp]: "digits_nat n \<noteq> []"
  by (subst digits_nat.simps) simp

lemma digits_nat_digits: "c \<in> set (digits_nat n) \<Longrightarrow> isASCIIDigit c"
proof (induction n rule: digits_nat.induct)
  case (1 n)
  show ?case
  proof (cases "n < 10")
    case True
    with "1.prems" show ?thesis by (subst (asm) digits_nat.simps) (auto simp: isASCIIDigit_def)
  next
    case False
    have "n mod 10 < 10" by simp
    with False 1 show ?thesis by (subst (asm) (2) digits_nat.simps) (auto simp: isASCIIDigit_def)
  qed
qed

end
