(* ===== verification/Go_Utf8.thy ===== *)
theory Go_Utf8
  imports Portolan_Prelude
begin

text \<open>
  Go's view of text: \<^verbatim>\<open>unicode/utf8\<close> decoding and encoding of runes, the \<^verbatim>\<open>range\<close> loop over a
  string, \<^verbatim>\<open>utf16.RuneLen\<close>, the exact rune sets of \<^verbatim>\<open>unicode.IsSpace\<close> and
  \<^verbatim>\<open>unicode.IsControl\<close>, \<^verbatim>\<open>strings.TrimSpace\<close> and \<^verbatim>\<open>strings.EqualFold\<close>. A rune is the natural
  number of its code point. Case folding beyond ASCII is Unicode data: it enters as the
  parameter \<open>ext\<close> of \<open>fold_rune\<close>.
\<close>

type_synonym rune = nat

definition RuneError :: rune where "RuneError = 0xFFFD"

section \<open>Decoding\<close>

text \<open>
  The length announced by a first byte and the range its second byte must lie in
  (\<^verbatim>\<open>utf8.first\<close> and \<^verbatim>\<open>utf8.acceptRanges\<close>); length 0 marks an invalid first byte.
\<close>

definition first_len :: "nat \<Rightarrow> nat" where
  "first_len n = (if n < 0x80 then 1 else if n < 0xC2 then 0 else if n < 0xE0 then 2
     else if n < 0xF0 then 3 else if n < 0xF5 then 4 else 0)"

definition accept_second :: "nat \<Rightarrow> nat \<Rightarrow> bool" where
  "accept_second n0 n1 \<longleftrightarrow>
     (if n0 = 0xE0 then 0xA0 \<le> n1 \<and> n1 \<le> 0xBF
      else if n0 = 0xED then 0x80 \<le> n1 \<and> n1 \<le> 0x9F
      else if n0 = 0xF0 then 0x90 \<le> n1 \<and> n1 \<le> 0xBF
      else if n0 = 0xF4 then 0x80 \<le> n1 \<and> n1 \<le> 0x8F
      else 0x80 \<le> n1 \<and> n1 \<le> 0xBF)"

definition is_cont :: "nat \<Rightarrow> bool" where
  "is_cont n \<longleftrightarrow> 0x80 \<le> n \<and> n \<le> 0xBF"

text \<open>\<^verbatim>\<open>utf8.DecodeRuneInString\<close>: the rune and its width; \<open>(RuneError, 1)\<close> on bad encoding.\<close>

definition decode_rune :: "string \<Rightarrow> rune \<times> nat" where
  "decode_rune s = (case s of [] \<Rightarrow> (RuneError, 0) | b0 # r0 \<Rightarrow>
     (let n0 = byte_val b0; k = first_len n0 in
      if k = 1 then (n0, 1)
      else if k = 0 then (RuneError, 1)
      else (case r0 of [] \<Rightarrow> (RuneError, 1) | b1 # r1 \<Rightarrow>
        (let n1 = byte_val b1 in
         if \<not> accept_second n0 n1 then (RuneError, 1)
         else if k = 2 then (n0 mod 0x20 * 0x40 + n1 mod 0x40, 2)
         else (case r1 of [] \<Rightarrow> (RuneError, 1) | b2 # r2 \<Rightarrow>
           (let n2 = byte_val b2 in
            if \<not> is_cont n2 then (RuneError, 1)
            else if k = 3 then (n0 mod 0x10 * 0x1000 + n1 mod 0x40 * 0x40 + n2 mod 0x40, 3)
            else (case r2 of [] \<Rightarrow> (RuneError, 1) | b3 # r3 \<Rightarrow>
              (let n3 = byte_val b3 in
               if \<not> is_cont n3 then (RuneError, 1)
               else (n0 mod 8 * 0x40000 + n1 mod 0x40 * 0x1000 + n2 mod 0x40 * 0x40 + n3 mod 0x40, 4)))))))))"

abbreviation rune_of :: "string \<Rightarrow> rune" where "rune_of s \<equiv> fst (decode_rune s)"
abbreviation width_of :: "string \<Rightarrow> nat" where "width_of s \<equiv> snd (decode_rune s)"

lemma decode_rune_Nil [simp]: "decode_rune [] = (RuneError, 0)"
  by (simp add: decode_rune_def)

lemma decode_rune_ascii: "byte_val b < 0x80 \<Longrightarrow> decode_rune (b # s) = (byte_val b, 1)"
  by (simp add: decode_rune_def first_len_def)

lemma width_of_bounds: "s \<noteq> [] \<Longrightarrow> 0 < width_of s \<and> width_of s \<le> length s \<and> width_of s \<le> 4"
  by (auto simp: decode_rune_def Let_def split: list.splits)

lemma width_of_pos [simp]: "s \<noteq> [] \<Longrightarrow> 0 < width_of s"
  using width_of_bounds by blast

lemma width_of_le: "width_of s \<le> length s"
  using width_of_bounds [of s] by (cases "s = []") auto

lemma width_of_zero [simp]: "width_of s = 0 \<longleftrightarrow> s = []"
  using width_of_bounds [of s] by (cases "s = []") auto

lemma first_len_cases: "first_len n = 0 \<or> first_len n = 1 \<or> first_len n = 2 \<or> first_len n = 3 \<or> first_len n = 4"
  by (simp add: first_len_def)

text \<open>Decoding, one equation per announced length.\<close>

lemma decode_rune_0: "first_len (byte_val b) = 0 \<Longrightarrow> decode_rune (b # s) = (RuneError, 1)"
  by (simp add: decode_rune_def)

lemma decode_rune_1: "first_len (byte_val b) = 1 \<Longrightarrow> decode_rune (b # s) = (byte_val b, 1)"
  by (simp add: decode_rune_def)

lemma decode_rune_2:
  "first_len (byte_val b) = 2 \<Longrightarrow> decode_rune (b # s) = (case s of
     b1 # _ \<Rightarrow> if accept_second (byte_val b) (byte_val b1)
       then (byte_val b mod 0x20 * 0x40 + byte_val b1 mod 0x40, 2) else (RuneError, 1)
   | _ \<Rightarrow> (RuneError, 1))"
  by (simp add: decode_rune_def Let_def split: list.split)

lemma decode_rune_3:
  "first_len (byte_val b) = 3 \<Longrightarrow> decode_rune (b # s) = (case s of
     b1 # b2 # _ \<Rightarrow> if accept_second (byte_val b) (byte_val b1) \<and> is_cont (byte_val b2)
       then (byte_val b mod 0x10 * 0x1000 + byte_val b1 mod 0x40 * 0x40 + byte_val b2 mod 0x40, 3)
       else (RuneError, 1)
   | _ \<Rightarrow> (RuneError, 1))"
  by (simp add: decode_rune_def Let_def split: list.split)

lemma decode_rune_4:
  "first_len (byte_val b) = 4 \<Longrightarrow> decode_rune (b # s) = (case s of
     b1 # b2 # b3 # _ \<Rightarrow>
       if accept_second (byte_val b) (byte_val b1) \<and> is_cont (byte_val b2) \<and> is_cont (byte_val b3)
       then (byte_val b mod 8 * 0x40000 + byte_val b1 mod 0x40 * 0x1000
           + byte_val b2 mod 0x40 * 0x40 + byte_val b3 mod 0x40, 4)
       else (RuneError, 1)
   | _ \<Rightarrow> (RuneError, 1))"
  by (simp add: decode_rune_def Let_def split: list.split)

text \<open>The five outcomes of decoding a non-empty string.\<close>

lemma decode_rune_cases:
  obtains (ascii) "first_len (byte_val b) = 1" "decode_rune (b # s) = (byte_val b, 1)"
    | (bad) "first_len (byte_val b) \<noteq> 1" "decode_rune (b # s) = (RuneError, 1)"
    | (two) b1 r where "s = b1 # r" "first_len (byte_val b) = 2" "accept_second (byte_val b) (byte_val b1)"
        "decode_rune (b # s) = (byte_val b mod 0x20 * 0x40 + byte_val b1 mod 0x40, 2)"
    | (three) b1 b2 r where "s = b1 # b2 # r" "first_len (byte_val b) = 3"
        "accept_second (byte_val b) (byte_val b1)" "is_cont (byte_val b2)"
        "decode_rune (b # s) = (byte_val b mod 0x10 * 0x1000 + byte_val b1 mod 0x40 * 0x40 + byte_val b2 mod 0x40, 3)"
    | (four) b1 b2 b3 r where "s = b1 # b2 # b3 # r" "first_len (byte_val b) = 4"
        "accept_second (byte_val b) (byte_val b1)" "is_cont (byte_val b2)" "is_cont (byte_val b3)"
        "decode_rune (b # s) = (byte_val b mod 8 * 0x40000 + byte_val b1 mod 0x40 * 0x1000
           + byte_val b2 mod 0x40 * 0x40 + byte_val b3 mod 0x40, 4)"
proof -
  let ?n = "first_len (byte_val b)"
  consider "?n = 0" | "?n = 1" | "?n = 2" | "?n = 3" | "?n = 4" using first_len_cases [of "byte_val b"] by auto
  then show ?thesis
  proof cases
    case 1
    then show ?thesis using bad decode_rune_0 by simp
  next
    case 2
    then show ?thesis using ascii decode_rune_1 by simp
  next
    case 3
    show ?thesis
    proof (cases "\<exists>b1 r. s = b1 # r \<and> accept_second (byte_val b) (byte_val b1)")
      case True
      then show ?thesis using 3 two decode_rune_2 [OF 3, of s] by auto
    next
      case False
      then show ?thesis using 3 bad decode_rune_2 [OF 3, of s] by (auto split: list.splits)
    qed
  next
    case 4
    show ?thesis
    proof (cases "\<exists>b1 b2 r. s = b1 # b2 # r \<and> accept_second (byte_val b) (byte_val b1) \<and> is_cont (byte_val b2)")
      case True
      then show ?thesis using 4 three decode_rune_3 [OF 4, of s] by auto
    next
      case False
      then show ?thesis using 4 bad decode_rune_3 [OF 4, of s] by (auto split: list.splits)
    qed
  next
    case 5
    show ?thesis
    proof (cases "\<exists>b1 b2 b3 r. s = b1 # b2 # b3 # r \<and> accept_second (byte_val b) (byte_val b1)
        \<and> is_cont (byte_val b2) \<and> is_cont (byte_val b3)")
      case True
      then show ?thesis using 5 four decode_rune_4 [OF 5, of s] by auto
    next
      case False
      then show ?thesis using 5 bad decode_rune_4 [OF 5, of s] by (auto split: list.splits)
    qed
  qed
qed

text \<open>A non-ASCII first byte never yields an ASCII rune, so an ASCII rune is a single byte.\<close>

lemma nonascii_two:
  assumes "first_len n = 2"
  shows "0x80 \<le> n mod 0x20 * 0x40 + x"
proof -
  from assms have "0xC2 \<le> n" "n < 0xE0" by (auto simp: first_len_def split: if_splits)
  then have "2 \<le> n mod 0x20" using mod_window [of 6 32 n] by simp
  then show ?thesis by simp
qed

lemma nonascii_three:
  assumes "first_len n = 3" "accept_second n m"
  shows "0x80 \<le> n mod 0x10 * 0x1000 + m mod 0x40 * 0x40 + x"
proof (cases "n = 0xE0")
  case True
  with assms have "0xA0 \<le> m" "m \<le> 0xBF" by (auto simp: accept_second_def)
  then have "0x20 \<le> m mod 0x40" using mod_window [of 2 64 m] by simp
  then show ?thesis by simp
next
  case False
  with assms have "0xE1 \<le> n" "n < 0xF0" by (auto simp: first_len_def split: if_splits)
  then have "1 \<le> n mod 0x10" using mod_window [of 14 16 n] by simp
  then show ?thesis by simp
qed

lemma nonascii_four:
  assumes "first_len n = 4" "accept_second n m"
  shows "0x80 \<le> n mod 8 * 0x40000 + m mod 0x40 * 0x1000 + x"
proof (cases "n = 0xF0")
  case True
  with assms have "0x90 \<le> m" "m \<le> 0xBF" by (auto simp: accept_second_def)
  then have "0x10 \<le> m mod 0x40" using mod_window [of 2 64 m] by simp
  then show ?thesis by simp
next
  case False
  with assms have "0xF1 \<le> n" "n < 0xF5" by (auto simp: first_len_def split: if_splits)
  then have "1 \<le> n mod 8" using mod_window [of 30 8 n] by simp
  then show ?thesis by simp
qed

lemma rune_of_nonascii:
  assumes "0x80 \<le> byte_val b"
  shows "0x80 \<le> rune_of (b # s)"
proof (cases rule: decode_rune_cases [of b s])
  case ascii
  with assms show ?thesis by simp
next
  case bad
  then show ?thesis by (simp add: RuneError_def)
next
  case (two b1 r1)
  then show ?thesis using nonascii_two by simp
next
  case (three b1 b2 r2)
  then show ?thesis using nonascii_three by simp
next
  case (four b1 b2 b3 r3)
  then show ?thesis using nonascii_four [of "byte_val b" "byte_val b1"] by (simp add: add.assoc)
qed

lemma rune_of_ascii_iff: "rune_of (b # s) < 0x80 \<longleftrightarrow> byte_val b < 0x80"
  using rune_of_nonascii [of b s] decode_rune_ascii [of b s]
  by (cases "byte_val b < 0x80") (auto simp: not_less)

lemma decode_rune_byte: "n < 0x80 \<Longrightarrow> rune_of (b # s) = n \<longleftrightarrow> byte_val b = n"
  using rune_of_nonascii [of b s] decode_rune_ascii [of b s]
  by (cases "byte_val b < 0x80") (auto simp: not_less)

text \<open>Decoding looks only at the bytes of the rune it returns.\<close>

lemma decode_rune_append:
  assumes "decode_rune (b # t) \<noteq> (RuneError, 1)"
  shows "decode_rune (b # t @ u) = decode_rune (b # t)"
  using assms
  by (cases rule: decode_rune_cases [of b t]) (simp_all add: decode_rune_def)

lemma decode_rune_take:
  assumes "width_of s \<le> n"
  shows "decode_rune (take n s) = decode_rune s"
proof (cases "take n s")
  case Nil
  with assms show ?thesis by (cases "s = []") (use width_of_pos in fastforce)+
next
  case (Cons b t)
  have s: "s = b # t @ drop n s" using Cons append_take_drop_id [of n s] by simp
  show ?thesis
  proof (cases "decode_rune (b # t) = (RuneError, 1)")
    case False
    then show ?thesis using Cons s decode_rune_append [of b t "drop n s"] by simp
  next
    case bad: True
    have "decode_rune s = (RuneError, 1)"
    proof (rule ccontr)
      assume ne: "decode_rune s \<noteq> (RuneError, 1)"
      have len: "length (b # t) = min n (length s)" using Cons length_take [of n s] by simp
      show False
      proof (cases rule: decode_rune_cases [of b "t @ drop n s"])
        case ascii
        then show False using bad ne s by (simp add: decode_rune_def)
      next
        case 2: bad
        then show False using ne s by simp
      next
        case (two b1 r)
        then have "2 \<le> length (b # t)" using s assms len by simp
        then obtain t' where "t = b1 # t'" using two(1) by (cases t) auto
        then show False using two bad by (simp add: decode_rune_def)
      next
        case (three b1 b2 r)
        then have "3 \<le> length (b # t)" using s assms len by simp
        then obtain t' where "t = b1 # b2 # t'" using three(1) by (cases t; cases "tl t") auto
        then show False using three bad by (simp add: decode_rune_def)
      next
        case (four b1 b2 b3 r)
        then have "4 \<le> length (b # t)" using s assms len by simp
        then obtain t' where "t = b1 # b2 # b3 # t'"
          using four(1) by (cases t; cases "tl t"; cases "tl (tl t)") auto
        then show False using four bad by (simp add: decode_rune_def)
      qed
    qed
    with bad Cons show ?thesis by simp
  qed
qed

section \<open>The \<^verbatim>\<open>range\<close> loop over a string\<close>

function runes :: "string \<Rightarrow> rune list" where
  "runes s = (if s = [] then [] else rune_of s # runes (drop (width_of s) s))"
  by pat_completeness auto
termination
  by (relation "measure length") (auto simp: length_drop)

declare runes.simps [simp del]

lemma runes_Nil [simp]: "runes [] = []"
  by (simp add: runes.simps)

lemma runes_step: "s \<noteq> [] \<Longrightarrow> runes s = rune_of s # runes (drop (width_of s) s)"
  by (simp add: runes.simps [of s])

lemma runes_ascii_Cons [simp]: "byte_val b < 0x80 \<Longrightarrow> runes (b # s) = byte_val b # runes s"
  by (simp add: runes_step decode_rune_ascii)

section \<open>Encoding\<close>

text \<open>\<^verbatim>\<open>utf8.AppendRune\<close>: surrogates and values past U+10FFFF encode as U+FFFD.\<close>

definition encode_rune :: "rune \<Rightarrow> string" where
  "encode_rune r0 = (let r = (if 0xD800 \<le> r0 \<and> r0 \<le> 0xDFFF \<or> 0x10FFFF < r0 then RuneError else r0) in
     if r < 0x80 then [char_of r]
     else if r < 0x800 then [char_of (0xC0 + r div 0x40), char_of (0x80 + r mod 0x40)]
     else if r < 0x10000 then
       [char_of (0xE0 + r div 0x1000), char_of (0x80 + r div 0x40 mod 0x40), char_of (0x80 + r mod 0x40)]
     else
       [char_of (0xF0 + r div 0x40000), char_of (0x80 + r div 0x1000 mod 0x40),
        char_of (0x80 + r div 0x40 mod 0x40), char_of (0x80 + r mod 0x40)])"

lemma encode_rune_ascii: "r < 0x80 \<Longrightarrow> encode_rune r = [char_of r]"
  by (simp add: encode_rune_def RuneError_def)

lemma encode_rune_nonascii: "0x80 \<le> r \<Longrightarrow> c \<in> set (encode_rune r) \<Longrightarrow> 0x80 \<le> byte_val c"
proof -
  have "0x80 \<le> (0xC0 + n) mod (256::nat)" if "n < 0x20" for n :: nat
    using that by simp
  moreover have "0x80 \<le> (0xE0 + n) mod (256::nat)" if "n < 0x10" for n :: nat
    using that by simp
  moreover have "0x80 \<le> (0xF0 + n) mod (256::nat)" if "n < 5" for n :: nat
    using that by simp
  moreover have "0x80 \<le> (0x80 + n mod 0x40) mod (256::nat)" for n :: nat
  proof -
    have "n mod 0x40 < 0x40" by simp
    then have "0x80 + n mod 0x40 < (256::nat)" by linarith
    then show ?thesis by simp
  qed
  ultimately show "0x80 \<le> r \<Longrightarrow> c \<in> set (encode_rune r) \<Longrightarrow> 0x80 \<le> byte_val c"
    by (auto simp: encode_rune_def RuneError_def Let_def split: if_splits)
qed

section \<open>Rune classes\<close>

definition isSpace :: "rune \<Rightarrow> bool" where
  "isSpace r \<longleftrightarrow> 0x09 \<le> r \<and> r \<le> 0x0D \<or> r = 0x20 \<or> r = 0x85 \<or> r = 0xA0 \<or> r = 0x1680
     \<or> 0x2000 \<le> r \<and> r \<le> 0x200A \<or> r = 0x2028 \<or> r = 0x2029 \<or> r = 0x202F \<or> r = 0x205F \<or> r = 0x3000"

definition isControl :: "rune \<Rightarrow> bool" where
  "isControl r \<longleftrightarrow> r < 0x20 \<or> 0x7F \<le> r \<and> r \<le> 0x9F"

text \<open>\<^verbatim>\<open>utf16.RuneLen\<close>, -1 for runes with no UTF-16 encoding.\<close>

definition rune_len16 :: "rune \<Rightarrow> int" where
  "rune_len16 r = (if r < 0xD800 \<or> 0xE000 \<le> r \<and> r < 0x10000 then 1
     else if 0x10000 \<le> r \<and> r \<le> 0x10FFFF then 2 else -1)"

text \<open>Decoding never yields a surrogate or a value past U+10FFFF.\<close>

definition scalar :: "rune \<Rightarrow> bool" where
  "scalar r \<longleftrightarrow> r < 0xD800 \<or> 0xE000 \<le> r \<and> r \<le> 0x10FFFF"

lemma rune_len16_scalar: "scalar r \<Longrightarrow> rune_len16 r = 1 \<or> rune_len16 r = 2"
  by (auto simp: scalar_def rune_len16_def)

lemma scalar_RuneError [simp]: "scalar RuneError"
  by (simp add: scalar_def RuneError_def)

lemma scalar_two: "n mod 0x20 * 0x40 + m mod 0x40 < 0xD800" for n m :: nat
proof -
  have "n mod 0x20 < 0x20" "m mod 0x40 < 0x40" by simp_all
  then show ?thesis by linarith
qed

lemma scalar_lowI: "r < 0xD800 \<Longrightarrow> scalar r"
  by (simp add: scalar_def)

lemma scalar_highI: "0xE000 \<le> r \<Longrightarrow> r \<le> 0x10FFFF \<Longrightarrow> scalar r"
  by (simp add: scalar_def)

lemma scalar_three:
  assumes "first_len n = 3" and "accept_second n m"
  shows "scalar (n mod 0x10 * 0x1000 + m mod 0x40 * 0x40 + k mod 0x40)"
proof -
  let ?a = "n mod 0x10" and ?b = "m mod 0x40" and ?c = "k mod 0x40"
  have bounds: "?a < 0x10" "?b < 0x40" "?c < 0x40" by simp_all
  from assms(1) have "0xE0 \<le> n" "n < 0xF0" by (auto simp: first_len_def split: if_splits)
  then have n: "n = 0xE0 + ?a" using mod_window [of 14 16 n] by simp
  consider "?a < 0xD" | "?a = 0xD" | "0xD < ?a" by linarith
  then show ?thesis
  proof cases
    case 1
    with bounds show ?thesis by (intro scalar_lowI) linarith
  next
    case 3
    with bounds show ?thesis by (intro scalar_highI) linarith+
  next
    case 2
    with n have "n = 0xED" by simp
    with assms(2) have "0x80 \<le> m" "m \<le> 0x9F" by (auto simp: accept_second_def)
    then have "?b < 0x20" using mod_window [of 2 64 m] by simp
    with 2 bounds show ?thesis by (intro scalar_lowI) linarith
  qed
qed

lemma scalar_four:
  assumes "first_len n = 4" and "accept_second n m"
  shows "scalar (n mod 8 * 0x40000 + m mod 0x40 * 0x1000 + k mod 0x40 * 0x40 + l mod 0x40)"
proof -
  let ?a = "n mod 8" and ?b = "m mod 0x40" and ?c = "k mod 0x40" and ?d = "l mod 0x40"
  have bounds: "?b < 0x40" "?c < 0x40" "?d < 0x40" by simp_all
  from assms(1) have "0xF0 \<le> n" "n < 0xF5" by (auto simp: first_len_def split: if_splits)
  then have n: "n = 0xF0 + ?a" and "?a \<le> 4" using mod_window [of 30 8 n] by simp_all
  consider "?a = 0" | "?a = 4" | "0 < ?a" "?a < 4" using \<open>?a \<le> 4\<close> by linarith
  then show ?thesis
  proof cases
    case 1
    with n have "n = 0xF0" by simp
    with assms(2) have "0x90 \<le> m" "m \<le> 0xBF" by (auto simp: accept_second_def)
    then have "0x10 \<le> ?b" using mod_window [of 2 64 m] by simp
    with 1 bounds show ?thesis by (intro scalar_highI) linarith+
  next
    case 2
    with n have "n = 0xF4" by simp
    with assms(2) have "0x80 \<le> m" "m \<le> 0x8F" by (auto simp: accept_second_def)
    then have "?b < 0x10" using mod_window [of 2 64 m] by simp
    with 2 bounds show ?thesis by (intro scalar_highI) linarith+
  next
    case 3
    with bounds show ?thesis by (intro scalar_highI) linarith+
  qed
qed

lemma first_len_one: "first_len n = 1 \<Longrightarrow> n < 0x80"
  by (auto simp: first_len_def split: if_splits)

lemma scalar_rune_of [simp]: "scalar (rune_of s)"
proof (cases s)
  case (Cons b r)
  show ?thesis unfolding Cons
  proof (cases rule: decode_rune_cases [of b r])
    case ascii
    then have "byte_val b < 0x80" by (simp add: first_len_one)
    with ascii(2) show "scalar (rune_of (b # r))" by (simp add: scalar_lowI)
  next
    case (two b1 r1)
    then show "scalar (rune_of (b # r))" using scalar_two by (simp add: scalar_lowI)
  next
    case (three b1 b2 r2)
    then show "scalar (rune_of (b # r))" using scalar_three by simp
  next
    case (four b1 b2 b3 r3)
    then show "scalar (rune_of (b # r))" using scalar_four by simp
  qed simp
qed simp

lemma rune_len16_rune_of: "rune_len16 (rune_of s) = 1 \<or> rune_len16 (rune_of s) = 2"
  by (simp add: rune_len16_scalar)

section \<open>\<^verbatim>\<open>strings.TrimSpace\<close>\<close>

function trim_left_space :: "string \<Rightarrow> string" where
  "trim_left_space s =
     (if s \<noteq> [] \<and> isSpace (rune_of s) then trim_left_space (drop (width_of s) s) else s)"
  by pat_completeness auto
termination
  by (relation "measure length") auto

declare trim_left_space.simps [simp del]

definition rune_start :: "char \<Rightarrow> bool" where
  "rune_start b \<longleftrightarrow> \<not> is_cont (byte_val b)"

text \<open>
  \<^verbatim>\<open>utf8.DecodeLastRuneInString\<close>: look back at most four bytes for a first byte, decode from
  there, and insist that the rune ends the string.
\<close>

definition back_len :: "string \<Rightarrow> nat" where
  "back_len s = (let n = length s; ok = (\<lambda>k. k \<le> n \<and> rune_start (s ! (n - k))) in
     if ok 2 then 2 else if ok 3 then 3 else if ok 4 then 4 else min 5 n)"

definition decode_last_rune :: "string \<Rightarrow> rune \<times> nat" where
  "decode_last_rune s =
     (if s = [] then (RuneError, 0)
      else if byte_val (last s) < 0x80 then (byte_val (last s), 1)
      else (let k = back_len s; d = decode_rune (drop (length s - k) s)
            in if snd d = k then d else (RuneError, 1)))"

lemma decode_last_width: "s \<noteq> [] \<Longrightarrow> 0 < snd (decode_last_rune s)"
  by (cases "length s") (auto simp: decode_last_rune_def Let_def back_len_def)

function trim_right_space :: "string \<Rightarrow> string" where
  "trim_right_space s =
     (if s \<noteq> [] \<and> isSpace (fst (decode_last_rune s))
      then trim_right_space (take (length s - snd (decode_last_rune s)) s) else s)"
  by pat_completeness auto
termination
proof (relation "measure length")
  fix s :: string
  assume "s \<noteq> [] \<and> isSpace (fst (decode_last_rune s))"
  then have "0 < length s" "0 < snd (decode_last_rune s)" by (auto simp: decode_last_width)
  then show "(take (length s - snd (decode_last_rune s)) s, s) \<in> measure length" by simp
qed simp

declare trim_right_space.simps [simp del]

definition trim_space :: "string \<Rightarrow> string" where
  "trim_space s = trim_right_space (trim_left_space s)"

section \<open>\<^verbatim>\<open>strings.EqualFold\<close>\<close>

text \<open>
  Two strings are equal under folding when their runes are, one by one, in the same
  \<^verbatim>\<open>unicode.SimpleFold\<close> orbit. \<open>fold_rune ext\<close> picks a representative of the orbit: the orbits
  that meet ASCII are exact (the long s and the Kelvin sign fold to \<open>s\<close> and \<open>k\<close>), the others
  are the Unicode table \<open>ext\<close>.
\<close>

definition fold_rune :: "(rune \<Rightarrow> rune) \<Rightarrow> rune \<Rightarrow> rune" where
  "fold_rune ext r =
     (if 0x41 \<le> r \<and> r \<le> 0x5A then r + 0x20
      else if r < 0x80 then r
      else if r = 0x17F then 0x73 else if r = 0x212A then 0x6B
      else ext r)"

definition equal_fold :: "(rune \<Rightarrow> rune) \<Rightarrow> string \<Rightarrow> string \<Rightarrow> bool" where
  "equal_fold ext s t \<longleftrightarrow> map (fold_rune ext) (runes s) = map (fold_rune ext) (runes t)"

lemma equal_fold_refl [simp]: "equal_fold ext s s"
  by (simp add: equal_fold_def)

lemma equal_fold_sym: "equal_fold ext s t \<Longrightarrow> equal_fold ext t s"
  by (simp add: equal_fold_def)

lemma equal_fold_trans: "equal_fold ext s t \<Longrightarrow> equal_fold ext t u \<Longrightarrow> equal_fold ext s u"
  by (simp add: equal_fold_def)

lemma runes_eq_Nil [simp]: "runes s = [] \<longleftrightarrow> s = []"
  by (cases "s = []") (auto simp: runes_step)

lemma equal_fold_Nil [simp]: "equal_fold ext [] s \<longleftrightarrow> s = []" "equal_fold ext s [] \<longleftrightarrow> s = []"
  by (auto simp: equal_fold_def)

end
