(* ===== verification/Go_Path.thy ===== *)
theory Go_Path
  imports Go_Utf8
begin

text \<open>
  \<^verbatim>\<open>path.Clean\<close> of Go's standard library, as its documented rules over the slash-separated
  elements of a path, and the algebra of the absolute paths it returns: an absolute clean
  path is \<open>abs_path xs\<close> for a list \<open>xs\<close> of proper elements.
\<close>

text \<open>
  One pass over the elements with the output built so far in reverse: empty and \<^verbatim>\<open>.\<close>
  elements are dropped, \<^verbatim>\<open>..\<close> removes the element before it, is dropped at the root of a rooted
  path and kept at the front of an unrooted one.
\<close>

fun clean_segs :: "bool \<Rightarrow> string list \<Rightarrow> string list \<Rightarrow> string list" where
  "clean_segs rooted out [] = rev out"
| "clean_segs rooted out (x # xs) =
     (if x = [] \<or> x = ''.'' then clean_segs rooted out xs
      else if x = ''..'' then
        (case out of
           y # ys \<Rightarrow> if y \<noteq> ''..'' then clean_segs rooted ys xs
                     else clean_segs rooted (x # out) xs
         | [] \<Rightarrow> clean_segs rooted (if rooted then [] else [x]) xs)
      else clean_segs rooted (x # out) xs)"

definition path_clean :: "string \<Rightarrow> string" where
  "path_clean p =
     (if p = [] then ''.''
      else let rooted = (hd p = slash);
               body = join [slash] (clean_segs rooted [] (split_byte slash p))
           in if rooted then slash # body else if body = [] then ''.'' else body)"

definition abs_path :: "string list \<Rightarrow> string" where
  "abs_path xs = slash # join [slash] xs"

text \<open>A proper element: non-empty, not a dot element, without a slash.\<close>

definition proper :: "string \<Rightarrow> bool" where
  "proper x \<longleftrightarrow> x \<noteq> [] \<and> x \<noteq> ''.'' \<and> x \<noteq> ''..'' \<and> slash \<notin> set x"

lemma proper_no_slash [dest]: "proper x \<Longrightarrow> slash \<notin> set x"
  by (simp add: proper_def)

lemma proper_not_Nil [dest]: "proper x \<Longrightarrow> x \<noteq> []"
  by (simp add: proper_def)

section \<open>Cleaning elements\<close>

lemma clean_segs_proper:
  assumes "\<forall>x \<in> set xs. slash \<notin> set x" and "\<forall>x \<in> set out. proper x"
  shows "\<forall>x \<in> set (clean_segs True out xs). proper x"
  using assms
proof (induction xs arbitrary: out)
  case Nil
  then show ?case by simp
next
  case (Cons x xs)
  have IH: "\<forall>x \<in> set (clean_segs True out' xs). proper x" if "\<forall>x \<in> set out'. proper x" for out'
    using Cons.IH Cons.prems(1) that by simp
  consider "x = []" | "x = ''.''" | "x = ''..''" | "proper x"
    using Cons.prems(1) by (auto simp: proper_def)
  then show ?case
  proof cases
    case 3
    show ?thesis
    proof (cases out)
      case Nil
      then show ?thesis using 3 IH [of "[]"] by simp
    next
      case (Cons y ys)
      with Cons.prems(2) have "y \<noteq> ''..''" by (auto simp: proper_def)
      then show ?thesis using 3 Cons Cons.prems(2) IH [of ys] by simp
    qed
  next
    case 4
    then have "x \<noteq> [] \<and> x \<noteq> ''.'' \<and> x \<noteq> ''..''" by (simp add: proper_def)
    then show ?thesis using Cons.prems(2) IH [of "x # out"] 4 by simp
  qed (use Cons.prems(2) IH in auto)
qed

lemma clean_segs_id:
  "(\<And>x. x \<in> set xs \<Longrightarrow> proper x) \<Longrightarrow> clean_segs rooted out xs = rev out @ xs"
  by (induction rooted out xs rule: clean_segs.induct) (auto simp: proper_def)

lemma clean_segs_skip_Nil [simp]: "clean_segs rooted out ([] # xs) = clean_segs rooted out xs"
  by simp

lemma clean_segs_append:
  "clean_segs rooted out (xs @ ys) = clean_segs rooted (rev (clean_segs rooted out xs)) ys"
  by (induction rooted out xs rule: clean_segs.induct) (auto split: list.splits)

lemma clean_segs_set: "set (clean_segs rooted out xs) \<subseteq> set out \<union> set xs"
  by (induction rooted out xs rule: clean_segs.induct) (auto split: list.splits)

text \<open>Elements without \<^verbatim>\<open>..\<close> are cleaned by dropping the empty and the dot ones.\<close>

lemma clean_segs_no_dotdot:
  "''..'' \<notin> set xs \<Longrightarrow>
   clean_segs rooted out xs = rev out @ filter (\<lambda>x. x \<noteq> [] \<and> x \<noteq> ''.'') xs"
  by (induction rooted out xs rule: clean_segs.induct) auto

section \<open>Absolute paths\<close>

lemma path_clean_abs:
  assumes "has_prefix p [slash]"
  shows "path_clean p = abs_path (clean_segs True [] (split_byte slash p))"
proof -
  from assms obtain r where "p = slash # r" by (auto simp: has_prefix_iff)
  then show ?thesis by (simp add: path_clean_def abs_path_def Let_def)
qed

lemma split_byte_abs_path:
  assumes "\<And>x. x \<in> set xs \<Longrightarrow> slash \<notin> set x"
  shows "split_byte slash (abs_path xs) = [] # (if xs = [] then [[]] else xs)"
  using assms by (simp add: abs_path_def split_byte_join)

lemma clean_abs_path:
  assumes "\<And>x. x \<in> set xs \<Longrightarrow> proper x"
  shows "path_clean (abs_path xs) = abs_path xs"
proof -
  have "has_prefix (abs_path xs) [slash]" by (simp add: abs_path_def)
  moreover have "clean_segs True [] (split_byte slash (abs_path xs)) = xs"
    using assms by (auto simp: split_byte_abs_path proper_no_slash clean_segs_id)
  ultimately show ?thesis by (simp add: path_clean_abs)
qed

lemma abs_path_inject:
  assumes "\<And>x. x \<in> set xs \<Longrightarrow> proper x" and "\<And>y. y \<in> set ys \<Longrightarrow> proper y"
    and "abs_path xs = abs_path ys"
  shows "xs = ys"
proof -
  have "split_byte slash (abs_path xs) = split_byte slash (abs_path ys)" using assms(3) by simp
  with assms(1,2) show ?thesis
    by (auto simp: split_byte_abs_path proper_no_slash proper_def split: if_splits)
qed

lemma abs_path_not_double:
  assumes "\<And>x. x \<in> set xs \<Longrightarrow> proper x"
  shows "\<not> has_prefix (abs_path xs) [slash, slash]"
proof (cases xs)
  case (Cons x ys)
  with assms have "proper x" by simp
  then obtain c r where x: "x = c # r" and "c \<noteq> slash"
    by (cases x) (auto simp: proper_def)
  with Cons show ?thesis by (cases ys) (auto simp: abs_path_def)
qed (simp add: abs_path_def)

lemma abs_path_Cons: "abs_path (x # xs) = slash # x @ (if xs = [] then [] else abs_path xs)"
  by (cases xs) (simp_all add: abs_path_def)

lemma set_abs_path: "c \<noteq> slash \<Longrightarrow> c \<notin> set (abs_path xs) \<longleftrightarrow> (\<forall>x \<in> set xs. c \<notin> set x)"
  by (simp add: abs_path_def notin_join)

end
