(* ===== verification/Pathnorm.thy ===== *)
theory Pathnorm
  imports Go_Path
begin

text \<open>
  Canonical host-path identity (\<^verbatim>\<open>src/internal/pathnorm/pathnorm.go\<close>): the recognisers of
  Windows syntax, \<open>Canonicalize\<close> and its helpers, \<open>Normalize\<close> and \<open>WSLToWindows\<close>. The process
  environment the code reads is the record \<open>host_env\<close>: \<open>wsl_distro\<close> is
  \<^verbatim>\<open>os.Getenv("WSL_DISTRO_NAME")\<close> (empty when unset), \<open>fold_ext\<close> the Unicode folding data
  behind \<^verbatim>\<open>strings.EqualFold\<close>, \<open>ip_literal\<close> the parser of bracketed URL hosts.
\<close>

record host_env =
  wsl_distro :: string
  fold_ext :: "rune \<Rightarrow> rune"
  ip_literal :: "string \<Rightarrow> string option"

datatype path_error =
    EmptyPath
  | ContainsNUL string
  | UnsupportedNetworkPath string
  | MissingDistro string
  | DistroUnset string
  | DistroMismatch string string string
  | MalformedUNC string
  | BareDrive string
  | NotAbsolute string
  | PosixBackslash string
  | InvalidURI string
  | NotFileURI string
  | UnsupportedFileURI string
  | NoDistroPath string
  | UnsupportedAuthority string
  | EmptyURIPath string

section \<open>Definitions\<close>

definition isASCIILetter :: "char \<Rightarrow> bool" where
  "isASCIILetter b \<longleftrightarrow> isASCIILower b \<or> isASCIIUpper b"

definition isDriveLetterPath :: "string \<Rightarrow> bool" where
  "isDriveLetterPath p = (case p of
     b # c # r \<Rightarrow> isASCIILetter b \<and> c = colon \<and> (r = [] \<or> hd r = backslash \<or> hd r = slash)
   | _ \<Rightarrow> False)"

definition isUNCPath :: "string \<Rightarrow> bool" where
  "isUNCPath p \<longleftrightarrow> has_prefix p [backslash, backslash]"

definition IsWindowsPath :: "string \<Rightarrow> bool" where
  "IsWindowsPath p \<longleftrightarrow> isDriveLetterPath p \<or> isUNCPath p"

definition currentDistro :: "host_env \<Rightarrow> string \<Rightarrow> string \<Rightarrow> path_error option" where
  "currentDistro env input distro =
     (if wsl_distro env = [] then Some (DistroUnset input)
      else if \<not> equal_fold (fold_ext env) distro (wsl_distro env)
        then Some (DistroMismatch distro input (wsl_distro env))
      else None)"

definition splitMountDrive :: "string \<Rightarrow> (string \<times> string) option" where
  "splitMountDrive p =
     (if \<not> has_prefix p ''/mnt/'' then None
      else (case drop 5 p of
         [] \<Rightarrow> None
       | b # r \<Rightarrow> if \<not> isASCIILetter b \<or> r \<noteq> [] \<and> hd r \<noteq> slash then None
                  else Some ([asciiToLower b], r)))"

definition canonicalPOSIX :: "string \<Rightarrow> path_error + string" where
  "canonicalPOSIX p =
     (if NUL \<in> set p then Inl (ContainsNUL p)
      else if has_prefix p ''//'' then Inl (UnsupportedNetworkPath p)
      else let cleaned = path_clean p in
        (case splitMountDrive cleaned of
           Some (drive, rest) \<Rightarrow> Inr (''/mnt/'' @ drive @ rest)
         | None \<Rightarrow> Inr cleaned))"

definition canonicalWSLPath ::
  "host_env \<Rightarrow> string \<Rightarrow> string \<Rightarrow> string \<Rightarrow> string list \<Rightarrow> path_error + string" where
  "canonicalWSLPath env input server distro rest =
     (if \<not> equal_fold (fold_ext env) server ''wsl$'' \<and>
         \<not> equal_fold (fold_ext env) server ''wsl.localhost''
        then Inl (UnsupportedNetworkPath input)
      else if distro = [] then Inl (MissingDistro input)
      else (case currentDistro env input distro of
          Some e \<Rightarrow> Inl e
        | None \<Rightarrow> canonicalPOSIX (slash # join [slash] rest)))"

definition canonicalUNC :: "host_env \<Rightarrow> string \<Rightarrow> path_error + string" where
  "canonicalUNC env p =
     (let tail = drop 2 p in
      if tail = [] \<or> hd tail = backslash \<or> hd tail = slash then Inl (MalformedUNC p)
      else (case split_byte slash (replace_byte backslash slash tail) of
          s0 # s1 # rest \<Rightarrow>
            if s0 = [] \<or> s1 = [] then Inl (MalformedUNC p)
            else canonicalWSLPath env p s0 s1 rest
        | _ \<Rightarrow> Inl (MalformedUNC p)))"

definition Canonicalize :: "host_env \<Rightarrow> string \<Rightarrow> path_error + string" where
  "Canonicalize env p =
     (if p = [] then Inl EmptyPath
      else if NUL \<in> set p then Inl (ContainsNUL p)
      else if isUNCPath p then canonicalUNC env p
      else if has_prefix p [slash] then canonicalPOSIX p
      else if isDriveLetterPath p then
        (if length p = 2 then Inl (BareDrive p)
         else let drive = [asciiToLower (hd p)];
                  rest = replace_byte backslash slash (drop 2 p);
                  cleaned = path_clean (slash # dropWhile (\<lambda>b. b = slash) rest)
              in if cleaned = [slash] then Inr (''/mnt/'' @ drive)
                 else Inr (''/mnt/'' @ drive @ cleaned))
      else Inl (NotAbsolute p))"

definition Normalize :: "host_env \<Rightarrow> string \<Rightarrow> string" where
  "Normalize env p =
     (case Canonicalize env p of
        Inr canonical \<Rightarrow> canonical
      | Inl _ \<Rightarrow> if p = [] then [] else path_clean (replace_byte backslash slash p))"

definition WSLToWindows :: "host_env \<Rightarrow> string \<Rightarrow> path_error + string" where
  "WSLToWindows env p =
     rbind (Canonicalize env p) (\<lambda>hostPath.
       if backslash \<in> set hostPath then Inl (PosixBackslash hostPath)
       else (case splitMountDrive hostPath of
           Some (drive, rest) \<Rightarrow>
             Inr (map asciiToUpper drive @ [colon, backslash] @
                  replace_byte slash backslash (trim_prefix rest [slash]))
         | None \<Rightarrow>
             if wsl_distro env = [] then Inl (DistroUnset hostPath)
             else Inr ([backslash, backslash] @ ''wsl.localhost'' @ [backslash] @ wsl_distro env @
                       replace_byte slash backslash hostPath)))"

section \<open>Canonical paths\<close>

text \<open>
  The abstract description of the identities \<open>Canonicalize\<close> returns: an absolute path of
  proper elements without a NUL byte, in which the drive element of a mount is lower case.
\<close>

fun lower_mount :: "string list \<Rightarrow> string list" where
  "lower_mount (m # [d] # xs) =
     (if m = ''mnt'' \<and> isASCIILetter d then m # [asciiToLower d] # xs else m # [d] # xs)"
| "lower_mount xs = xs"

definition canonical_segs :: "string list \<Rightarrow> bool" where
  "canonical_segs xs \<longleftrightarrow>
     (\<forall>x \<in> set xs. proper x \<and> NUL \<notin> set x) \<and> lower_mount xs = xs"

definition canonical_path :: "string \<Rightarrow> bool" where
  "canonical_path p \<longleftrightarrow> (\<exists>xs. canonical_segs xs \<and> p = abs_path xs)"

lemma asciiToLower_letter: "isASCIILetter b \<Longrightarrow> isASCIILetter (asciiToLower b)"
  by (auto simp: isASCIILetter_def asciiToLower_def isASCIILower_def isASCIIUpper_def)

lemma asciiToLower_idem [simp]: "asciiToLower (asciiToLower b) = asciiToLower b"
  by (auto simp: asciiToLower_def isASCIIUpper_def)

lemma asciiToLower_upper:
  "isASCIILetter b \<Longrightarrow> asciiToLower (asciiToUpper (asciiToLower b)) = asciiToLower b"
  by (auto simp: isASCIILetter_def asciiToLower_def asciiToUpper_def isASCIILower_def isASCIIUpper_def)

lemma asciiToUpper_letter: "isASCIILetter b \<Longrightarrow> isASCIILetter (asciiToUpper b)"
  by (auto simp: isASCIILetter_def asciiToUpper_def isASCIILower_def isASCIIUpper_def)

lemma letter_not_special:
  assumes "isASCIILetter b"
  shows "b \<noteq> slash" "b \<noteq> backslash" "b \<noteq> NUL" "b \<noteq> CHR ''.''" "b \<noteq> colon" "b \<noteq> percent"
  using assms by (auto simp: isASCIILetter_def isASCIILower_def isASCIIUpper_def)

lemma letter_proper [simp]: "isASCIILetter b \<Longrightarrow> proper [b]"
  using letter_not_special [of b] by (auto simp: proper_def)

lemma lower_mount_proper:
  "\<forall>x \<in> set xs. proper x \<and> NUL \<notin> set x \<Longrightarrow> \<forall>x \<in> set (lower_mount xs). proper x \<and> NUL \<notin> set x"
proof (induction xs rule: lower_mount.induct)
  case (1 m d xs)
  have "isASCIILetter d \<Longrightarrow> proper [asciiToLower d] \<and> asciiToLower d \<noteq> NUL"
    using letter_not_special(3) [OF asciiToLower_letter [of d]] asciiToLower_letter [of d] by simp
  with 1 show ?case by auto
qed auto

lemma lower_mount_idem [simp]: "lower_mount (lower_mount xs) = lower_mount xs"
  by (induction xs rule: lower_mount.induct) (auto simp: asciiToLower_letter)

lemma lower_mount_eq_Nil [simp]: "lower_mount xs = [] \<longleftrightarrow> xs = []"
  by (induction xs rule: lower_mount.induct) auto

lemma canonical_segs_lower_mount:
  "\<forall>x \<in> set xs. proper x \<and> NUL \<notin> set x \<Longrightarrow> canonical_segs (lower_mount xs)"
  using lower_mount_proper by (simp add: canonical_segs_def)

text \<open>What \<open>splitMountDrive\<close> sees in an absolute path of proper elements.\<close>

lemma has_prefix_abs_path:
  assumes "\<forall>x \<in> set xs. proper x"
  shows "has_prefix (abs_path xs) ''/mnt/'' \<longleftrightarrow> (\<exists>y ys. xs = ''mnt'' # y # ys)"
proof
  assume "has_prefix (abs_path xs) ''/mnt/''"
  then obtain r where r: "abs_path xs = ''/mnt/'' @ r" by (auto simp: has_prefix_iff)
  have "split_byte slash (abs_path xs) = [] # ''mnt'' # split_byte slash r"
    unfolding r using split_byte_append_sep [of slash "''mnt''" r] by simp
  moreover obtain y ys where "split_byte slash r = y # ys"
    using split_byte_not_Nil [of slash r] by (meson neq_Nil_conv)
  ultimately show "\<exists>y ys. xs = ''mnt'' # y # ys"
    using assms by (auto simp: split_byte_abs_path proper_no_slash split: if_splits)
qed (auto simp: abs_path_def)

lemma splitMountDrive_abs_path:
  assumes "\<forall>x \<in> set xs. proper x"
  shows "splitMountDrive (abs_path xs) =
     (case xs of
        m # [d] # ys \<Rightarrow>
          if m = ''mnt'' \<and> isASCIILetter d
          then Some ([asciiToLower d], if ys = [] then [] else abs_path ys) else None
      | _ \<Rightarrow> None)"
proof (cases "\<exists>y ys. xs = ''mnt'' # y # ys")
  case False
  then show ?thesis
    using has_prefix_abs_path [OF assms]
    by (auto simp: splitMountDrive_def split: list.splits)
next
  case True
  then obtain y ys where xs: "xs = ''mnt'' # y # ys" by blast
  have pre: "has_prefix (abs_path xs) ''/mnt/''"
    using has_prefix_abs_path [OF assms] True by blast
  have d5: "drop 5 (abs_path xs) = y @ (if ys = [] then [] else abs_path ys)"
    by (simp add: xs abs_path_Cons)
  from assms xs have "proper y" by simp
  then obtain b r where y: "y = b # r" and "slash \<notin> set r"
    by (cases y) (auto simp: proper_def)
  show ?thesis
    using pre d5 y \<open>slash \<notin> set r\<close>
    by (cases r) (auto simp: splitMountDrive_def xs abs_path_def)
qed

lemma canonicalPOSIX_segs:
  assumes "has_prefix p [slash]" "\<not> has_prefix p ''//''" "NUL \<notin> set p"
  shows "canonicalPOSIX p = Inr (abs_path (lower_mount (clean_segs True [] (split_byte slash p))))"
proof -
  let ?xs = "clean_segs True [] (split_byte slash p)"
  have proper: "\<forall>x \<in> set ?xs. proper x"
    by (rule clean_segs_proper) (auto dest: split_byte_no_sep)
  have "path_clean p = abs_path ?xs" using assms(1) by (rule path_clean_abs)
  moreover have "(case splitMountDrive (abs_path ?xs) of
      Some (drive, rest) \<Rightarrow> Inr (''/mnt/'' @ drive @ rest) | None \<Rightarrow> Inr (abs_path ?xs)) =
      (Inr (abs_path (lower_mount ?xs)) :: path_error + string)"
    unfolding splitMountDrive_abs_path [OF proper]
    by (cases ?xs rule: lower_mount.cases) (auto simp: abs_path_Cons)
  ultimately show ?thesis using assms(2,3) by (simp add: canonicalPOSIX_def)
qed

text \<open>The elements of a NUL-free path stay NUL-free when cleaned.\<close>

lemma clean_split_props:
  assumes "NUL \<notin> set p"
  shows "\<forall>x \<in> set (clean_segs True [] (split_byte slash p)). proper x \<and> NUL \<notin> set x"
proof -
  have "\<forall>x \<in> set (clean_segs True [] (split_byte slash p)). proper x"
    by (rule clean_segs_proper) (auto dest: split_byte_no_sep)
  moreover have "\<forall>x \<in> set (clean_segs True [] (split_byte slash p)). NUL \<notin> set x"
    using clean_segs_set [of True "[]" "split_byte slash p"] split_byte_sub [of _ slash p] assms
    by auto
  ultimately show ?thesis by blast
qed

lemma canonicalPOSIX_canonical:
  assumes "has_prefix p [slash]" and "canonicalPOSIX p = Inr q"
  shows "canonical_path q"
proof -
  from assms(2) have ok: "NUL \<notin> set p" "\<not> has_prefix p ''//''"
    by (auto simp: canonicalPOSIX_def split: if_splits)
  with assms have "q = abs_path (lower_mount (clean_segs True [] (split_byte slash p)))"
    by (simp add: canonicalPOSIX_segs)
  then show ?thesis
    using clean_split_props [OF ok(1)] canonical_segs_lower_mount by (auto simp: canonical_path_def)
qed

lemma canonicalPOSIX_fixed:
  assumes "canonical_segs xs"
  shows "canonicalPOSIX (abs_path xs) = Inr (abs_path xs)"
proof -
  from assms have proper: "\<And>x. x \<in> set xs \<Longrightarrow> proper x" and nul: "\<forall>x \<in> set xs. NUL \<notin> set x"
    and low: "lower_mount xs = xs"
    by (auto simp: canonical_segs_def)
  have "clean_segs True [] (split_byte slash (abs_path xs)) = xs"
    using proper by (auto simp: split_byte_abs_path proper_no_slash clean_segs_id)
  then show ?thesis
    using low nul abs_path_not_double [OF proper]
    by (subst canonicalPOSIX_segs) (auto simp: set_abs_path, simp add: abs_path_def)
qed

text \<open>A drive path is the mount element, the lower-case drive and the cleaned rest.\<close>

lemma clean_segs_drop_slashes:
  "clean_segs rooted out (split_byte slash (dropWhile (\<lambda>b. b = slash) s)) =
   clean_segs rooted out (split_byte slash s)"
  by (induction s) auto

lemma Canonicalize_drive:
  assumes "isASCIILetter d" and "r \<noteq> []" and "hd r = backslash \<or> hd r = slash" and "NUL \<notin> set r"
  shows "Canonicalize env (d # colon # r) =
     Inr (abs_path (''mnt'' # [asciiToLower d] #
       clean_segs True [] (split_byte slash (replace_byte backslash slash r))))"
proof -
  let ?rest = "dropWhile (\<lambda>b. b = slash) (replace_byte backslash slash r)"
  let ?xs = "clean_segs True [] (split_byte slash (replace_byte backslash slash r))"
  have clean: "path_clean (slash # ?rest) = abs_path ?xs"
    by (simp add: path_clean_abs clean_segs_drop_slashes)
  have "?xs = [] \<longleftrightarrow> abs_path ?xs = [slash]"
    using abs_path_inject [of ?xs "[]"] clean_segs_proper [of "split_byte slash (replace_byte backslash slash r)" "[]"]
    by (auto simp: abs_path_def dest: split_byte_no_sep)
  moreover have "isDriveLetterPath (d # colon # r)" using assms by (auto simp: isDriveLetterPath_def)
  ultimately show ?thesis
    using assms letter_not_special [OF assms(1)]
    by (auto simp: Canonicalize_def isUNCPath_def Let_def clean abs_path_Cons)
qed

lemma Canonicalize_posix:
  "has_prefix p [slash] \<Longrightarrow> NUL \<notin> set p \<Longrightarrow> Canonicalize env p = canonicalPOSIX p"
  by (auto simp: Canonicalize_def isUNCPath_def has_prefix_iff)

lemma canonicalUNC_canonical:
  assumes "canonicalUNC env p = Inr q"
  shows "canonical_path q"
proof -
  from assms obtain rest where "canonicalPOSIX (slash # join [slash] rest) = Inr q"
    by (auto simp: canonicalUNC_def canonicalWSLPath_def Let_def
        split: if_splits list.splits option.splits)
  then show ?thesis by (rule canonicalPOSIX_canonical [rotated]) simp
qed

lemma Canonicalize_canonical:
  assumes "Canonicalize env p = Inr q"
  shows "canonical_path q"
proof -
  consider (unc) "canonicalUNC env p = Inr q"
    | (posix) "has_prefix p [slash]" "canonicalPOSIX p = Inr q"
    | (drive) d r where "p = d # colon # r" "isASCIILetter d" "r \<noteq> []"
        "hd r = backslash \<or> hd r = slash" "NUL \<notin> set r"
    using assms
    by (auto simp: Canonicalize_def isDriveLetterPath_def Let_def split: if_splits list.splits)
  then show ?thesis
  proof cases
    case drive
    let ?xs = "clean_segs True [] (split_byte slash (replace_byte backslash slash r))"
    have "NUL \<notin> set (replace_byte backslash slash r)"
      using drive(5) by (simp add: notin_replace_byte)
    then have "\<forall>x \<in> set ?xs. proper x \<and> NUL \<notin> set x" by (rule clean_split_props)
    moreover have "proper [asciiToLower d]" "asciiToLower d \<noteq> NUL"
      using asciiToLower_letter [OF drive(2)] letter_not_special(3) by auto
    ultimately have "canonical_segs (''mnt'' # [asciiToLower d] # ?xs)"
      by (auto simp: canonical_segs_def proper_def)
    then show ?thesis
      using assms drive by (auto simp: Canonicalize_drive canonical_path_def)
  qed (use canonicalUNC_canonical canonicalPOSIX_canonical in blast)+
qed

lemma Canonicalize_fixed:
  assumes "canonical_path q"
  shows "Canonicalize env q = Inr q"
proof -
  from assms obtain xs where xs: "canonical_segs xs" "q = abs_path xs"
    by (auto simp: canonical_path_def)
  then have "NUL \<notin> set q" by (auto simp: canonical_segs_def set_abs_path)
  moreover have "has_prefix q [slash]" using xs by (simp add: abs_path_def)
  ultimately show ?thesis using xs canonicalPOSIX_fixed by (simp add: Canonicalize_posix)
qed

text \<open>A same-distro UNC path is the POSIX path below its distro.\<close>

lemma Canonicalize_unc:
  assumes "server = ''wsl$'' \<or> server = ''wsl.localhost''"
    and "distro \<noteq> []" "slash \<notin> set distro" "backslash \<notin> set distro" "NUL \<notin> set distro"
    and "wsl_distro env \<noteq> []" "equal_fold (fold_ext env) distro (wsl_distro env)"
    and "NUL \<notin> set t"
  shows "Canonicalize env ([backslash, backslash] @ server @ [backslash] @ distro @ backslash # t) =
     canonicalPOSIX (slash # replace_byte backslash slash t)"
proof -
  let ?tail = "server @ [backslash] @ distro @ backslash # t"
  have server: "slash \<notin> set server" "backslash \<notin> set server" "NUL \<notin> set server"
      "server \<noteq> []" "hd ?tail \<noteq> slash" "hd ?tail \<noteq> backslash"
    using assms(1) by auto
  have tail: "replace_byte backslash slash ?tail =
      server @ slash # distro @ slash # replace_byte backslash slash t"
    using server(2) assms(4) by simp
  have "split_byte slash (replace_byte backslash slash ?tail) =
      server # distro # split_byte slash (replace_byte backslash slash t)"
    unfolding tail using server(1) assms(3) by (simp add: split_byte_append_sep)
  moreover have "\<not> (\<not> equal_fold (fold_ext env) server ''wsl$'' \<and>
      \<not> equal_fold (fold_ext env) server ''wsl.localhost'')"
    using assms(1) by auto
  ultimately show ?thesis
    using server assms
    by (auto simp: Canonicalize_def isUNCPath_def canonicalUNC_def canonicalWSLPath_def
        currentDistro_def Let_def)
qed

text \<open>The environment names a distro that Windows can spell in a UNC path.\<close>

definition plain_distro :: "host_env \<Rightarrow> bool" where
  "plain_distro env \<longleftrightarrow>
     slash \<notin> set (wsl_distro env) \<and> backslash \<notin> set (wsl_distro env) \<and> NUL \<notin> set (wsl_distro env)"

lemma replace_roundtrip_join:
  "backslash \<notin> set s \<Longrightarrow> replace_byte backslash slash (replace_byte slash backslash s) = s"
  by (rule replace_byte_back)

lemma mount_windows:
  assumes "canonical_segs (''mnt'' # [d] # ys)" "isASCIILetter d"
    and "backslash \<notin> set (abs_path (''mnt'' # [d] # ys))"
  shows "Canonicalize env (asciiToUpper d # colon # backslash #
      replace_byte slash backslash (join [slash] ys)) = Inr (abs_path (''mnt'' # [d] # ys))"
proof -
  from assms(1,2) have d: "asciiToLower d = d" by (simp add: canonical_segs_def)
  from assms(1) have ys: "\<forall>y \<in> set ys. proper y \<and> NUL \<notin> set y" by (simp add: canonical_segs_def)
  have nb: "backslash \<notin> set (join [slash] ys)" using assms(3) by (auto simp: abs_path_def notin_join)
  have nn: "NUL \<notin> set (backslash # replace_byte slash backslash (join [slash] ys))"
    using ys by (simp add: notin_replace_byte notin_join)
  have "clean_segs True [] (split_byte slash (slash # join [slash] ys)) = ys"
    using ys by (cases "ys = []") (auto simp: split_byte_join proper_no_slash clean_segs_id)
  moreover have "asciiToLower (asciiToUpper d) = d"
    using asciiToLower_upper [OF assms(2)] d by simp
  ultimately show ?thesis
    using Canonicalize_drive [OF asciiToUpper_letter [OF assms(2)] _ _ nn, of env] nb
    by (simp add: replace_roundtrip_join)
qed

lemma distro_windows:
  assumes "canonical_segs xs" "plain_distro env" "wsl_distro env \<noteq> []" "backslash \<notin> set (abs_path xs)"
  shows "Canonicalize env ([backslash, backslash] @ ''wsl.localhost'' @ [backslash] @ wsl_distro env @
      replace_byte slash backslash (abs_path xs)) = Inr (abs_path xs)"
proof -
  have nb: "backslash \<notin> set (join [slash] xs)" and nn: "NUL \<notin> set (join [slash] xs)"
    using assms(1,4) by (auto simp: abs_path_def notin_join canonical_segs_def)
  have "NUL \<notin> set (replace_byte slash backslash (join [slash] xs))"
    using nn by (simp add: notin_replace_byte)
  then have "Canonicalize env ([backslash, backslash] @ ''wsl.localhost'' @ [backslash] @
      wsl_distro env @ backslash # replace_byte slash backslash (join [slash] xs)) =
      canonicalPOSIX (slash # replace_byte backslash slash (replace_byte slash backslash (join [slash] xs)))"
    using assms(2,3) by (intro Canonicalize_unc) (auto simp: plain_distro_def)
  then show ?thesis
    using canonicalPOSIX_fixed [OF assms(1)] nb by (simp add: replace_roundtrip_join abs_path_def)
qed

lemma WSLToWindows_back:
  assumes "plain_distro env" and "Canonicalize env p = Inr q" and "WSLToWindows env p = Inr w"
  shows "Canonicalize env w = Inr q"
proof -
  from assms(2) obtain xs where xs: "canonical_segs xs" "q = abs_path xs"
    using Canonicalize_canonical [OF assms(2)] by (auto simp: canonical_path_def)
  from xs(1) have proper: "\<forall>x \<in> set xs. proper x" by (auto simp: canonical_segs_def)
  from assms(2,3) have nb: "backslash \<notin> set (abs_path xs)"
    by (auto simp: WSLToWindows_def xs split: if_splits)
  show ?thesis
  proof (cases "\<exists>d ys. xs = ''mnt'' # [d] # ys \<and> isASCIILetter d")
    case True
    then obtain d ys where m: "xs = ''mnt'' # [d] # ys" "isASCIILetter d" by blast
    have low: "asciiToLower d = d" using xs(1) m by (simp add: canonical_segs_def)
    have "w = asciiToUpper d # colon # backslash # replace_byte slash backslash (join [slash] ys)"
      using assms(2,3) nb m low splitMountDrive_abs_path [OF proper]
      by (auto simp: WSLToWindows_def xs(2) trim_prefix_def abs_path_def split: if_splits)
    then show ?thesis using mount_windows [of d ys] xs nb m by simp
  next
    case False
    then have "splitMountDrive (abs_path xs) = None"
      unfolding splitMountDrive_abs_path [OF proper] by (auto split: list.splits)
    then have "w = [backslash, backslash] @ ''wsl.localhost'' @ [backslash] @ wsl_distro env @
        replace_byte slash backslash (abs_path xs)" and "wsl_distro env \<noteq> []"
      using assms(2,3) nb by (auto simp: WSLToWindows_def xs(2) split: if_splits)
    then show ?thesis using distro_windows [OF xs(1) assms(1) _ nb] xs(2) by simp
  qed
qed

section \<open>Properties\<close>

text \<open>C1: whatever \<open>Canonicalize\<close> accepts, its result is a canonical identity (an absolute path of
  proper elements, no NUL, lower-case mount drive), and canonicalizing that identity again, under any
  environment, returns it unchanged.\<close>

theorem Canonicalize_identity:
  assumes "Canonicalize env p = Inr q"
  shows "canonical_path q \<and> Canonicalize env' q = Inr q"
  using Canonicalize_canonical [OF assms] Canonicalize_fixed by blast

text \<open>The Windows spelling that \<open>WSLToWindows\<close> gives a path names the same host identity: reading
  it back through \<open>Canonicalize\<close> returns the canonical path it was made from.\<close>

theorem WSLToWindows_roundtrip:
  assumes "plain_distro env" and "WSLToWindows env p = Inr w"
  shows "Canonicalize env w = Canonicalize env p \<and> isOk (Canonicalize env p)"
proof -
  from assms(2) obtain q where q: "Canonicalize env p = Inr q"
    unfolding WSLToWindows_def rbind_eq_Inr by blast
  have "Canonicalize env w = Inr q" by (rule WSLToWindows_back [OF assms(1) q assms(2)])
  with q show ?thesis by simp
qed

text \<open>C38: the drive, mount and same-distro UNC spellings of one Windows file share one identity, as long
  as the path does not climb out of the mount with \<^verbatim>\<open>..\<close> elements.\<close>

theorem Canonicalize_spellings_agree:
  assumes "isASCIILetter d" and "r \<noteq> []" "hd r = backslash \<or> hd r = slash" "NUL \<notin> set r"
    and "''..'' \<notin> set (split_byte slash (replace_byte backslash slash r))"
    and "plain_distro env" "wsl_distro env \<noteq> []"
  shows "Canonicalize env (d # colon # r) =
         Canonicalize env (''/mnt/'' @ d # replace_byte backslash slash r)
       \<and> Canonicalize env (d # colon # r) =
         Canonicalize env ([backslash, backslash] @ ''wsl$'' @ [backslash] @ wsl_distro env @
            backslash # ''mnt'' @ backslash # d # r)"
proof -
  let ?r = "replace_byte backslash slash r" and ?p = "''/mnt/'' @ d # replace_byte backslash slash r"
  have d: "d \<noteq> slash" "d \<noteq> NUL" "d \<noteq> backslash" "d \<noteq> CHR ''.''"
    using letter_not_special [OF assms(1)] by auto
  obtain r' where r': "?r = slash # r'" using assms(2,3) by (cases r) auto
  have nul: "NUL \<notin> set ?r" using assms(4) by (simp add: notin_replace_byte)
  have "split_byte slash ?p = [] # ''mnt'' # [d] # split_byte slash r'"
    using d r' split_byte_append_sep [of slash "''mnt''" "d # slash # r'"]
      split_byte_append_sep [of slash "[d]" r'] by simp
  moreover have "clean_segs True [[d], ''mnt''] (split_byte slash r') =
      ''mnt'' # [d] # clean_segs True [] (split_byte slash r')"
    using assms(5) r' by (simp add: clean_segs_no_dotdot)
  ultimately have clean: "clean_segs True [] (split_byte slash ?p) =
      ''mnt'' # [d] # clean_segs True [] (split_byte slash ?r)"
    using d r' by simp
  have posix: "canonicalPOSIX ?p = Inr (abs_path (''mnt'' # [asciiToLower d] #
      clean_segs True [] (split_byte slash ?r)))"
  proof -
    have "canonicalPOSIX ?p = Inr (abs_path (lower_mount (clean_segs True [] (split_byte slash ?p))))"
      by (rule canonicalPOSIX_segs) (use nul d in auto)
    then show ?thesis unfolding clean using assms(1) by simp
  qed
  have drive: "Canonicalize env (d # colon # r) = canonicalPOSIX ?p"
    using posix Canonicalize_drive [OF assms(1-4)] by simp
  have "Canonicalize env ?p = canonicalPOSIX ?p"
    using nul d by (intro Canonicalize_posix) auto
  moreover have "Canonicalize env ([backslash, backslash] @ ''wsl$'' @ [backslash] @ wsl_distro env @
      backslash # ''mnt'' @ backslash # d # r) =
      canonicalPOSIX (slash # replace_byte backslash slash (''mnt'' @ backslash # d # r))"
    using assms(4,6,7) d by (intro Canonicalize_unc) (auto simp: plain_distro_def)
  moreover have "slash # replace_byte backslash slash (''mnt'' @ backslash # d # r) = ?p"
    using d by simp
  ultimately show ?thesis using drive by simp
qed

end
