(* ===== verification/Core_Types.thy ===== *)
theory Core_Types
  imports Go_Utf8
begin

text \<open>
  The shared contracts of the daemon (\<^verbatim>\<open>src/internal/core\<close>): positions, ranges, locations,
  symbols and the symbol tree, freshness and the generation counter, the runtime
  configuration, telemetry events, and the calling convention of the
  \<^verbatim>\<open>LanguageProvider\<close> interface with the stub that implements it.
\<close>

section \<open>Positions and ranges\<close>

record Position =
  Line :: int
  Character :: int

record Range =
  Start :: Position
  End :: Position

datatype geometry_error =
    NegativePosition Position
  | RangeStart geometry_error
  | RangeEnd geometry_error
  | EndPrecedesStart Position Position

definition Position_Validate :: "Position \<Rightarrow> geometry_error option" where
  "Position_Validate p = (if Line p < 0 \<or> Character p < 0 then Some (NegativePosition p) else None)"

definition Range_Validate :: "Range \<Rightarrow> geometry_error option" where
  "Range_Validate r =
     (case Position_Validate (Start r) of
        Some e \<Rightarrow> Some (RangeStart e)
      | None \<Rightarrow>
     (case Position_Validate (End r) of
        Some e \<Rightarrow> Some (RangeEnd e)
      | None \<Rightarrow>
          if Line (End r) < Line (Start r) \<or>
             Line (End r) = Line (Start r) \<and> Character (End r) < Character (Start r)
          then Some (EndPrecedesStart (End r) (Start r)) else None))"

definition positionBefore :: "Position \<Rightarrow> Position \<Rightarrow> bool" where
  "positionBefore a b \<longleftrightarrow> Line a < Line b \<or> Line a = Line b \<and> Character a < Character b"

definition Range_Contains :: "Range \<Rightarrow> Range \<Rightarrow> bool" where
  "Range_Contains r inner \<longleftrightarrow>
     \<not> positionBefore (Start inner) (Start r) \<and> \<not> positionBefore (End r) (End inner)"

record Location =
  loc_File :: string
  loc_Range :: Range

section \<open>Symbols\<close>

type_synonym SymbolKind = string

abbreviation (input) SymbolKindUnknown :: SymbolKind where "SymbolKindUnknown \<equiv> ''unknown''"
abbreviation (input) SymbolKindClass :: SymbolKind where "SymbolKindClass \<equiv> ''class''"
abbreviation (input) SymbolKindInterface :: SymbolKind where "SymbolKindInterface \<equiv> ''interface''"
abbreviation (input) SymbolKindFunction :: SymbolKind where "SymbolKindFunction \<equiv> ''function''"
abbreviation (input) SymbolKindMethod :: SymbolKind where "SymbolKindMethod \<equiv> ''method''"
abbreviation (input) SymbolKindProperty :: SymbolKind where "SymbolKindProperty \<equiv> ''property''"
abbreviation (input) SymbolKindConstructor :: SymbolKind where "SymbolKindConstructor \<equiv> ''constructor''"

record Symbol =
  sym_Name :: string
  sym_Kind :: SymbolKind
  sym_File :: string
  sym_Range :: Range
  sym_SelRange :: Range
  sym_Signature :: string
  sym_Detail :: string

datatype SymbolNode = SymbolNode (node_Symbol: Symbol) (node_Children: "SymbolNode list")

text \<open>The parent-before-children walk over a forest, with the depth of every node.\<close>

fun preorder_node :: "nat \<Rightarrow> SymbolNode \<Rightarrow> (Symbol \<times> nat) list" where
  "preorder_node d (SymbolNode s cs) = (s, d) # concat (map (preorder_node (Suc d)) cs)"

definition preorder :: "nat \<Rightarrow> SymbolNode list \<Rightarrow> (Symbol \<times> nat) list" where
  "preorder d ns = concat (map (preorder_node d) ns)"

lemma preorder_Nil [simp]: "preorder d [] = []"
  by (simp add: preorder_def)

lemma preorder_Cons [simp]:
  "preorder d (SymbolNode s cs # ns) = (s, d) # preorder (Suc d) cs @ preorder d ns"
  by (simp add: preorder_def)

lemma preorder_eq_Nil [simp]: "preorder d ns = [] \<longleftrightarrow> ns = []"
proof (cases ns)
  case (Cons n ns')
  then show ?thesis by (cases n) simp
qed simp

section \<open>Freshness and the generation counter\<close>

record Freshness =
  fresh_Generation :: "64 word"
  fresh_Stale :: bool

text \<open>\<^verbatim>\<open>GenerationCounter\<close> holds one atomic \<^verbatim>\<open>uint64\<close>; \<open>Bump\<close> returns the new value and the counter.\<close>

type_synonym GenerationCounter = "64 word"

definition Current :: "GenerationCounter \<Rightarrow> Freshness" where
  "Current g = \<lparr>fresh_Generation = g, fresh_Stale = False\<rparr>"

definition Bump :: "GenerationCounter \<Rightarrow> 64 word \<times> GenerationCounter" where
  "Bump g = (g + 1, g + 1)"

section \<open>Configuration\<close>

record Config =
  cfg_ProjectRoot :: string
  cfg_SessionID :: string
  cfg_GraphMode :: string
  cfg_TsgoPath :: string
  cfg_JSONLPath :: string
  cfg_ControlSocket :: string
  cfg_MaxResults :: int

abbreviation (input) GraphModeGraph :: string where "GraphModeGraph \<equiv> ''graph''"
abbreviation (input) GraphModeNoGraph :: string where "GraphModeNoGraph \<equiv> ''no-graph''"

definition DefaultMaxResults :: int where "DefaultMaxResults = 100"

datatype dimension_error = ErrInvalidSessionID | ErrInvalidGraphMode string

definition ValidateTelemetryDimensions :: "Config \<Rightarrow> dimension_error option" where
  "ValidateTelemetryDimensions c =
     (if trim_space (cfg_SessionID c) = [] then Some ErrInvalidSessionID
      else if cfg_GraphMode c \<noteq> GraphModeGraph \<and> cfg_GraphMode c \<noteq> GraphModeNoGraph
        then Some (ErrInvalidGraphMode (cfg_GraphMode c))
      else None)"

definition Cap :: "Config \<Rightarrow> int" where
  "Cap c = (if cfg_MaxResults c \<le> 0 then DefaultMaxResults else cfg_MaxResults c)"

section \<open>Telemetry events\<close>

text \<open>
  An event as a tool call builds it. \<^verbatim>\<open>Timestamp\<close> is filled in by the sink, \<^verbatim>\<open>DurationMs\<close> by
  the clock and \<^verbatim>\<open>Extra\<close> by nobody (\<^verbatim>\<open>tools.go\<close>), so only the duration is a parameter here.
\<close>

record Event =
  ev_SessionID :: string
  ev_GraphMode :: string
  ev_Tool :: string
  ev_DurationMs :: int
  ev_ResultSize :: int
  ev_Truncated :: bool
  ev_Stale :: bool
  ev_Generation :: "64 word"
  ev_Err :: string

section \<open>The language provider interface\<close>

text \<open>
  A provider method runs under a context in the world of one execution: the number of
  context polls made so far and the provider's own state \<open>'s\<close>. It returns its result or the
  text of its error.
\<close>

type_synonym 's world = "nat \<times> 's"

type_synonym ('s, 'a) provider_call = "ctx \<Rightarrow> 's world \<Rightarrow> (string + 'a) \<times> 's world"

record 's LanguageProvider =
  Definition :: "string \<Rightarrow> Position \<Rightarrow> ('s, Location list) provider_call"
  References :: "string \<Rightarrow> Position \<Rightarrow> bool \<Rightarrow> ('s, Location list) provider_call"
  DocumentSymbols :: "string \<Rightarrow> ('s, SymbolNode list) provider_call"
  SymbolSignatures :: "string \<Rightarrow> Symbol list \<Rightarrow> ('s, string list) provider_call"

text \<open>Work that polls the context and leaves the provider's state alone.\<close>

definition withPolls :: "(nat \<Rightarrow> 'r \<times> nat) \<Rightarrow> 's world \<Rightarrow> 'r \<times> 's world" where
  "withPolls f w = (case w of (n, s) \<Rightarrow> (case f n of (r, n') \<Rightarrow> (r, (n', s))))"

lemma withPolls_fst: "withPolls f (n, s) = (r, w') \<Longrightarrow> fst (f n) = r"
  by (auto simp: withPolls_def split: prod.splits)

lemma withPolls_snd: "withPolls f w = (r, w') \<Longrightarrow> snd w' = snd w"
  by (auto simp: withPolls_def split: prod.splits)

text \<open>What the tools rely on: the signatures of a batch come one per symbol, in the order of the batch.\<close>

locale language_provider =
  fixes P :: "'s LanguageProvider"
  assumes signatures_length:
    "SymbolSignatures P f ss c w = (Inr sigs, w') \<Longrightarrow> length sigs = length ss"

subsection \<open>The stub provider\<close>

record StubProvider =
  stub_Definitions :: "string \<rightharpoonup> Location list"
  stub_Refs :: "string \<rightharpoonup> Location list"
  stub_Symbols :: "string \<rightharpoonup> SymbolNode list"

text \<open>Reading an absent key of a Go map of slices gives the nil slice.\<close>

definition map_get :: "(string \<rightharpoonup> 'a list) \<Rightarrow> string \<Rightarrow> 'a list" where
  "map_get m k = (case m k of None \<Rightarrow> [] | Some xs \<Rightarrow> xs)"

definition stub_provider :: "StubProvider \<Rightarrow> 's LanguageProvider" where
  "stub_provider s = \<lparr>
     Definition = (\<lambda>file _ c w. (Inr (map_get (stub_Definitions s) file), w)),
     References = (\<lambda>file _ _ c w. (Inr (map_get (stub_Refs s) file), w)),
     DocumentSymbols = (\<lambda>file c w. (Inr (map_get (stub_Symbols s) file), w)),
     SymbolSignatures = (\<lambda>_ symbols c w. (Inr (map sym_Signature symbols), w))\<rparr>"

interpretation stub: language_provider "stub_provider s" for s :: StubProvider
  by unfold_locales (auto simp: stub_provider_def)

section \<open>Geometry\<close>

definition wf_position :: "Position \<Rightarrow> bool" where
  "wf_position p \<longleftrightarrow> 0 \<le> Line p \<and> 0 \<le> Character p"

definition wf_range :: "Range \<Rightarrow> bool" where
  "wf_range r \<longleftrightarrow> wf_position (Start r) \<and> wf_position (End r) \<and> \<not> positionBefore (End r) (Start r)"

lemma Position_Validate_None [simp]: "Position_Validate p = None \<longleftrightarrow> wf_position p"
  by (auto simp: Position_Validate_def wf_position_def)

lemma Range_Validate_None [simp]: "Range_Validate r = None \<longleftrightarrow> wf_range r"
  by (auto simp: Range_Validate_def wf_range_def positionBefore_def Position_Validate_def
      wf_position_def)

lemma positionBefore_irrefl [simp]: "\<not> positionBefore p p"
  by (simp add: positionBefore_def)

lemma positionBefore_trans: "positionBefore a b \<Longrightarrow> positionBefore b c \<Longrightarrow> positionBefore a c"
  by (auto simp: positionBefore_def)

lemma positionBefore_total: "positionBefore a b \<or> a = b \<or> positionBefore b a"
  by (cases a; cases b) (auto simp: positionBefore_def)

lemma positionBefore_neg_trans: "\<not> positionBefore a b \<Longrightarrow> \<not> positionBefore b c \<Longrightarrow> \<not> positionBefore a c"
  by (auto simp: positionBefore_def)

lemma Range_Contains_refl [simp]: "Range_Contains r r"
  by (simp add: Range_Contains_def)

lemma Range_Contains_trans: "Range_Contains a b \<Longrightarrow> Range_Contains b c \<Longrightarrow> Range_Contains a c"
  unfolding Range_Contains_def using positionBefore_neg_trans by blast

lemma Cap_pos [simp]: "0 < Cap c"
  by (simp add: Cap_def DefaultMaxResults_def)

end
