(* ===== verification/Daemon_Main.thy ===== *)
theory Daemon_Main
  imports Pathnorm Core_Types
begin

text \<open>
  The daemon command (\<^verbatim>\<open>src/cmd/portoland/main.go\<close>): its configuration from flags and environment,
  over a model of the parts of Go's \<^verbatim>\<open>flag\<close> and \<^verbatim>\<open>strconv\<close> that it uses, and the order in which
  \<^verbatim>\<open>run\<close> starts and releases its parts. The working directory, the environment and the outcomes of
  starting the parts are parameters.
\<close>

section \<open>\<^verbatim>\<open>strconv.ParseInt\<close> in base 0\<close>

definition lowerByte :: "char \<Rightarrow> char" where
  "lowerByte c = asciiToLower c"

definition digitValue :: "char \<Rightarrow> int option" where
  "digitValue c =
     (let n = int (byte_val c) in
      if 48 \<le> n \<and> n \<le> 57 then Some (n - 48)
      else let m = int (byte_val (lowerByte c)) in if 97 \<le> m \<and> m \<le> 122 then Some (m - 87) else None)"

text \<open>The digits of a number in a base; underscores are skipped, a syntax error gives \<open>None\<close>.\<close>

fun digitsValue :: "int \<Rightarrow> int \<Rightarrow> string \<Rightarrow> int option" where
  "digitsValue base acc [] = Some acc"
| "digitsValue base acc (c # s) =
     (if c = CHR ''_'' then digitsValue base acc s
      else (case digitValue c of
         None \<Rightarrow> None
       | Some d \<Rightarrow> if base \<le> d then None else digitsValue base (acc * base + d) s))"

definition basePrefix :: "string \<Rightarrow> int \<times> string" where
  "basePrefix s =
     (if s \<noteq> [] \<and> hd s = CHR ''0'' then
        (if 3 \<le> length s \<and> lowerByte (s ! 1) = CHR ''b'' then (2, drop 2 s)
         else if 3 \<le> length s \<and> lowerByte (s ! 1) = CHR ''o'' then (8, drop 2 s)
         else if 3 \<le> length s \<and> lowerByte (s ! 1) = CHR ''x'' then (16, drop 2 s)
         else (8, drop 1 s))
      else (10, s))"

text \<open>\<^verbatim>\<open>underscoreOK\<close>: an underscore separates digits, where a base prefix counts as a digit. The first argument is the last byte seen.\<close>

fun underscoreWalk :: "bool \<Rightarrow> char \<Rightarrow> string \<Rightarrow> bool" where
  "underscoreWalk hex i [] = (i \<noteq> CHR ''_'')"
| "underscoreWalk hex i (c # s) =
     (if isASCIIDigit c \<or> hex \<and> 97 \<le> byte_val (lowerByte c) \<and> byte_val (lowerByte c) \<le> 102 then underscoreWalk hex CHR ''0'' s
      else if c = CHR ''_'' then i = CHR ''0'' \<and> underscoreWalk hex CHR ''_'' s
      else i \<noteq> CHR ''_'' \<and> underscoreWalk hex CHR ''!'' s)"

definition underscoreOK :: "string \<Rightarrow> bool" where
  "underscoreOK s =
     (if 2 \<le> length s \<and> hd s = CHR ''0'' \<and> lowerByte (s ! 1) \<in> {CHR ''b'', CHR ''o'', CHR ''x''}
      then underscoreWalk (lowerByte (s ! 1) = CHR ''x'') CHR ''0'' (drop 2 s)
      else underscoreWalk False CHR ''^'' s)"

definition parseUint0 :: "string \<Rightarrow> int option" where
  "parseUint0 s =
     (if s = [] then None
      else case digitsValue (fst (basePrefix s)) 0 (snd (basePrefix s)) of
        None \<Rightarrow> None
      | Some n \<Rightarrow> if CHR ''_'' \<in> set s \<and> \<not> underscoreOK s then None else if 2 ^ 64 \<le> n then None else Some n)"

definition parseInt0 :: "string \<Rightarrow> int option" where
  "parseInt0 s =
     (if s = [] then None
      else
        (let neg = (hd s = CHR ''-'');
             body = (if hd s = CHR ''-'' \<or> hd s = CHR ''+'' then tl s else s)
         in case parseUint0 body of
            None \<Rightarrow> None
          | Some n \<Rightarrow>
              if \<not> neg \<and> 2 ^ 63 \<le> n then None
              else if neg \<and> 2 ^ 63 < n then None
              else Some (if neg then - n else n)))"

section \<open>\<^verbatim>\<open>flag.FlagSet\<close>\<close>

datatype config_error =
    ErrHelp
  | BadFlagSyntax string
  | FlagNotDefined string
  | FlagNeedsArgument string
  | InvalidFlagValue string string
  | GetwdFailed string
  | InvalidFlagPath string string path_error
  | InvalidDimensions string dimension_error

definition stringFlags :: "string list" where
  "stringFlags = [''project-root'', ''jsonl'', ''session-id'', ''graph-mode'', ''control-socket'', ''tsgo'']"

definition intFlags :: "string list" where
  "intFlags = [''max-results'']"

definition definedFlag :: "string \<Rightarrow> bool" where
  "definedFlag name \<longleftrightarrow> name \<in> set stringFlags \<or> name \<in> set intFlags"

text \<open>The value that \<^verbatim>\<open>Set\<close> of a flag accepts.\<close>

definition acceptsValue :: "string \<Rightarrow> string \<Rightarrow> bool" where
  "acceptsValue name v \<longleftrightarrow> (name \<in> set intFlags \<longrightarrow> parseInt0 v \<noteq> None)"

text \<open>\<^verbatim>\<open>--name=value\<close> is cut at its first equals sign after the first byte of the name.\<close>

definition cutFlag :: "string \<Rightarrow> string \<times> string option" where
  "cutFlag name =
     (case cut_byte (CHR ''='') (tl name) of
        Some (a, v) \<Rightarrow> (hd name # a, Some v)
      | None \<Rightarrow> (name, None))"

definition setFlag :: "string \<Rightarrow> string \<Rightarrow> (string \<times> string) list \<Rightarrow> config_error + (string \<times> string) list" where
  "setFlag name v flags = (if acceptsValue name v then Inr ((name, v) # flags) else Inl (InvalidFlagValue name v))"

text \<open>The name in an argument that starts with one or two minus signs.\<close>

definition flagName :: "string \<Rightarrow> string" where
  "flagName s = (if s ! 1 = CHR ''-'' then drop 2 s else drop 1 s)"

text \<open>
  \<^verbatim>\<open>FlagSet.Parse\<close> (its \<^verbatim>\<open>parseOne\<close> until it stops): the flags set so far, the last one first.
  Parsing ends at the first argument that is no flag and after \<^verbatim>\<open>--\<close>.
\<close>

fun parseFlags :: "(string \<times> string) list \<Rightarrow> string list \<Rightarrow> config_error + (string \<times> string) list" where
  "parseFlags flags [] = Inr flags"
| "parseFlags flags (s # args) =
     (if length s < 2 \<or> hd s \<noteq> CHR ''-'' then Inr flags
      else if s = ''--'' then Inr flags
      else if flagName s = [] \<or> hd (flagName s) = CHR ''-'' \<or> hd (flagName s) = CHR ''='' then Inl (BadFlagSyntax s)
      else
        (case cutFlag (flagName s) of
           (name, given) \<Rightarrow>
             if \<not> definedFlag name then Inl (if name = ''help'' \<or> name = ''h'' then ErrHelp else FlagNotDefined name)
             else
               (case given of
                  Some v \<Rightarrow> (case setFlag name v flags of Inl err \<Rightarrow> Inl err | Inr flags' \<Rightarrow> parseFlags flags' args)
                | None \<Rightarrow>
                    (case args of
                       [] \<Rightarrow> Inl (FlagNeedsArgument name)
                     | v # args' \<Rightarrow>
                         (case setFlag name v flags of Inl err \<Rightarrow> Inl err | Inr flags' \<Rightarrow> parseFlags flags' args')))))"

section \<open>Configuration\<close>

definition envOr :: "(string \<Rightarrow> string option) \<Rightarrow> string \<Rightarrow> string \<Rightarrow> string" where
  "envOr lookupEnv key fallback = (case lookupEnv key of Some v \<Rightarrow> v | None \<Rightarrow> fallback)"

definition envIsSet :: "(string \<Rightarrow> string option) \<Rightarrow> string \<Rightarrow> bool" where
  "envIsSet lookupEnv key \<longleftrightarrow> lookupEnv key \<noteq> None"

definition canonicalFlagPath :: "host_env \<Rightarrow> string \<Rightarrow> string \<Rightarrow> config_error + string" where
  "canonicalFlagPath env name v =
     (case Canonicalize env v of Inl err \<Rightarrow> Inl (InvalidFlagPath name v err) | Inr canonical \<Rightarrow> Inr canonical)"

definition canonicalOptionalFlagPath :: "host_env \<Rightarrow> string \<Rightarrow> string \<Rightarrow> config_error + string" where
  "canonicalOptionalFlagPath env name v = (if v = [] then Inr [] else canonicalFlagPath env name v)"

definition telemetryDimensionError ::
  "(string \<Rightarrow> string option) \<Rightarrow> dimension_error \<Rightarrow> (string \<Rightarrow> bool) \<Rightarrow> config_error" where
  "telemetryDimensionError lookupEnv err isSet =
     InvalidDimensions
       (if err = ErrInvalidSessionID \<and> isSet ''session-id'' then ''--session-id''
        else if err = ErrInvalidSessionID \<and> envIsSet lookupEnv ''PORTOLAN_SESSION_ID'' then ''PORTOLAN_SESSION_ID''
        else if err \<noteq> ErrInvalidSessionID \<and> isSet ''graph-mode'' then ''--graph-mode''
        else if err \<noteq> ErrInvalidSessionID \<and> envIsSet lookupEnv ''PORTOLAN_GRAPH_MODE'' then ''PORTOLAN_GRAPH_MODE''
        else ''telemetry dimensions'') err"

definition flagValue :: "(string \<times> string) list \<Rightarrow> string \<Rightarrow> string \<Rightarrow> string" where
  "flagValue flags name fallback = (case map_of flags name of Some v \<Rightarrow> v | None \<Rightarrow> fallback)"

definition buildConfig ::
  "host_env \<Rightarrow> (string \<Rightarrow> string option) \<Rightarrow> string + string \<Rightarrow> (string \<times> string) list \<Rightarrow> config_error + Config" where
  "buildConfig env lookupEnv getwd flags =
     rbind (case map_of flags ''project-root'' of
              Some root \<Rightarrow> Inr root
            | None \<Rightarrow> (case getwd of Inl err \<Rightarrow> Inl (GetwdFailed err) | Inr cwd \<Rightarrow> Inr cwd)) (\<lambda>projectRoot.
     rbind (canonicalFlagPath env ''project-root'' projectRoot) (\<lambda>canonicalRoot.
     rbind (canonicalOptionalFlagPath env ''jsonl'' (flagValue flags ''jsonl'' [])) (\<lambda>canonicalJSONL.
     rbind (canonicalOptionalFlagPath env ''control-socket'' (flagValue flags ''control-socket'' [])) (\<lambda>canonicalControlSocket.
       let cfg = \<lparr>cfg_ProjectRoot = canonicalRoot,
                  cfg_SessionID = flagValue flags ''session-id'' (envOr lookupEnv ''PORTOLAN_SESSION_ID'' []),
                  cfg_GraphMode = flagValue flags ''graph-mode'' (envOr lookupEnv ''PORTOLAN_GRAPH_MODE'' GraphModeGraph),
                  cfg_TsgoPath = flagValue flags ''tsgo'' ''tsgo'',
                  cfg_JSONLPath = canonicalJSONL,
                  cfg_ControlSocket = canonicalControlSocket,
                  cfg_MaxResults = (case map_of flags ''max-results'' of None \<Rightarrow> 0 | Some v \<Rightarrow> the (parseInt0 v))\<rparr>
       in case ValidateTelemetryDimensions cfg of
            Some err \<Rightarrow> Inl (telemetryDimensionError lookupEnv err (\<lambda>name. map_of flags name \<noteq> None))
          | None \<Rightarrow> Inr cfg))))"

definition parseConfig ::
  "host_env \<Rightarrow> (string \<Rightarrow> string option) \<Rightarrow> string + string \<Rightarrow> string list \<Rightarrow> config_error + Config" where
  "parseConfig env lookupEnv getwd args = rbind (parseFlags [] args) (buildConfig env lookupEnv getwd)"

definition defaultJSONLPath :: "(string \<Rightarrow> string) \<Rightarrow> string \<Rightarrow> string \<Rightarrow> string" where
  "defaultJSONLPath sha tempDir projectRoot =
     (let name = ''portoland-'' @ take 12 (sha projectRoot) @ ''.jsonl'' in
      if tempDir = [] then path_clean name else path_clean (tempDir @ [slash] @ name))"

section \<open>Starting and stopping\<close>

datatype part = Telemetry | Provider | Control

datatype action = Opened part | Closed part | Served | CanceledContext

datatype run_error = ConfigFailed config_error | StartupFailed "string list" | ServeFailed string

text \<open>How the parts behave: whether each starts, how serving ends, and the errors of closing.\<close>

record outcomes =
  oc_Telemetry :: "Config \<Rightarrow> string option"
  oc_Provider :: "Config \<Rightarrow> string option"
  oc_Control :: "Config \<Rightarrow> string option"
  oc_Serve :: "string option"
  oc_WasCanceled :: bool
  oc_IsCancellation :: bool
  oc_CloseProvider :: "string option"
  oc_CloseTelemetry :: "string option"

definition joinStartupErrors :: "string \<Rightarrow> (string \<times> string option) list \<Rightarrow> string list" where
  "joinStartupErrors primary cleanup =
     primary # concat (map (\<lambda>(label, err). case err of None \<Rightarrow> [] | Some e \<Rightarrow> [''portoland: '' @ label @ '': '' @ e]) cleanup)"

definition run :: "(string \<Rightarrow> string) \<Rightarrow> string \<Rightarrow> outcomes \<Rightarrow> config_error + Config \<Rightarrow> run_error option \<times> action list" where
  "run sha tempDir oc config =
     (case config of
        Inl err \<Rightarrow> (Some (ConfigFailed err), [])
      | Inr cfg0 \<Rightarrow>
     (let cfg = (if cfg_JSONLPath cfg0 = [] then cfg0\<lparr>cfg_JSONLPath := defaultJSONLPath sha tempDir (cfg_ProjectRoot cfg0)\<rparr> else cfg0) in
      case oc_Telemetry oc cfg of
        Some err \<Rightarrow> (Some (StartupFailed [''portoland: opening telemetry stream: '' @ err]), [CanceledContext])
      | None \<Rightarrow>
     (case oc_Provider oc cfg of
        Some err \<Rightarrow>
          (Some (StartupFailed (joinStartupErrors (''portoland: starting language provider: '' @ err)
             [(''closing telemetry'', oc_CloseTelemetry oc)])),
           [Opened Telemetry, Closed Telemetry, CanceledContext])
      | None \<Rightarrow>
     (case oc_Control oc cfg of
        Some err \<Rightarrow>
          (Some (StartupFailed (joinStartupErrors (''portoland: starting control socket: '' @ err)
             [(''closing provider'', oc_CloseProvider oc), (''closing telemetry'', oc_CloseTelemetry oc)])),
           [Opened Telemetry, Opened Provider, Closed Provider, Closed Telemetry, CanceledContext])
      | None \<Rightarrow>
          (case oc_Serve oc of
             Some err \<Rightarrow> if oc_WasCanceled oc \<or> oc_IsCancellation oc then None else Some (ServeFailed (''portoland: mcp server: '' @ err))
           | None \<Rightarrow> None,
           [Opened Telemetry, Opened Provider, Opened Control, Served, CanceledContext,
            Closed Control, Closed Provider, Closed Telemetry])))))"

section \<open>Lemmas\<close>

text \<open>Parts are released in the reverse order of their start: the parts open after a sequence of actions.\<close>

fun open_parts :: "part list \<Rightarrow> action list \<Rightarrow> part list option" where
  "open_parts ps [] = Some ps"
| "open_parts ps (Opened p # as) = (if p \<in> set ps then None else open_parts (p # ps) as)"
| "open_parts ps (Closed p # as) = (case ps of q # ps' \<Rightarrow> if p = q then open_parts ps' as else None | [] \<Rightarrow> None)"
| "open_parts ps (Served # as) = open_parts ps as"
| "open_parts ps (CanceledContext # as) = open_parts ps as"

text \<open>One option as a user writes it: in one argument or in two.\<close>

fun optionArgs :: "bool \<times> string \<times> string \<Rightarrow> string list" where
  "optionArgs (True, name, v) = [''--'' @ name @ ''='' @ v]"
| "optionArgs (False, name, v) = [''-'' @ name, v]"

lemma cut_at_first: "c \<notin> set a \<Longrightarrow> cut_byte c (a @ c # v) = Some (a, v)"
  by (induction a) auto

lemma cut_byte_None: "c \<notin> set a \<Longrightarrow> cut_byte c a = None"
  by (induction a) auto

lemma defined_name:
  assumes "definedFlag name"
  shows "name \<noteq> [] \<and> hd name \<noteq> CHR ''-'' \<and> hd name \<noteq> CHR ''='' \<and> CHR ''='' \<notin> set name \<and> 2 \<le> length name"
  using assms by (auto simp: definedFlag_def stringFlags_def intFlags_def)

lemma cutFlag_defined:
  assumes "definedFlag name"
  shows "cutFlag (name @ CHR ''='' # v) = (name, Some v)" "cutFlag name = (name, None)"
  using defined_name [OF assms] by (cases name; simp add: cutFlag_def cut_at_first cut_byte_None)+

lemma parseFlags_option:
  assumes "definedFlag name" "acceptsValue name v"
  shows "parseFlags flags (optionArgs (joined, name, v) @ args) = parseFlags ((name, v) # flags) args"
  using defined_name [OF assms(1)] assms cutFlag_defined [OF assms(1)]
  by (cases joined; cases name) (auto simp: setFlag_def flagName_def)

lemma parseFlags_options:
  "\<forall>(joined, name, v) \<in> set opts. definedFlag name \<and> acceptsValue name v \<Longrightarrow>
   parseFlags flags (concat (map optionArgs opts) @ args) = parseFlags (rev (map snd opts) @ flags) args"
proof (induction opts arbitrary: flags)
  case (Cons a opts)
  obtain joined name v where a: "a = (joined, name, v)" by (cases a)
  with Cons show ?case by (simp add: parseFlags_option del: parseFlags.simps)
qed simp

lemma parseFlags_accepts:
  assumes "parseFlags flags args = Inr flags'" "\<forall>(name, v) \<in> set flags. acceptsValue name v"
  shows "\<forall>(name, v) \<in> set flags'. acceptsValue name v"
  using assms
proof (induction flags args rule: parseFlags.induct)
  case (2 flags s args)
  show ?case
  proof (cases "length s < 2 \<or> hd s \<noteq> CHR ''-'' \<or> s = ''--''")
    case False
    obtain name given where cut: "cutFlag (flagName s) = (name, given)" by fastforce
    have ok: "\<not> (flagName s = [] \<or> hd (flagName s) = CHR ''-'' \<or> hd (flagName s) = CHR ''='')" "definedFlag name"
      using "2.prems"(1) False cut by (auto split: if_splits)
    have step: "\<forall>(name, v) \<in> set fs. acceptsValue name v" if "setFlag name v flags = Inr fs" for v fs
      using that "2.prems"(2) by (auto simp: setFlag_def split: if_splits)
    show ?thesis
    proof (cases given)
      case (Some v)
      then obtain fs where "setFlag name v flags = Inr fs" "parseFlags fs args = Inr flags'"
        using "2.prems"(1) False cut ok by (auto split: sum.splits)
      then show ?thesis using False ok Some by (intro "2.IH"(2) [OF _ _ ok(1) cut [symmetric]]) (blast dest: step)+
    next
      case None
      then obtain v args' fs where "args = v # args'" "setFlag name v flags = Inr fs" "parseFlags fs args' = Inr flags'"
        using "2.prems"(1) False cut ok by (auto split: sum.splits list.splits)
      then show ?thesis using False ok None by (intro "2.IH"(1) [OF _ _ ok(1) cut [symmetric]]) (blast dest: step)+
    qed
  qed (use 2 in auto)
qed simp

lemma digitsValue_nonneg: "digitsValue base acc s = Some n \<Longrightarrow> 0 \<le> acc \<Longrightarrow> 0 \<le> base \<Longrightarrow> 0 \<le> n"
proof (induction base acc s rule: digitsValue.induct)
  case (2 base acc c s)
  have "0 \<le> d" if "digitValue c = Some d" for d using that by (auto simp: digitValue_def Let_def split: if_splits)
  with 2 show ?case by (auto split: if_splits option.splits)
qed simp

lemma parseUint0_nonneg: "parseUint0 s = Some n \<Longrightarrow> 0 \<le> n"
  by (auto simp: parseUint0_def basePrefix_def dest!: digitsValue_nonneg split: if_splits option.splits)

lemma parseInt0_bounds: "parseInt0 v = Some n \<Longrightarrow> - (2 ^ 63) \<le> n \<and> n < 2 ^ 63"
  by (auto simp: parseInt0_def Let_def dest!: parseUint0_nonneg split: option.splits if_splits)

lemma parseConfig_Inr:
  assumes "parseConfig env lookupEnv getwd args = Inr cfg"
  obtains flags where "parseFlags [] args = Inr flags" "buildConfig env lookupEnv getwd flags = Inr cfg"
  using assms by (auto simp: parseConfig_def)

lemma canonicalFlagPath_Inr: "canonicalFlagPath env name v = Inr p \<Longrightarrow> canonical_path p"
  by (auto simp: canonicalFlagPath_def dest: Canonicalize_canonical split: sum.splits)

lemma buildConfig_Inr:
  assumes "buildConfig env lookupEnv getwd flags = Inr cfg"
  shows "canonical_path (cfg_ProjectRoot cfg) \<and> (cfg_JSONLPath cfg = [] \<or> canonical_path (cfg_JSONLPath cfg)) \<and>
    (cfg_ControlSocket cfg = [] \<or> canonical_path (cfg_ControlSocket cfg)) \<and> ValidateTelemetryDimensions cfg = None \<and>
    cfg_SessionID cfg = flagValue flags ''session-id'' (envOr lookupEnv ''PORTOLAN_SESSION_ID'' []) \<and>
    cfg_GraphMode cfg = flagValue flags ''graph-mode'' (envOr lookupEnv ''PORTOLAN_GRAPH_MODE'' GraphModeGraph) \<and>
    cfg_MaxResults cfg = (case map_of flags ''max-results'' of None \<Rightarrow> 0 | Some v \<Rightarrow> the (parseInt0 v))"
  using assms canonicalFlagPath_Inr
  by (auto simp: buildConfig_def Let_def canonicalOptionalFlagPath_def split: option.splits if_splits)

section \<open>Properties\<close>

text \<open>C32: a configuration that is accepted is usable by every part: its paths are canonical host identities, its
  telemetry dimensions are valid, its result cap fits the machine word and is positive in effect.\<close>

theorem parseConfig_wellformed:
  assumes "parseConfig env lookupEnv getwd args = Inr cfg"
  shows "canonical_path (cfg_ProjectRoot cfg) \<and>
    (cfg_JSONLPath cfg = [] \<or> canonical_path (cfg_JSONLPath cfg)) \<and>
    (cfg_ControlSocket cfg = [] \<or> canonical_path (cfg_ControlSocket cfg)) \<and>
    trim_space (cfg_SessionID cfg) \<noteq> [] \<and> cfg_GraphMode cfg \<in> {''graph'', ''no-graph''} \<and>
    - (2 ^ 63) \<le> cfg_MaxResults cfg \<and> cfg_MaxResults cfg < 2 ^ 63 \<and> 0 < Cap cfg"
proof -
  obtain flags where flags: "parseFlags [] args = Inr flags" "buildConfig env lookupEnv getwd flags = Inr cfg"
    using parseConfig_Inr [OF assms] .
  note built = buildConfig_Inr [OF flags(2)]
  have "- (2 ^ 63) \<le> cfg_MaxResults cfg \<and> cfg_MaxResults cfg < 2 ^ 63"
  proof (cases "map_of flags ''max-results''")
    case (Some v)
    then have "acceptsValue ''max-results'' v" using parseFlags_accepts [OF flags(1)] map_of_SomeD [OF Some] by auto
    then obtain n where "parseInt0 v = Some n" by (auto simp: acceptsValue_def intFlags_def)
    then show ?thesis using built Some parseInt0_bounds by simp
  qed (use built in simp)
  then show ?thesis using built
    by (auto simp: ValidateTelemetryDimensions_def Cap_def DefaultMaxResults_def split: if_splits)
qed

text \<open>Options are read as they are written, joined or as two arguments, and a later option replaces an earlier
  one; flags take precedence over the environment, which takes precedence over the defaults.\<close>

theorem parseConfig_precedence:
  assumes "\<forall>(joined, name, v) \<in> set opts. definedFlag name \<and> acceptsValue name v"
    and "parseConfig env lookupEnv getwd (concat (map optionArgs opts) @ ''--'' # rest) = Inr cfg"
  shows "cfg_SessionID cfg = (case map_of (rev (map snd opts)) ''session-id'' of
      Some v \<Rightarrow> v
    | None \<Rightarrow> (case lookupEnv ''PORTOLAN_SESSION_ID'' of Some v \<Rightarrow> v | None \<Rightarrow> [])) \<and>
    cfg_GraphMode cfg = (case map_of (rev (map snd opts)) ''graph-mode'' of
      Some v \<Rightarrow> v
    | None \<Rightarrow> (case lookupEnv ''PORTOLAN_GRAPH_MODE'' of Some v \<Rightarrow> v | None \<Rightarrow> ''graph''))"
proof -
  obtain flags where flags: "parseFlags [] (concat (map optionArgs opts) @ ''--'' # rest) = Inr flags"
    "buildConfig env lookupEnv getwd flags = Inr cfg"
    using parseConfig_Inr [OF assms(2)] .
  have "flags = rev (map snd opts)" using flags(1) parseFlags_options [OF assms(1), of "[]" "''--'' # rest"] by simp
  then show ?thesis using buildConfig_Inr [OF flags(2)] by (simp add: flagValue_def envOr_def)
qed

text \<open>C33: whatever fails, the daemon releases exactly the parts it started, in the reverse order, and cancels its
  context once; it serves only when every part started, and ends without an error exactly when it
  served and serving ended cleanly or by cancellation.\<close>

theorem run_releases:
  assumes "run sha tempDir oc config = (result, actions)"
  shows "open_parts [] actions = Some [] \<and>
    (isOk config \<longrightarrow> count_list actions CanceledContext = 1) \<and>
    (Served \<in> set actions \<longleftrightarrow> {Opened Telemetry, Opened Provider, Opened Control} \<subseteq> set actions) \<and>
    (result = None \<longleftrightarrow> Served \<in> set actions \<and> (oc_Serve oc = None \<or> oc_WasCanceled oc \<or> oc_IsCancellation oc))"
  using assms by (auto simp: run_def Let_def split: sum.splits option.splits if_splits)

section \<open>Witnesses\<close>

definition plain_env :: host_env where
  "plain_env = \<lparr>wsl_distro = [], fold_ext = id, ip_literal = (\<lambda>_. None)\<rparr>"

definition sample_opts :: "(bool \<times> string \<times> string) list" where
  "sample_opts = [(True, ''session-id'', ''a''), (False, ''max-results'', ''0x10''), (False, ''session-id'', ''b'')]"

definition sample_args :: "string list" where
  "sample_args = concat (map optionArgs sample_opts) @ ''--'' # [''-x'']"

definition parsed_config :: Config where
  "parsed_config = \<lparr>cfg_ProjectRoot = ''/w'', cfg_SessionID = ''b'', cfg_GraphMode = ''no-graph'', cfg_TsgoPath = ''tsgo'',
     cfg_JSONLPath = [], cfg_ControlSocket = [], cfg_MaxResults = 16\<rparr>"

definition sample_lookup :: "string \<Rightarrow> string option" where
  "sample_lookup key = (if key = ''PORTOLAN_GRAPH_MODE'' then Some ''no-graph'' else Some ''e'')"

lemma sample_parsed: "parseConfig plain_env sample_lookup (Inr ''/w'') sample_args = Inr parsed_config"
  by code_simp

theorem parseConfig_wellformed_witness:
  "parseConfig plain_env sample_lookup (Inr ''/w'') sample_args = Inr parsed_config \<and>
   canonical_path (cfg_ProjectRoot parsed_config) \<and> 0 < Cap parsed_config"
  using sample_parsed parseConfig_wellformed [OF sample_parsed] by blast

theorem parseConfig_precedence_witness:
  "cfg_SessionID parsed_config = ''b'' \<and> cfg_GraphMode parsed_config = ''no-graph''"
proof -
  have "\<forall>(joined, name, v) \<in> set sample_opts. definedFlag name \<and> acceptsValue name v" by code_simp
  from parseConfig_precedence [OF this sample_parsed [unfolded sample_args_def]]
  show ?thesis by (simp add: sample_opts_def sample_lookup_def)
qed

definition failing_control :: outcomes where
  "failing_control = \<lparr>oc_Telemetry = (\<lambda>_. None), oc_Provider = (\<lambda>_. None), oc_Control = (\<lambda>_. Some ''busy''), oc_Serve = None,
     oc_WasCanceled = False, oc_IsCancellation = False, oc_CloseProvider = Some ''late'', oc_CloseTelemetry = None\<rparr>"

theorem run_releases_witness:
  "run (\<lambda>s. s) ''/tmp'' failing_control (Inr parsed_config) =
     (Some (StartupFailed [''portoland: starting control socket: busy'', ''portoland: closing provider: late'']),
      [Opened Telemetry, Opened Provider, Closed Provider, Closed Telemetry, CanceledContext]) \<and>
   open_parts [] (snd (run (\<lambda>s. s) ''/tmp'' failing_control (Inr parsed_config))) = Some []"
proof -
  let ?x = "run (\<lambda>s. s) ''/tmp'' failing_control (Inr parsed_config)"
  have "?x = (fst ?x, snd ?x)" by simp
  from run_releases [OF this] have "open_parts [] (snd ?x) = Some []" by blast
  moreover have "?x = (Some (StartupFailed [''portoland: starting control socket: busy'', ''portoland: closing provider: late'']),
      [Opened Telemetry, Opened Provider, Closed Provider, Closed Telemetry, CanceledContext])" by code_simp
  ultimately show ?thesis by blast
qed

end
