(* ===== verification/Go_Url.thy ===== *)
theory Go_Url
  imports Go_Utf8
begin

text \<open>
  The parts of Go's \<^verbatim>\<open>net/url\<close> the daemon uses: percent-escaping of paths,
  \<^verbatim>\<open>URL.EscapedPath\<close>, \<^verbatim>\<open>URL.String\<close> for a URL that has a scheme and a path only, and
  \<^verbatim>\<open>url.Parse\<close>. A parse failure is \<open>None\<close>: no caller looks at its text. The parser of
  bracketed IP literals is a parameter, as its address syntax is \<^verbatim>\<open>net/netip\<close>'s.
\<close>

section \<open>Escaping\<close>

definition hex_val :: "char \<Rightarrow> nat option" where
  "hex_val c = (let n = byte_val c in
     if 48 \<le> n \<and> n \<le> 57 then Some (n - 48)
     else if 97 \<le> n \<and> n \<le> 102 then Some (n - 87)
     else if 65 \<le> n \<and> n \<le> 70 then Some (n - 55)
     else None)"

definition upper_hex :: "nat \<Rightarrow> char" where
  "upper_hex n = (if n < 10 then char_of (48 + n) else char_of (55 + n))"

definition alnum :: "char \<Rightarrow> bool" where
  "alnum c \<longleftrightarrow> isASCIILower c \<or> isASCIIUpper c \<or> isASCIIDigit c"

text \<open>\<^verbatim>\<open>shouldEscape(c, encodePath)\<close>.\<close>

definition should_escape_path :: "char \<Rightarrow> bool" where
  "should_escape_path c \<longleftrightarrow> \<not> (alnum c \<or> c \<in> set ''-_.~$&+,/:;=@'')"

text \<open>\<^verbatim>\<open>shouldEscape(c, encodeHost)\<close>.\<close>

definition should_escape_host :: "char \<Rightarrow> bool" where
  "should_escape_host c \<longleftrightarrow> \<not> (alnum c \<or> c \<in> set ''-_.~!$&()*+,;=:[]<>'' \<union> {CHR 0x22, CHR 0x27})"

definition escape_byte :: "char \<Rightarrow> string" where
  "escape_byte c = (if should_escape_path c
     then [percent, upper_hex (byte_val c div 16), upper_hex (byte_val c mod 16)] else [c])"

definition escape_path :: "string \<Rightarrow> string" where
  "escape_path s = concat (map escape_byte s)"

text \<open>\<^verbatim>\<open>unescape\<close> in the path, fragment and user-info modes.\<close>

fun unescape :: "string \<Rightarrow> string option" where
  "unescape [] = Some []"
| "unescape (c # s) =
     (if c = percent then
        (case s of
           a # b # r \<Rightarrow>
             (case (hex_val a, hex_val b) of
                (Some hi, Some lo) \<Rightarrow> map_option (\<lambda>t. char_of (16 * hi + lo) # t) (unescape r)
              | _ \<Rightarrow> None)
         | _ \<Rightarrow> None)
      else map_option (\<lambda>t. c # t) (unescape s))"

text \<open>
  \<^verbatim>\<open>unescape\<close> in host mode: only non-ASCII bytes and \<^verbatim>\<open>%25\<close> may be escaped, and a plain ASCII
  byte must be a host byte.
\<close>

fun unescape_host :: "string \<Rightarrow> string option" where
  "unescape_host [] = Some []"
| "unescape_host (c # s) =
     (if c = percent then
        (case s of
           a # b # r \<Rightarrow>
             (case (hex_val a, hex_val b) of
                (Some hi, Some lo) \<Rightarrow>
                  if hi < 8 \<and> \<not> (a = CHR ''2'' \<and> b = CHR ''5'') then None
                  else map_option (\<lambda>t. char_of (16 * hi + lo) # t) (unescape_host r)
              | _ \<Rightarrow> None)
         | _ \<Rightarrow> None)
      else if byte_val c < 0x80 \<and> should_escape_host c then None
      else map_option (\<lambda>t. c # t) (unescape_host s))"

text \<open>\<^verbatim>\<open>validEncoded(s, encodePath)\<close>.\<close>

definition valid_encoded_path :: "string \<Rightarrow> bool" where
  "valid_encoded_path s \<longleftrightarrow>
     (\<forall>c \<in> set s. c \<in> set ''!$&()*+,;=:@[]%'' \<or> c = CHR 0x27 \<or> \<not> should_escape_path c)"

section \<open>URLs\<close>

record URL =
  url_Scheme :: string
  url_Opaque :: string
  url_User :: "string option"
  url_Host :: string
  url_Path :: string
  url_RawPath :: string
  url_RawQuery :: string
  url_Fragment :: string

definition empty_URL :: URL where
  "empty_URL = \<lparr>url_Scheme = [], url_Opaque = [], url_User = None, url_Host = [], url_Path = [],
     url_RawPath = [], url_RawQuery = [], url_Fragment = []\<rparr>"

definition EscapedPath :: "URL \<Rightarrow> string" where
  "EscapedPath u =
     (if url_RawPath u \<noteq> [] \<and> valid_encoded_path (url_RawPath u) \<and>
         unescape (url_RawPath u) = Some (url_Path u)
      then url_RawPath u
      else if url_Path u = ''*'' then ''%2A''
      else escape_path (url_Path u))"

text \<open>\<^verbatim>\<open>URL.String\<close> for a URL with a scheme, a path and nothing else.\<close>

definition scheme_path_String :: "URL \<Rightarrow> string" where
  "scheme_path_String u = url_Scheme u @ colon # (if url_Path u \<noteq> [] then ''//'' else []) @ EscapedPath u"

section \<open>Parsing\<close>

definition ctl_byte :: "char \<Rightarrow> bool" where
  "ctl_byte c \<longleftrightarrow> byte_val c < 0x20 \<or> byte_val c = 0x7F"

fun scheme_split :: "bool \<Rightarrow> string \<Rightarrow> (string \<times> string) option" where
  "scheme_split first [] = None"
| "scheme_split first (c # s) =
     (if isASCIILower c \<or> isASCIIUpper c then map_option (\<lambda>(a, r). (c # a, r)) (scheme_split False s)
      else if isASCIIDigit c \<or> c \<in> set ''+-.'' then
        (if first then None else map_option (\<lambda>(a, r). (c # a, r)) (scheme_split False s))
      else if c = colon \<and> \<not> first then Some ([], s)
      else None)"

definition get_scheme :: "string \<Rightarrow> (string \<times> string) option" where
  "get_scheme raw =
     (if raw \<noteq> [] \<and> hd raw = colon then None
      else Some (case scheme_split True raw of Some sr \<Rightarrow> sr | None \<Rightarrow> ([], raw)))"

definition valid_userinfo :: "string \<Rightarrow> bool" where
  "valid_userinfo s \<longleftrightarrow> (\<forall>c \<in> set s. alnum c \<or> c \<in> set ''-._:~!$&()*+,;=%@'' \<or> c = CHR 0x27)"

definition valid_optional_port :: "string \<Rightarrow> bool" where
  "valid_optional_port s \<longleftrightarrow> s = [] \<or> hd s = colon \<and> list_all isASCIIDigit (tl s)"

definition parse_host :: "(string \<Rightarrow> string option) \<Rightarrow> string \<Rightarrow> string option" where
  "parse_host ip host =
     (case last_index_sub ''['' host of
        Some 0 \<Rightarrow> ip host
      | Some (Suc i) \<Rightarrow> None
      | None \<Rightarrow>
          (case cut_byte colon host of
             Some (_, port) \<Rightarrow> if valid_optional_port (colon # port) then unescape_host host else None
           | None \<Rightarrow> unescape_host host))"

definition parse_authority ::
  "(string \<Rightarrow> string option) \<Rightarrow> string \<Rightarrow> (string option \<times> string) option" where
  "parse_authority ip authority =
     (case last_index_sub ''@'' authority of
        None \<Rightarrow> map_option (\<lambda>h. (None, h)) (parse_host ip authority)
      | Some i \<Rightarrow>
          (case parse_host ip (drop (Suc i) authority) of
             None \<Rightarrow> None
           | Some h \<Rightarrow>
               if \<not> valid_userinfo (take i authority) then None
               else map_option (\<lambda>u. (Some u, h)) (unescape (take i authority))))"

definition set_path :: "string \<Rightarrow> URL \<Rightarrow> URL option" where
  "set_path p u = (case unescape p of
     None \<Rightarrow> None
   | Some path \<Rightarrow> Some (u\<lparr>url_Path := path, url_RawPath := (if p = escape_path path then [] else p)\<rparr>))"

text \<open>The text before \<^verbatim>\<open>#\<close> (\<^verbatim>\<open>parse\<close> with \<^verbatim>\<open>viaRequest\<close> false).\<close>

definition parse_main :: "(string \<Rightarrow> string option) \<Rightarrow> string \<Rightarrow> URL option" where
  "parse_main ip raw =
     (if list_ex ctl_byte raw then None
      else if raw = ''*'' then Some (empty_URL\<lparr>url_Path := ''*''\<rparr>)
      else (case get_scheme raw of None \<Rightarrow> None | Some (scheme0, rest0) \<Rightarrow>
        (let scheme = map asciiToLower scheme0;
             (rest, query) =
               (if has_suffix rest0 ''?'' \<and> count_list rest0 CHR 0x3F = 1
                then (butlast rest0, [])
                else (case cut_byte CHR 0x3F rest0 of Some (a, b) \<Rightarrow> (a, b) | None \<Rightarrow> (rest0, [])));
             u = empty_URL\<lparr>url_Scheme := scheme, url_RawQuery := query\<rparr>
         in if \<not> has_prefix rest ''/'' \<and> scheme \<noteq> [] then Some (u\<lparr>url_Opaque := rest\<rparr>)
            else if \<not> has_prefix rest ''/'' \<and>
               colon \<in> set (case cut_byte CHR 0x2F rest of Some (a, b) \<Rightarrow> a | None \<Rightarrow> rest) then None
            else if (scheme \<noteq> [] \<or> \<not> has_prefix rest ''///'') \<and> has_prefix rest ''//'' then
              (let (authority, path) =
                 (case cut_byte CHR 0x2F (drop 2 rest) of
                    Some (a, b) \<Rightarrow> (a, CHR 0x2F # b) | None \<Rightarrow> (drop 2 rest, []))
               in (case parse_authority ip authority of
                     None \<Rightarrow> None
                   | Some (user, host) \<Rightarrow> set_path path (u\<lparr>url_User := user, url_Host := host\<rparr>)))
            else set_path rest u)))"

definition url_Parse :: "(string \<Rightarrow> string option) \<Rightarrow> string \<Rightarrow> URL option" where
  "url_Parse ip raw =
     (case cut_byte CHR ''#'' raw of
        None \<Rightarrow> parse_main ip raw
      | Some (main, frag) \<Rightarrow>
          (case parse_main ip main of
             None \<Rightarrow> None
           | Some u \<Rightarrow> if frag = [] then Some u
                       else map_option (\<lambda>f. u\<lparr>url_Fragment := f\<rparr>) (unescape frag)))"

section \<open>Escaping round trip\<close>

lemma hex_val_upper_hex [simp]: "n < 16 \<Longrightarrow> hex_val (upper_hex n) = Some n"
  by (auto simp: hex_val_def upper_hex_def)

lemma percent_escaped [simp]: "should_escape_path percent"
  by (simp add: should_escape_path_def alnum_def isASCIILower_def isASCIIUpper_def isASCIIDigit_def)

lemma byte_div_16 [simp]: "byte_val c div 16 < 16"
  using nat_of_char_less_256 [of c] by linarith

lemma unescape_escape_byte [simp]:
  "unescape (escape_byte c @ s) = map_option (\<lambda>t. c # t) (unescape s)"
proof (cases "should_escape_path c")
  case True
  have "byte_val c div 16 < 16" by simp
  moreover have "byte_val c mod 16 < 16" by simp
  moreover have "char_of (16 * (byte_val c div 16) + byte_val c mod 16) = c" by simp
  ultimately show ?thesis using True by (simp add: escape_byte_def)
next
  case False
  then have "c \<noteq> percent" by auto
  with False show ?thesis by (simp add: escape_byte_def)
qed

lemma escape_path_Nil [simp]: "escape_path [] = []"
  by (simp add: escape_path_def)

lemma escape_path_Cons [simp]: "escape_path (c # s) = escape_byte c @ escape_path s"
  by (simp add: escape_path_def)

lemma unescape_escape_path [simp]: "unescape (escape_path s) = Some s"
  by (induction s) simp_all

text \<open>Every byte of an escaped path is a path byte or belongs to a percent escape.\<close>

definition escaped_byte :: "char \<Rightarrow> bool" where
  "escaped_byte c \<longleftrightarrow> c = percent \<or> \<not> should_escape_path c"

lemma upper_hex_plain: "n < 16 \<Longrightarrow> \<not> should_escape_path (upper_hex n)"
  by (auto simp: upper_hex_def should_escape_path_def alnum_def isASCIIDigit_def isASCIIUpper_def)

lemma escape_path_bytes: "c \<in> set (escape_path s) \<Longrightarrow> escaped_byte c"
proof (induction s)
  case (Cons b s)
  have "byte_val b div 16 < 16" "byte_val b mod 16 < 16" by simp_all
  then have "c \<in> set (escape_byte b) \<Longrightarrow> escaped_byte c"
    by (auto simp: escape_byte_def escaped_byte_def upper_hex_plain split: if_splits)
  with Cons show ?case by auto
qed simp

lemma escaped_byte_not:
  "escaped_byte c \<Longrightarrow> c \<noteq> CHR ''#'' \<and> c \<noteq> CHR 0x3F \<and> \<not> ctl_byte c"
  by (auto simp: escaped_byte_def should_escape_path_def alnum_def isASCIILower_def isASCIIUpper_def
      isASCIIDigit_def ctl_byte_def)

end
