(* ===== verification/Pathnorm_Uri.thy ===== *)
theory Pathnorm_Uri
  imports Pathnorm Go_Url
begin

text \<open>
  File-URI conversion (the second half of \<^verbatim>\<open>src/internal/pathnorm/pathnorm.go\<close>) over the
  \<^verbatim>\<open>net/url\<close> model, and the codec contract the provider relies on: a path is encoded by its
  identity, and decoding the URI returns that identity.
\<close>

section \<open>Definitions\<close>

definition hasDriveURIPath :: "string \<Rightarrow> bool" where
  "hasDriveURIPath p = (case p of
     a # b # c # _ \<Rightarrow> a = slash \<and> isASCIILetter b \<and> c = colon | _ \<Rightarrow> False)"

definition unescapeByte :: "char \<Rightarrow> char \<Rightarrow> char option" where
  "unescapeByte high low = (case hex_val high of
     None \<Rightarrow> None
   | Some hi \<Rightarrow> map_option (\<lambda>lo. char_of (16 * hi + lo)) (hex_val low))"

definition hasEscapedDriveColon :: "(rune \<Rightarrow> rune) \<Rightarrow> string \<Rightarrow> bool" where
  "hasEscapedDriveColon ext rawPath =
     (if length rawPath < 5 \<or> rawPath ! 0 \<noteq> slash then False
      else if rawPath ! 1 = percent then
        (if length rawPath < 7 then False
         else (case unescapeByte (rawPath ! 2) (rawPath ! 3) of
             None \<Rightarrow> False
           | Some letter \<Rightarrow> isASCIILetter letter \<and>
               length rawPath \<ge> 4 + 3 \<and> equal_fold ext (take 3 (drop 4 rawPath)) ''%3a''))
      else isASCIILetter (rawPath ! 1) \<and>
           length rawPath \<ge> 2 + 3 \<and> equal_fold ext (take 3 (drop 2 rawPath)) ''%3a'')"

definition PathToURI :: "host_env \<Rightarrow> string \<Rightarrow> path_error + string" where
  "PathToURI env p = rbind (Canonicalize env p) (\<lambda>hostPath.
     let u = empty_URL\<lparr>url_Scheme := ''file'', url_Path := hostPath\<rparr> in
     if hasDriveURIPath hostPath then
       (let escaped = EscapedPath u in
        Inr (scheme_path_String (u\<lparr>url_RawPath := take 2 escaped @ ''%3A'' @ drop 3 escaped\<rparr>)))
     else Inr (scheme_path_String u))"

definition uriWSLPath :: "host_env \<Rightarrow> string \<Rightarrow> URL \<Rightarrow> path_error + string" where
  "uriWSLPath env uri u =
     (let tail = trim_prefix (url_Path u) ''/'' in
      if tail = [] then Inl (NoDistroPath uri)
      else let segments = split_byte slash tail
           in canonicalWSLPath env uri (url_Host u) (hd segments) (tl segments))"

definition URIToPath :: "host_env \<Rightarrow> string \<Rightarrow> path_error + string" where
  "URIToPath env uri =
     (case url_Parse (ip_literal env) uri of
        None \<Rightarrow> Inl (InvalidURI uri)
      | Some u \<Rightarrow>
          if \<not> equal_fold (fold_ext env) (url_Scheme u) ''file'' then Inl (NotFileURI uri)
          else if url_Opaque u \<noteq> [] \<or> url_User u \<noteq> None \<or> url_RawQuery u \<noteq> [] \<or> url_Fragment u \<noteq> []
            then Inl (UnsupportedFileURI uri)
          else if equal_fold (fold_ext env) (url_Host u) ''wsl$'' \<or>
                  equal_fold (fold_ext env) (url_Host u) ''wsl.localhost''
            then uriWSLPath env uri u
          else if url_Host u \<noteq> [] \<and> \<not> equal_fold (fold_ext env) (url_Host u) ''localhost''
            then Inl (UnsupportedAuthority (url_Host u))
          else if url_Path u = [] then Inl (EmptyURIPath uri)
          else Canonicalize env
            (if hasDriveURIPath (url_Path u) \<and> \<not> hasEscapedDriveColon (fold_ext env) (url_RawPath u)
             then tl (url_Path u) else url_Path u))"

section \<open>Codec contracts\<close>

locale canonicalizer =
  fixes canon :: "'p \<Rightarrow> 'e + 'p"
  assumes canon_idem: "canon p = Inr q \<Longrightarrow> canon q = Inr q"
begin

lemma canon_same: "canon p = Inr q \<Longrightarrow> canon p' = Inr q \<longleftrightarrow> canon p' = canon q"
  using canon_idem by auto

end

locale path_codec = canonicalizer canon for canon :: "'p \<Rightarrow> 'e + 'p" +
  fixes enc :: "'p \<Rightarrow> 'e + 'u"
    and dec :: "'u \<Rightarrow> 'e + 'p"
  assumes enc_ok: "isOk (enc p) \<longleftrightarrow> isOk (canon p)"
    and enc_identity: "canon p = Inr q \<Longrightarrow> enc p = enc q"
    and dec_enc: "enc p = Inr u \<Longrightarrow> dec u = canon p"
begin

lemma enc_key: "enc p = Inr u \<Longrightarrow> enc p' = Inr u \<longleftrightarrow> canon p' = canon p"
proof
  assume "enc p = Inr u" and "enc p' = Inr u"
  then show "canon p' = canon p" using dec_enc by metis
next
  assume e: "enc p = Inr u" and "canon p' = canon p"
  moreover obtain q where "canon p = Inr q" using e enc_ok [of p] by (auto simp: isOk_iff)
  ultimately show "enc p' = Inr u" using enc_identity by metis
qed

lemma dec_enc_identity: "enc p = Inr u \<Longrightarrow> \<exists>q. dec u = Inr q \<and> canon q = Inr q \<and> enc q = Inr u"
  using enc_ok [of p] dec_enc enc_identity canon_idem by (metis isOk.simps(2) isOk_iff)

end

interpretation host: canonicalizer "Canonicalize env" for env
  by unfold_locales (blast intro: Canonicalize_fixed Canonicalize_canonical)

section \<open>Parsing the URIs the daemon writes\<close>

lemma cut_byte_notin: "c \<notin> set s \<Longrightarrow> cut_byte c s = None"
  by (induction s) auto

lemma no_suffix: "c \<notin> set s \<Longrightarrow> \<not> has_suffix s [c]"
  by (metis has_suffix_def in_set_dropD list.set_intros(1))

lemma parse_host_empty [simp]: "parse_host ip [] = Some []"
  by (simp add: parse_host_def)

lemma parse_authority_empty [simp]: "parse_authority ip [] = Some (None, [])"
  by (simp add: parse_authority_def)

lemma get_scheme_file: "get_scheme (''file:'' @ r) = Some (''file'', r)"
  by (simp add: get_scheme_def isASCIILower_def isASCIIUpper_def isASCIIDigit_def)

lemma parse_main_no_authority:
  assumes "\<not> list_ex ctl_byte raw" "get_scheme raw = Some (scheme, rest)" "scheme \<noteq> []"
    and "CHR 0x3F \<notin> set rest" "has_prefix rest ''//''" "cut_byte slash (drop 2 rest) = Some ([], r)"
  shows "parse_main ip raw = set_path (slash # r) (empty_URL\<lparr>url_Scheme := map asciiToLower scheme\<rparr>)"
proof -
  have "has_prefix rest ''/''" using assms(5) by (auto simp: has_prefix_iff)
  moreover have "raw \<noteq> ''*''" using assms(2,3) by (auto simp: get_scheme_def isASCIILower_def isASCIIUpper_def isASCIIDigit_def)
  ultimately show ?thesis
    using assms no_suffix [OF assms(4)] cut_byte_notin [OF assms(4)]
    by (simp add: parse_main_def empty_URL_def)
qed

lemma url_Parse_file:
  assumes bytes: "\<And>c. c \<in> set e \<Longrightarrow> escaped_byte c" and e: "e = slash # r" and un: "unescape e = Some q"
  shows "url_Parse ip (''file://'' @ e) = Some (empty_URL\<lparr>url_Scheme := ''file'', url_Path := q,
     url_RawPath := (if e = escape_path q then [] else e)\<rparr>)"
proof -
  have free: "CHR ''#'' \<notin> set e" "CHR 0x3F \<notin> set e" "\<not> list_ex ctl_byte e"
    using escaped_byte_not bytes by (auto simp: list_ex_iff)
  then have frag: "CHR ''#'' \<notin> set (''file://'' @ e)" and q: "CHR 0x3F \<notin> set (''//'' @ e)"
    and ctl: "\<not> list_ex ctl_byte (''file://'' @ e)"
    by (auto simp: ctl_byte_def)
  have scheme: "get_scheme (''file://'' @ e) = Some (''file'', ''//'' @ e)"
    using get_scheme_file [of "''//'' @ e"] by simp
  have "parse_main ip (''file://'' @ e) = set_path (slash # r) (empty_URL\<lparr>url_Scheme := map asciiToLower ''file''\<rparr>)"
    by (rule parse_main_no_authority [OF ctl scheme _ q]) (simp_all add: e)
  moreover have "map asciiToLower ''file'' = ''file''" by (simp add: asciiToLower_def isASCIIUpper_def)
  ultimately show ?thesis
    unfolding url_Parse_def cut_byte_notin [OF frag] e [symmetric] by (simp add: set_path_def un)
qed

section \<open>Round trip\<close>

text \<open>The escaped form that \<open>PathToURI\<close> writes after \<^verbatim>\<open>file://\<close>.\<close>

definition uri_path :: "string \<Rightarrow> string" where
  "uri_path q = (if hasDriveURIPath q then take 2 (escape_path q) @ ''%3A'' @ drop 3 (escape_path q)
     else escape_path q)"

lemma plain_byte: "\<not> should_escape_path c \<Longrightarrow> escape_byte c = [c]"
  by (simp add: escape_byte_def)

lemma letter_plain: "isASCIILetter b \<Longrightarrow> \<not> should_escape_path b"
  by (auto simp: isASCIILetter_def should_escape_path_def alnum_def)

lemma slash_colon_plain [simp]: "\<not> should_escape_path slash" "\<not> should_escape_path colon"
  by (simp_all add: should_escape_path_def)

lemma drive_uri_path:
  assumes "hasDriveURIPath q"
  obtains b t where "q = slash # b # colon # t" "isASCIILetter b"
    "escape_path q = slash # b # colon # escape_path t" "uri_path q = slash # b # ''%3A'' @ escape_path t"
proof -
  from assms obtain b t where q: "q = slash # b # colon # t" "isASCIILetter b"
    by (auto simp: hasDriveURIPath_def split: list.splits)
  have e: "escape_path q = slash # b # colon # escape_path t"
    using q by (simp add: plain_byte letter_plain)
  then have "uri_path q = slash # b # ''%3A'' @ escape_path t"
    unfolding uri_path_def e using assms by simp
  with q e show ?thesis by (rule that)
qed

lemma uri_path_bytes: "c \<in> set (uri_path q) \<Longrightarrow> escaped_byte c"
proof (cases "hasDriveURIPath q")
  case True
  then obtain b t where q: "isASCIILetter b" "uri_path q = slash # b # ''%3A'' @ escape_path t"
    by (rule drive_uri_path)
  have "escaped_byte CHR ''3''" "escaped_byte CHR ''A''" "escaped_byte slash" "escaped_byte b"
    using q(1) letter_plain
    by (auto simp: escaped_byte_def should_escape_path_def alnum_def isASCIIDigit_def isASCIIUpper_def)
  moreover assume "c \<in> set (uri_path q)"
  ultimately show ?thesis using q(2) escape_path_bytes [of c t] by (auto simp: escaped_byte_def)
qed (use escape_path_bytes in \<open>auto simp: uri_path_def\<close>)

lemma unescape_uri_path: "unescape (uri_path q) = Some q"
proof (cases "hasDriveURIPath q")
  case True
  then obtain b t where q: "q = slash # b # colon # t" "isASCIILetter b"
      "uri_path q = slash # b # ''%3A'' @ escape_path t"
    by (rule drive_uri_path)
  have "hex_val CHR ''3'' = Some 3" "hex_val CHR ''A'' = Some 10" by (simp_all add: hex_val_def)
  moreover have "char_of (58::nat) = colon"
    using char_of_char [of colon, where ?'a = nat] by simp
  ultimately show ?thesis using q letter_not_special [OF q(2)] by simp
qed (simp add: uri_path_def)

lemma EscapedPath_plain:
  "url_RawPath u = [] \<Longrightarrow> url_Path u \<noteq> ''*'' \<Longrightarrow> EscapedPath u = escape_path (url_Path u)"
  by (simp add: EscapedPath_def)

lemma EscapedPath_uri_path:
  assumes "hasDriveURIPath q" "url_Path u = q" "url_RawPath u = uri_path q"
  shows "EscapedPath u = uri_path q"
proof -
  have "\<forall>c \<in> set (uri_path q). c = percent \<or> \<not> should_escape_path c"
    using uri_path_bytes escaped_byte_def by blast
  then have "valid_encoded_path (uri_path q)" unfolding valid_encoded_path_def by fastforce
  moreover have "uri_path q \<noteq> []" using assms(1) by (auto elim: drive_uri_path)
  ultimately show ?thesis using assms unescape_uri_path by (simp add: EscapedPath_def)
qed

lemma PathToURI_eq: "PathToURI env p = rbind (Canonicalize env p) (\<lambda>q. Inr (''file://'' @ uri_path q))"
proof (cases "Canonicalize env p")
  case (Inr q)
  then have "q \<noteq> []" "q \<noteq> ''*''"
    using Canonicalize_canonical [OF Inr] by (auto simp: canonical_path_def abs_path_def)
  moreover from this have "EscapedPath (empty_URL\<lparr>url_Scheme := ''file'', url_Path := q\<rparr>) = escape_path q"
    by (simp add: EscapedPath_plain empty_URL_def)
  moreover have "take 2 (escape_path q) @ ''%3A'' @ drop 3 (escape_path q) = uri_path q"
    if "hasDriveURIPath q" using that by (simp add: uri_path_def)
  ultimately show ?thesis
    using Inr EscapedPath_uri_path [of q]
    by (simp add: PathToURI_def Let_def scheme_path_String_def) (simp add: uri_path_def)
qed (simp add: PathToURI_def)

lemma escaped_colon_uri:
  assumes "hasDriveURIPath q"
  shows "hasEscapedDriveColon ext (uri_path q) \<and> uri_path q \<noteq> escape_path q"
proof -
  from assms obtain b t where q: "isASCIILetter b" "escape_path q = slash # b # colon # escape_path t"
      "uri_path q = slash # b # ''%3A'' @ escape_path t"
    by (rule drive_uri_path)
  have "equal_fold ext ''%3A'' ''%3a''" by (simp add: equal_fold_def fold_rune_def)
  then show ?thesis using q letter_not_special(6) [OF q(1)] by (simp add: hasEscapedDriveColon_def)
qed

lemma URIToPath_uri_path:
  assumes "canonical_path q"
  shows "URIToPath env (''file://'' @ uri_path q) = Inr q"
proof -
  from assms obtain r where q: "q = slash # r" by (auto simp: canonical_path_def abs_path_def)
  then obtain r' where r': "uri_path q = slash # r'"
    by (cases "hasDriveURIPath q") (auto simp: uri_path_def plain_byte elim: drive_uri_path)
  have "url_Parse (ip_literal env) (''file://'' @ uri_path q) =
      Some (empty_URL\<lparr>url_Scheme := ''file'', url_Path := q,
        url_RawPath := (if uri_path q = escape_path q then [] else uri_path q)\<rparr>)"
    by (rule url_Parse_file [OF uri_path_bytes r' unescape_uri_path])
  moreover have "hasDriveURIPath q \<Longrightarrow>
      hasEscapedDriveColon (fold_ext env) (if uri_path q = escape_path q then [] else uri_path q)"
    using escaped_colon_uri by auto
  moreover have "q \<noteq> []" using q by simp
  ultimately show ?thesis
    using Canonicalize_fixed [OF assms] by (auto simp: URIToPath_def empty_URL_def)
qed

interpretation uri: path_codec "Canonicalize env" "PathToURI env" "URIToPath env" for env
proof unfold_locales
  show "isOk (PathToURI env p) = isOk (Canonicalize env p)" for env p
    by (cases "Canonicalize env p") (simp_all add: PathToURI_eq)
  show "PathToURI env p = PathToURI env q" if "Canonicalize env p = Inr q" for env p q
    using that host.canon_idem [OF that] by (simp add: PathToURI_eq)
  show "URIToPath env u = Canonicalize env p" if "PathToURI env p = Inr u" for env p u
    using that Canonicalize_canonical URIToPath_uri_path by (auto simp: PathToURI_eq)
qed

section \<open>Other URIs\<close>

lemma URIToPath_canonical_aux:
  assumes "URIToPath env uri = Inr q"
  shows "canonical_path q"
proof -
  consider (wsl) rest where "canonicalPOSIX (slash # join [slash] rest) = Inr q"
    | (host) p where "Canonicalize env p = Inr q"
    using assms
    by (auto simp: URIToPath_def uriWSLPath_def canonicalWSLPath_def Let_def
        split: option.splits if_splits)
  then show ?thesis
  proof cases
    case wsl
    then show ?thesis by (rule canonicalPOSIX_canonical [rotated]) simp
  qed (rule Canonicalize_canonical)
qed

lemma drive_escape:
  assumes "isASCIILetter d"
  shows "escape_path (slash # d # colon # t) = slash # d # colon # escape_path t"
  using assms by (simp add: plain_byte letter_plain)

lemma URIToPath_plain_path:
  assumes "\<And>c. c \<in> set e \<Longrightarrow> escaped_byte c" "e = slash # r" "unescape e = Some p" "p \<noteq> []"
  shows "URIToPath env (''file://'' @ e) = Canonicalize env
     (if hasDriveURIPath p \<and> \<not> hasEscapedDriveColon (fold_ext env) (if e = escape_path p then [] else e)
      then tl p else p)"
  using url_Parse_file [OF assms(1-3)] assms(4) by (simp add: URIToPath_def empty_URL_def)

section \<open>Properties\<close>

text \<open>C4: \<open>PathToURI\<close> and \<open>URIToPath\<close> round-trip: the URI written for a path decodes to exactly the
  canonical identity of that path, including POSIX paths that look like drive paths.\<close>

theorem PathToURI_roundtrip:
  assumes "PathToURI env p = Inr u"
  shows "URIToPath env u = Canonicalize env p \<and> isOk (Canonicalize env p)"
  using uri.dec_enc [OF assms] uri.enc_ok [of env p] assms by simp

text \<open>The URI is a perfect key for file identity: two spellings get the same URI exactly when they
  have the same canonical path.\<close>

theorem PathToURI_identifies:
  assumes "PathToURI env p = Inr u"
  shows "PathToURI env p' = Inr u \<longleftrightarrow> Canonicalize env p' = Canonicalize env p"
  using assms by (rule uri.enc_key)

text \<open>Every URI that \<open>URIToPath\<close> accepts yields a canonical path, whatever its authority was.\<close>

lemma URIToPath_canonical:
  assumes "URIToPath env uri = Inr q"
  shows "canonical_path q \<and> Canonicalize env q = Inr q"
  using URIToPath_canonical_aux [OF assms] Canonicalize_fixed by blast

text \<open>A plain colon after the drive letter of a file URI selects the Windows drive, a
  percent-escaped colon keeps the POSIX path with that spelling.\<close>

lemma URIToPath_drive_colon:
  assumes "isASCIILetter d"
  shows "URIToPath env (''file:///'' @ d # '':/'' @ escape_path t) = Canonicalize env (d # '':/'' @ t)
       \<and> URIToPath env (''file:///'' @ d # ''%3A/'' @ escape_path t) = Canonicalize env (slash # d # '':/'' @ t)"
proof
  let ?p = "slash # d # colon # slash # t" and ?r = "d # '':/'' @ escape_path t"
  have e: "slash # ?r = escape_path ?p"
    using drive_escape [OF assms, of "slash # t"] by (simp add: plain_byte)
  have "URIToPath env (''file://'' @ escape_path ?p) = Canonicalize env (if hasDriveURIPath ?p \<and>
      \<not> hasEscapedDriveColon (fold_ext env) (if escape_path ?p = escape_path ?p then [] else escape_path ?p)
      then tl ?p else ?p)"
    by (rule URIToPath_plain_path [OF _ e [symmetric] unescape_escape_path])
      (assumption | rule escape_path_bytes | simp)+
  then show "URIToPath env (''file:///'' @ d # '':/'' @ escape_path t) = Canonicalize env (d # '':/'' @ t)"
    unfolding e [symmetric] using assms by (simp add: hasDriveURIPath_def hasEscapedDriveColon_def)
next
  let ?p = "slash # d # colon # slash # t"
  have drive: "hasDriveURIPath ?p" using assms by (simp add: hasDriveURIPath_def)
  have e: "uri_path ?p = slash # d # ''%3A/'' @ escape_path t"
    unfolding uri_path_def drive_escape [OF assms] using drive by (simp add: plain_byte)
  have "URIToPath env (''file://'' @ uri_path ?p) = Canonicalize env (if hasDriveURIPath ?p \<and>
      \<not> hasEscapedDriveColon (fold_ext env) (if uri_path ?p = escape_path ?p then [] else uri_path ?p)
      then tl ?p else ?p)"
    by (rule URIToPath_plain_path [OF uri_path_bytes e unescape_uri_path]) simp_all
  then show "URIToPath env (''file:///'' @ d # ''%3A/'' @ escape_path t) = Canonicalize env (slash # d # '':/'' @ t)"
    using escaped_colon_uri [OF drive] by (simp add: e)
qed


section \<open>Witnesses\<close>

text \<open>A WSL host whose folding data has no orbits beyond ASCII.\<close>

definition ubuntu_env :: host_env where
  "ubuntu_env = \<lparr>wsl_distro = ''Ubuntu'', fold_ext = (\<lambda>r. r), ip_literal = (\<lambda>_. None)\<rparr>"

theorem Canonicalize_identity_witness:
  "Canonicalize ubuntu_env (''C:'' @ [backslash] @ ''..'' @ [backslash] @ ''x'') = Inr ''/mnt/c/x'' \<and>
   canonical_path ''/mnt/c/x'' \<and> Canonicalize ubuntu_env ''/mnt/c/x'' = Inr ''/mnt/c/x''"
proof -
  have h: "Canonicalize ubuntu_env (''C:'' @ [backslash] @ ''..'' @ [backslash] @ ''x'') = Inr ''/mnt/c/x''"
    by code_simp
  show ?thesis using h Canonicalize_identity [OF h] by blast
qed

theorem WSLToWindows_roundtrip_witness:
  "plain_distro ubuntu_env \<and>
   WSLToWindows ubuntu_env ''/home/me'' = Inr ([backslash, backslash] @ ''wsl.localhost'' @ [backslash] @
      ''Ubuntu'' @ [backslash] @ ''home'' @ [backslash] @ ''me'') \<and>
   Canonicalize ubuntu_env ([backslash, backslash] @ ''wsl.localhost'' @ [backslash] @
      ''Ubuntu'' @ [backslash] @ ''home'' @ [backslash] @ ''me'') = Canonicalize ubuntu_env ''/home/me''"
proof -
  have d: "plain_distro ubuntu_env" by code_simp
  have w: "WSLToWindows ubuntu_env ''/home/me'' = Inr ([backslash, backslash] @ ''wsl.localhost'' @
      [backslash] @ ''Ubuntu'' @ [backslash] @ ''home'' @ [backslash] @ ''me'')"
    by code_simp
  show ?thesis using d w WSLToWindows_roundtrip [OF d w] by blast
qed

theorem Canonicalize_spellings_agree_witness:
  "Canonicalize ubuntu_env (''C:'' @ [backslash] @ ''a.ts'') = Canonicalize ubuntu_env ''/mnt/C/a.ts''"
proof -
  have d: "isASCIILetter CHR ''C''" by code_simp
  have r: "[backslash] @ ''a.ts'' \<noteq> []" "hd ([backslash] @ ''a.ts'') = backslash \<or> hd ([backslash] @ ''a.ts'') = slash"
    "NUL \<notin> set ([backslash] @ ''a.ts'')"
    by simp_all
  have dd: "''..'' \<notin> set (split_byte slash (replace_byte backslash slash ([backslash] @ ''a.ts'')))"
    by simp
  have env: "plain_distro ubuntu_env" "wsl_distro ubuntu_env \<noteq> []" by code_simp+
  show ?thesis using Canonicalize_spellings_agree [OF d r dd env] by simp
qed

theorem PathToURI_roundtrip_witness:
  "PathToURI ubuntu_env ''/C:/a b'' = Inr ''file:///C%3A/a%20b'' \<and>
   URIToPath ubuntu_env ''file:///C%3A/a%20b'' = Canonicalize ubuntu_env ''/C:/a b''"
proof -
  have h: "PathToURI ubuntu_env ''/C:/a b'' = Inr ''file:///C%3A/a%20b''" by code_simp
  show ?thesis using h PathToURI_roundtrip [OF h] by blast
qed

theorem PathToURI_identifies_witness:
  "PathToURI ubuntu_env ''/mnt/C/a b'' = Inr ''file:///mnt/c/a%20b'' \<and>
   (PathToURI ubuntu_env ''c:/a b'' = Inr ''file:///mnt/c/a%20b'' \<longleftrightarrow>
    Canonicalize ubuntu_env ''c:/a b'' = Canonicalize ubuntu_env ''/mnt/C/a b'')"
proof -
  have h: "PathToURI ubuntu_env ''/mnt/C/a b'' = Inr ''file:///mnt/c/a%20b''" by code_simp
  show ?thesis using h PathToURI_identifies [OF h] by blast
qed

theorem URIToPath_canonical_witness:
  "URIToPath ubuntu_env ''file://wsl.localhost/Ubuntu/mnt/D/x'' = Inr ''/mnt/d/x'' \<and> canonical_path ''/mnt/d/x''"
proof -
  have h: "URIToPath ubuntu_env ''file://wsl.localhost/Ubuntu/mnt/D/x'' = Inr ''/mnt/d/x''" by code_simp
  show ?thesis using h URIToPath_canonical [OF h] by blast
qed

theorem URIToPath_drive_colon_witness:
  "isASCIILetter CHR ''d'' \<and>
   URIToPath ubuntu_env (''file:///'' @ CHR ''d'' # '':/'' @ escape_path ''x y'') =
   Canonicalize ubuntu_env (CHR ''d'' # '':/'' @ ''x y'')"
proof -
  have h: "isASCIILetter CHR ''d''" by code_simp
  show ?thesis using h URIToPath_drive_colon [OF h] by blast
qed


end
