(* ===== verification/Lsp_Conversion.thy ===== *)
theory Lsp_Conversion
  imports Core_Types Pathnorm_Uri
begin

text \<open>
  From LSP wire values to core values: the arbitration of finite work
  (\<^verbatim>\<open>src/internal/lsp/finite_work.go\<close>), the wire types and the symbol-kind table
  (\<^verbatim>\<open>protocol.go\<close>), and the conversions of locations and document symbols
  (\<^verbatim>\<open>conversion.go\<close>, \<^verbatim>\<open>uri.go\<close>). JSON decoding is \<^verbatim>\<open>encoding/json\<close>'s and enters as a parameter
  of the definitions that call it.
\<close>

datatype lsp_error =
    Canceled string
  | BadJSON string
  | BadURI string path_error
  | BadPosition geometry_error
  | BadRange string geometry_error
  | BadSelectionRange string geometry_error
  | SelectionOutside string
  | BadLocationRange geometry_error
  | Interrupted string
  | LineOutside int
  | CharacterOutside int int
  | EndBeforeStart
  | MalformedFence
  | UnsupportedHover
  | SourceUnavailable string
  | BadPath string path_error
  | ReadFailed string
  | CallFailed string

section \<open>Finite work\<close>

text \<open>
  \<open>runFiniteWork\<close> checks the context and then the interruption before it starts the work and
  again once it has been woken; only a work result that arrives while neither is set is
  returned. An interruption is what its channel and cause show at each moment.
\<close>

definition finiteWorkCancellation ::
  "ctx \<Rightarrow> (nat \<Rightarrow> lsp_error option) option \<Rightarrow> nat \<Rightarrow> lsp_error option" where
  "finiteWorkCancellation c interruption n =
     (case ctx_err c n of
        Some e \<Rightarrow> Some (Canceled e)
      | None \<Rightarrow> (case interruption of None \<Rightarrow> None | Some i \<Rightarrow> i n))"

definition runFiniteWork ::
  "ctx \<Rightarrow> (nat \<Rightarrow> lsp_error option) option \<Rightarrow> (nat \<Rightarrow> (lsp_error + 'a) \<times> nat) \<Rightarrow> nat \<Rightarrow> (lsp_error + 'a) \<times> nat" where
  "runFiniteWork c interruption work n =
     (case finiteWorkCancellation c interruption n of
        Some e \<Rightarrow> (Inl e, Suc n)
      | None \<Rightarrow>
          (let (result, n') = work (Suc n) in
           case finiteWorkCancellation c interruption n' of
             Some e \<Rightarrow> (Inl e, Suc n')
           | None \<Rightarrow> (result, Suc n')))"

section \<open>Wire types\<close>

record lspPosition =
  lsp_Line :: int
  lsp_Character :: int

record lspRange =
  lsp_Start :: lspPosition
  lsp_End :: lspPosition

record rawLocation =
  rl_URI :: string
  rl_Range :: "lspRange option"
  rl_TargetURI :: string
  rl_TargetRange :: "lspRange option"
  rl_TargetSelectionRange :: "lspRange option"

datatype lspDocumentSymbol = LspDocumentSymbol
  (ds_Name: string) (ds_Detail: string) (ds_Kind: int) (ds_Range: lspRange) (ds_SelectionRange: lspRange)
  (ds_Children: "lspDocumentSymbol list")

definition symbolKindNames :: "(int \<times> SymbolKind) list" where
  "symbolKindNames = [
     (1, ''file''), (2, ''module''), (3, ''namespace''), (4, ''package''), (5, ''class''),
     (6, ''method''), (7, ''property''), (8, ''field''), (9, ''constructor''), (10, ''enum''),
     (11, ''interface''), (12, ''function''), (13, ''variable''), (14, ''constant''), (15, ''string''),
     (16, ''number''), (17, ''boolean''), (18, ''array''), (19, ''object''), (20, ''key''),
     (21, ''null''), (22, ''enummember''), (23, ''struct''), (24, ''event''), (25, ''operator''),
     (26, ''typeparameter'')]"

definition symbolKindName :: "int \<Rightarrow> SymbolKind" where
  "symbolKindName k = (case map_of symbolKindNames k of Some name \<Rightarrow> name | None \<Rightarrow> SymbolKindUnknown)"

definition isJSONNull :: "string \<Rightarrow> bool" where
  "isJSONNull raw \<longleftrightarrow> raw = [] \<or> raw = ''null''"

section \<open>Conversions\<close>

definition toCorePosition :: "lspPosition \<Rightarrow> geometry_error + Position" where
  "toCorePosition p =
     (let position = \<lparr>Line = lsp_Line p, Character = lsp_Character p\<rparr> in
      case Position_Validate position of Some e \<Rightarrow> Inl e | None \<Rightarrow> Inr position)"

definition toLSPPosition :: "Position \<Rightarrow> geometry_error + lspPosition" where
  "toLSPPosition position =
     (case Position_Validate position of
        Some e \<Rightarrow> Inl e
      | None \<Rightarrow> Inr \<lparr>lsp_Line = Line position, lsp_Character = Character position\<rparr>)"

definition toCoreRange :: "lspRange \<Rightarrow> geometry_error + Range" where
  "toCoreRange r =
     rbind (toCorePosition (lsp_Start r)) (\<lambda>start.
     rbind (toCorePosition (lsp_End r)) (\<lambda>end.
       let converted = \<lparr>Start = start, End = end\<rparr> in
       case Range_Validate converted of Some e \<Rightarrow> Inl e | None \<Rightarrow> Inr converted))"

definition pathFromURI :: "host_env \<Rightarrow> string \<Rightarrow> lsp_error + string" where
  "pathFromURI env uri = (case URIToPath env uri of Inl e \<Rightarrow> Inl (BadURI uri e) | Inr p \<Rightarrow> Inr p)"

definition toLocation :: "host_env \<Rightarrow> rawLocation \<Rightarrow> lsp_error + Location option" where
  "toLocation env rl =
     (let (uri, rng) =
        (if rl_URI rl = [] \<and> rl_TargetURI rl \<noteq> [] then
           (rl_TargetURI rl,
            case rl_TargetSelectionRange rl of Some r \<Rightarrow> Some r | None \<Rightarrow> rl_TargetRange rl)
         else (rl_URI rl, rl_Range rl))
      in if uri = [] then Inr None
         else (case rng of
            None \<Rightarrow> Inr None
          | Some r \<Rightarrow>
              rbind (pathFromURI env uri) (\<lambda>path.
                case toCoreRange r of
                  Inl e \<Rightarrow> Inl (BadLocationRange e)
                | Inr converted \<Rightarrow> Inr (Some \<lparr>loc_File = path, loc_Range = converted\<rparr>))))"

text \<open>The loop of \<open>decodeLocations\<close> over the decoded list, one context check per entry.\<close>

fun collectLocations ::
  "host_env \<Rightarrow> ctx \<Rightarrow> nat \<Rightarrow> rawLocation list \<Rightarrow> Location list \<Rightarrow> (lsp_error + Location list) \<times> nat" where
  "collectLocations env c n [] out =
     (case ctx_err c n of Some e \<Rightarrow> (Inl (Canceled e), Suc n) | None \<Rightarrow> (Inr out, Suc n))"
| "collectLocations env c n (rl # rls) out =
     (case ctx_err c n of
        Some e \<Rightarrow> (Inl (Canceled e), Suc n)
      | None \<Rightarrow>
          (case toLocation env rl of
             Inl e \<Rightarrow> (Inl e, Suc n)
           | Inr None \<Rightarrow> collectLocations env c (Suc n) rls out
           | Inr (Some loc) \<Rightarrow> collectLocations env c (Suc n) rls (out @ [loc])))"

definition decodeLocations ::
  "host_env \<Rightarrow> (string \<Rightarrow> string + rawLocation list) \<Rightarrow> (string \<Rightarrow> string + rawLocation) \<Rightarrow>
   ctx \<Rightarrow> string \<Rightarrow> nat \<Rightarrow> (lsp_error + Location list) \<times> nat" where
  "decodeLocations env unmarshalList unmarshalOne c raw n =
     (case ctx_err c n of
        Some e \<Rightarrow> (Inl (Canceled e), Suc n)
      | None \<Rightarrow>
          if isJSONNull raw then (Inr [], Suc n)
          else runFiniteWork c None (\<lambda>m.
            (case unmarshalList raw of
               Inr list \<Rightarrow> if list = [] then (Inr [], m) else collectLocations env c m list []
             | Inl err \<Rightarrow>
                 (case ctx_err c m of
                    Some e \<Rightarrow> (Inl (Canceled e), Suc m)
                  | None \<Rightarrow>
                      (case unmarshalOne raw of
                         Inl _ \<Rightarrow> (Inl (BadJSON err), Suc m)
                       | Inr single \<Rightarrow> collectLocations env c (Suc m) [single] [])))) (Suc n))"

fun toCoreSymbol :: "ctx \<Rightarrow> string \<Rightarrow> nat \<Rightarrow> lspDocumentSymbol \<Rightarrow> (lsp_error + SymbolNode) \<times> nat"
  and toCoreChildren :: "ctx \<Rightarrow> string \<Rightarrow> nat \<Rightarrow> lspDocumentSymbol list \<Rightarrow> (lsp_error + SymbolNode list) \<times> nat"
where
  "toCoreSymbol c file n (LspDocumentSymbol name detail kind rng sel children) =
     (case ctx_err c n of
        Some e \<Rightarrow> (Inl (Canceled e), Suc n)
      | None \<Rightarrow>
          (case toCoreChildren c file (Suc n) children of
             (Inl e, n') \<Rightarrow> (Inl e, n')
           | (Inr kids, n') \<Rightarrow>
               (case toCoreRange rng of
                  Inl e \<Rightarrow> (Inl (BadRange name e), n')
                | Inr fullRange \<Rightarrow>
                    (case toCoreRange sel of
                       Inl e \<Rightarrow> (Inl (BadSelectionRange name e), n')
                     | Inr selectionRange \<Rightarrow>
                         if \<not> Range_Contains fullRange selectionRange
                         then (Inl (SelectionOutside name), n')
                         else (Inr (SymbolNode
                           \<lparr>sym_Name = name, sym_Kind = symbolKindName kind, sym_File = file,
                            sym_Range = fullRange, sym_SelRange = selectionRange,
                            sym_Signature = [], sym_Detail = detail\<rparr> kids), n')))))"
| "toCoreChildren c file n [] = (Inr [], n)"
| "toCoreChildren c file n (s # ss) =
     (case toCoreSymbol c file n s of
        (Inl e, n') \<Rightarrow> (Inl e, n')
      | (Inr t, n') \<Rightarrow>
          (case toCoreChildren c file n' ss of
             (Inl e, n'') \<Rightarrow> (Inl e, n'')
           | (Inr ts, n'') \<Rightarrow> (Inr (t # ts), n'')))"

definition decodeDocumentSymbols ::
  "(string \<Rightarrow> string + lspDocumentSymbol list) \<Rightarrow> ctx \<Rightarrow> string \<Rightarrow> string \<Rightarrow> nat \<Rightarrow>
   (lsp_error + SymbolNode list) \<times> nat" where
  "decodeDocumentSymbols unmarshal c raw file n =
     (case ctx_err c n of
        Some e \<Rightarrow> (Inl (Canceled e), Suc n)
      | None \<Rightarrow>
          if isJSONNull raw then (Inr [], Suc n)
          else runFiniteWork c None (\<lambda>m.
            (case unmarshal raw of
               Inl err \<Rightarrow> (Inl (BadJSON err), m)
             | Inr syms \<Rightarrow>
                 if syms = [] then (Inr [], m)
                 else (case toCoreChildren c file m syms of
                     (Inl e, m') \<Rightarrow> (Inl e, m')
                   | (Inr out, m') \<Rightarrow>
                       (case ctx_err c m' of
                          Some e \<Rightarrow> (Inl (Canceled e), Suc m')
                        | None \<Rightarrow> (Inr out, Suc m'))))) (Suc n))"

section \<open>Geometry of conversions\<close>

definition core_position :: "lspPosition \<Rightarrow> Position" where
  "core_position p = \<lparr>Line = lsp_Line p, Character = lsp_Character p\<rparr>"

definition core_range :: "lspRange \<Rightarrow> Range" where
  "core_range r = \<lparr>Start = core_position (lsp_Start r), End = core_position (lsp_End r)\<rparr>"

lemma toCorePosition_eq:
  "toCorePosition p =
     (if wf_position (core_position p) then Inr (core_position p)
      else Inl (NegativePosition (core_position p)))"
  by (auto simp: toCorePosition_def core_position_def Position_Validate_def wf_position_def Let_def)

lemma toCoreRange_eq:
  "toCoreRange r =
     (if \<not> wf_position (core_position (lsp_Start r))
      then Inl (NegativePosition (core_position (lsp_Start r)))
      else if \<not> wf_position (core_position (lsp_End r))
      then Inl (NegativePosition (core_position (lsp_End r)))
      else if wf_range (core_range r) then Inr (core_range r)
      else Inl (EndPrecedesStart (core_position (lsp_End r)) (core_position (lsp_Start r))))"
  by (auto simp: toCoreRange_def toCorePosition_eq core_range_def wf_range_def Range_Validate_def
      positionBefore_def Position_Validate_def wf_position_def Let_def)

lemma toCoreRange_Inr [simp]: "toCoreRange r = Inr q \<longleftrightarrow> wf_range (core_range r) \<and> q = core_range r"
  by (auto simp: toCoreRange_eq core_range_def wf_range_def)

lemma toCoreRange_wf [simp]: "wf_range (core_range r) \<Longrightarrow> toCoreRange r = Inr (core_range r)"
  by simp

lemma toCoreRange_not_wf: "\<not> wf_range (core_range r) \<Longrightarrow> \<exists>e. toCoreRange r = Inl e"
  by (simp add: toCoreRange_eq)

lemma toLSPPosition_roundtrip: "toLSPPosition p = Inr q \<Longrightarrow> toCorePosition q = Inr p"
  by (auto simp: toLSPPosition_def toCorePosition_eq core_position_def wf_position_def
      split: option.splits)

section \<open>Symbol trees\<close>

text \<open>
  What the conversion promises: the tree of the server with every node's fields carried over,
  and well-formed ranges with the selection inside the full range at every node.
\<close>

fun core_symbol :: "string \<Rightarrow> lspDocumentSymbol \<Rightarrow> SymbolNode" where
  "core_symbol file (LspDocumentSymbol name detail kind rng sel children) =
     SymbolNode
       \<lparr>sym_Name = name, sym_Kind = symbolKindName kind, sym_File = file, sym_Range = core_range rng,
        sym_SelRange = core_range sel, sym_Signature = [], sym_Detail = detail\<rparr>
       (map (core_symbol file) children)"

fun lsp_symbol_wf :: "lspDocumentSymbol \<Rightarrow> bool" where
  "lsp_symbol_wf (LspDocumentSymbol name detail kind rng sel children) \<longleftrightarrow>
     wf_range (core_range rng) \<and> wf_range (core_range sel) \<and>
     Range_Contains (core_range rng) (core_range sel) \<and> list_all lsp_symbol_wf children"

fun node_wf :: "string \<Rightarrow> SymbolNode \<Rightarrow> bool" where
  "node_wf file (SymbolNode s cs) \<longleftrightarrow>
     sym_File s = file \<and> wf_range (sym_Range s) \<and> wf_range (sym_SelRange s) \<and>
     Range_Contains (sym_Range s) (sym_SelRange s) \<and> list_all (node_wf file) cs"

lemma toCoreSymbol_polls:
  "n \<le> snd (toCoreSymbol c fl n s)"
  "n \<le> snd (toCoreChildren c fl n ss)"
  by (induction c fl n s and c fl n ss rule: toCoreSymbol_toCoreChildren.induct)
     (fastforce split: option.splits prod.splits sum.splits)+

lemma toCoreSymbol_Inr:
  "fst (toCoreSymbol c fl n s) = Inr t \<Longrightarrow> lsp_symbol_wf s \<and> t = core_symbol fl s"
  "fst (toCoreChildren c fl n ss) = Inr ts \<Longrightarrow> list_all lsp_symbol_wf ss \<and> ts = map (core_symbol fl) ss"
  by (induction c fl n s and c fl n ss arbitrary: t and ts rule: toCoreSymbol_toCoreChildren.induct)
     (fastforce split: option.splits prod.splits sum.splits if_splits)+

lemma toCoreSymbol_ok:
  "lsp_symbol_wf s \<Longrightarrow> cancel_at c = None \<Longrightarrow> fst (toCoreSymbol c fl n s) = Inr (core_symbol fl s)"
  "list_all lsp_symbol_wf ss \<Longrightarrow> cancel_at c = None \<Longrightarrow>
   fst (toCoreChildren c fl n ss) = Inr (map (core_symbol fl) ss)"
proof (induction c fl n s and c fl n ss rule: toCoreSymbol_toCoreChildren.induct)
  case (1 c fl n name detail kind rng sel children)
  then show ?case
    by (auto split: prod.splits sum.splits)
next
  case (3 c fl n s ss)
  then show ?case by (force split: prod.splits sum.splits)
qed simp

lemma eq_fst: "p = (a, b) \<Longrightarrow> fst p = a"
  by simp

lemma core_symbol_wf: "lsp_symbol_wf s \<Longrightarrow> node_wf fl (core_symbol fl s)"
  by (induction fl s rule: core_symbol.induct) (auto simp: list_all_iff)

section \<open>Finite work and locations\<close>

lemma runFiniteWork_Inr:
  "runFiniteWork c i work n = (Inr v, n') \<Longrightarrow>
   \<exists>m. work (Suc n) = (Inr v, m) \<and> finiteWorkCancellation c i n = None \<and>
       finiteWorkCancellation c i m = None \<and> n' = Suc m"
  by (auto simp: runFiniteWork_def split: option.splits prod.splits)

lemma finiteWorkCancellation_None [simp]:
  "finiteWorkCancellation c None n = None \<longleftrightarrow> ctx_err c n = None"
  by (auto simp: finiteWorkCancellation_def split: option.splits)

lemma runFiniteWork_uncanceled [simp]:
  "cancel_at c = None \<Longrightarrow> fst (runFiniteWork c None work n) = fst (work (Suc n))"
  by (simp add: runFiniteWork_def finiteWorkCancellation_def split: prod.splits)

text \<open>The locations a decoded list stands for: the usable entries in order, or the first error.\<close>

fun usable :: "host_env \<Rightarrow> rawLocation list \<Rightarrow> lsp_error + Location list" where
  "usable env [] = Inr []"
| "usable env (rl # rls) =
     rbind (toLocation env rl) (\<lambda>l. rbind (usable env rls) (\<lambda>ls.
       Inr (case l of None \<Rightarrow> ls | Some loc \<Rightarrow> loc # ls)))"

lemma collectLocations_uncanceled:
  "cancel_at c = None \<Longrightarrow>
   fst (collectLocations env c n rls out) = rbind (usable env rls) (\<lambda>ls. Inr (out @ ls))"
proof (induction rls arbitrary: n out)
  case (Cons rl rls)
  then show ?case
    by (cases "toLocation env rl"; cases "usable env rls") (auto split: option.splits)
qed simp

lemma collectLocations_Inr:
  "collectLocations env c n rls out = (Inr v, n') \<Longrightarrow> \<exists>ls. usable env rls = Inr ls \<and> v = out @ ls"
  by (induction rls arbitrary: n out) (fastforce split: option.splits sum.splits)+

definition location_wf :: "Location \<Rightarrow> bool" where
  "location_wf loc \<longleftrightarrow> canonical_path (loc_File loc) \<and> wf_range (loc_Range loc)"

lemma toLocation_wf: "toLocation env rl = Inr (Some loc) \<Longrightarrow> location_wf loc"
  by (auto simp: toLocation_def location_wf_def pathFromURI_def Let_def
      split: if_splits option.splits sum.splits dest: URIToPath_canonical_aux)

lemma usable_wf: "usable env rls = Inr ls \<Longrightarrow> list_all location_wf ls"
  by (induction rls arbitrary: ls) (auto split: option.splits dest: toLocation_wf)

lemma rbind_id: "rbind r Inr = r"
  by (cases r) auto

section \<open>Properties\<close>

text \<open>C13: under a context that is never canceled, \<open>decodeDocumentSymbols\<close> accepts a decoded
  forest exactly when every node at every depth has well-formed ranges with its selection
  inside its full range, and the accepted forest mirrors the server's node by node.\<close>

theorem decodeDocumentSymbols_mirror:
  assumes "cancel_at c = None" and "\<not> isJSONNull raw" and "unmarshal raw = Inr syms"
  shows "fst (decodeDocumentSymbols unmarshal c raw fl n) = Inr out \<longleftrightarrow>
    list_all lsp_symbol_wf syms \<and> out = map (core_symbol fl) syms"
proof -
  have "fst (decodeDocumentSymbols unmarshal c raw fl n) = fst (toCoreChildren c fl (Suc (Suc n)) syms)"
    using assms by (auto simp: decodeDocumentSymbols_def split: prod.splits sum.splits)
  then show ?thesis
    using toCoreSymbol_Inr(2) [of c fl "Suc (Suc n)" syms out]
      toCoreSymbol_ok(2) [OF _ assms(1), of syms fl "Suc (Suc n)"] by metis
qed

text \<open>Whatever forest \<open>decodeDocumentSymbols\<close> returns, canceled along the way or not,
  names the requested file at every node and is well formed throughout.\<close>

lemma decodeDocumentSymbols_wf:
  assumes "decodeDocumentSymbols unmarshal c raw fl n = (Inr out, n')"
  shows "list_all (node_wf fl) out"
proof (cases "isJSONNull raw")
  case True
  with assms show ?thesis by (auto simp: decodeDocumentSymbols_def split: option.splits)
next
  case False
  with assms obtain m m' where "(case unmarshal raw of
      Inl err \<Rightarrow> (Inl (BadJSON err), m)
    | Inr syms \<Rightarrow> if syms = [] then (Inr [], m) else
        (case toCoreChildren c fl m syms of
           (Inl e, m') \<Rightarrow> (Inl e, m')
         | (Inr out, m') \<Rightarrow> (case ctx_err c m' of
             Some e \<Rightarrow> (Inl (Canceled e), Suc m') | None \<Rightarrow> (Inr out, Suc m')))) = (Inr out, m')"
    by (fastforce simp: decodeDocumentSymbols_def split: option.splits dest: runFiniteWork_Inr)
  then have "out = [] \<or> (\<exists>syms k. toCoreChildren c fl m syms = (Inr out, k))"
    by (auto split: sum.splits if_splits prod.splits option.splits)
  then show ?thesis
    by (auto simp: list_all_iff core_symbol_wf dest!: toCoreSymbol_Inr(2) [OF eq_fst])
qed

text \<open>without cancellation \<open>decodeLocations\<close> accepts null, one location or a list of
  locations and location links, and returns the usable entries in the server's order or the
  first entry's error.\<close>

theorem decodeLocations_usable:
  assumes "cancel_at c = None"
  shows "fst (decodeLocations env unmarshalList unmarshalOne c raw n) =
    (if isJSONNull raw then Inr []
     else case unmarshalList raw of
            Inr list \<Rightarrow> usable env list
          | Inl err \<Rightarrow> (case unmarshalOne raw of
              Inl _ \<Rightarrow> Inl (BadJSON err) | Inr single \<Rightarrow> usable env [single]))"
  using assms by (auto simp: decodeLocations_def collectLocations_uncanceled rbind_id
      simp del: usable.simps(2) collectLocations.simps split: sum.splits)

text \<open>Every location \<open>decodeLocations\<close> returns has a canonical path and a well-formed range.\<close>

lemma decodeLocations_wf:
  assumes "decodeLocations env unmarshalList unmarshalOne c raw n = (Inr out, n')"
  shows "list_all location_wf out"
proof -
  have "out = [] \<or> (\<exists>m m' list. collectLocations env c m list [] = (Inr out, m'))"
    using assms by (auto simp: decodeLocations_def split: option.splits if_splits sum.splits
        simp del: collectLocations.simps dest!: runFiniteWork_Inr)
  then show ?thesis by (auto dest!: collectLocations_Inr usable_wf)
qed

subsection \<open>Witnesses\<close>

definition line_span :: "int \<Rightarrow> int \<Rightarrow> lspRange" where
  "line_span a b = \<lparr>lsp_Start = \<lparr>lsp_Line = a, lsp_Character = 0\<rparr>,
                    lsp_End = \<lparr>lsp_Line = b, lsp_Character = 4\<rparr>\<rparr>"

definition sample_forest :: "lspDocumentSymbol list" where
  "sample_forest = [LspDocumentSymbol ''C'' [] 5 (line_span 0 9) (line_span 0 0)
     [LspDocumentSymbol ''m'' ''d'' 6 (line_span 2 3) (line_span 2 2) []]]"

theorem decodeDocumentSymbols_mirror_witness:
  "\<exists>out. fst (decodeDocumentSymbols (\<lambda>_. Inr sample_forest) background ''[]'' ''/a.ts'' 0) = Inr out \<and>
     length (preorder 0 out) = 2"
proof -
  have "cancel_at background = None" "\<not> isJSONNull ''[]''" "list_all lsp_symbol_wf sample_forest"
    by code_simp+
  then have "fst (decodeDocumentSymbols (\<lambda>_. Inr sample_forest) background ''[]'' ''/a.ts'' 0) =
      Inr (map (core_symbol ''/a.ts'') sample_forest)"
    using decodeDocumentSymbols_mirror [of background "''[]''" "\<lambda>_. Inr sample_forest" sample_forest] by blast
  moreover have "length (preorder 0 (map (core_symbol ''/a.ts'') sample_forest)) = 2" by code_simp
  ultimately show ?thesis by blast
qed

theorem decodeDocumentSymbols_wf_witness:
  "list_all (node_wf ''/a.ts'') (map (core_symbol ''/a.ts'') sample_forest)"
proof -
  have "decodeDocumentSymbols (\<lambda>_. Inr sample_forest) background ''[]'' ''/a.ts'' 0 =
      (Inr (map (core_symbol ''/a.ts'') sample_forest), 6)" by code_simp
  then show ?thesis by (rule decodeDocumentSymbols_wf)
qed

definition sample_location :: rawLocation where
  "sample_location = \<lparr>rl_URI = ''file:///a.ts'', rl_Range = Some (line_span 1 2), rl_TargetURI = [],
     rl_TargetRange = None, rl_TargetSelectionRange = None\<rparr>"

theorem decodeLocations_usable_witness:
  "fst (decodeLocations ubuntu_env (\<lambda>_. Inr [sample_location, sample_location\<lparr>rl_Range := None\<rparr>]) Inl
     background ''[]'' 0) = Inr [\<lparr>loc_File = ''/a.ts'', loc_Range = core_range (line_span 1 2)\<rparr>]"
proof -
  have "cancel_at background = None" by code_simp
  moreover have "usable ubuntu_env [sample_location, sample_location\<lparr>rl_Range := None\<rparr>] =
      Inr [\<lparr>loc_File = ''/a.ts'', loc_Range = core_range (line_span 1 2)\<rparr>]" by code_simp
  ultimately show ?thesis
    by (subst decodeLocations_usable) (auto simp: isJSONNull_def simp del: usable.simps)
qed

theorem decodeLocations_wf_witness:
  "list_all location_wf [\<lparr>loc_File = ''/a.ts'', loc_Range = core_range (line_span 1 2)\<rparr>]"
proof -
  have "decodeLocations ubuntu_env (\<lambda>_. Inl ''not a list'') (\<lambda>_. Inr sample_location) background ''{}'' 0 =
    (Inr [\<lparr>loc_File = ''/a.ts'', loc_Range = core_range (line_span 1 2)\<rparr>], 6)" by code_simp
  then show ?thesis by (rule decodeLocations_wf)
qed

end
