(* ===== verification/Lsp_Hover.thy ===== *)
theory Lsp_Hover
  imports Lsp_Conversion
begin

text \<open>
  Hover answers (\<^verbatim>\<open>src/internal/lsp/hover_conversion.go\<close>): the three shapes of hover contents,
  the code of a fenced markdown answer, and the removal of the server's display prefixes. A
  raw JSON message reaches these functions after the envelope around it was decoded, so it
  is a JSON value here, \<open>None\<close> for an absent one; decoding it into a Go type can fail only
  by a mismatch of types.
\<close>

section \<open>JSON values\<close>

datatype json =
    JNull
  | JBool bool
  | JNumber string
  | JString string
  | JArray "json list"
  | JObject "(string \<times> json) list"

text \<open>
  \<^verbatim>\<open>encoding/json\<close> into a string field: null leaves the field as it is, any other non-string is
  a type error. A key selects a field by its name up to case folding.
\<close>

definition json_key :: "string \<Rightarrow> string \<Rightarrow> bool" where
  "json_key name key \<longleftrightarrow> equal_fold id key name"

fun into_string :: "json \<Rightarrow> string \<Rightarrow> string option" where
  "into_string (JString t) _ = Some t"
| "into_string JNull old = Some old"
| "into_string _ _ = None"

record markupContent =
  mk_Kind :: string
  mk_Value :: string

fun markup_fields :: "(string \<times> json) list \<Rightarrow> markupContent \<Rightarrow> markupContent option" where
  "markup_fields [] m = Some m"
| "markup_fields ((key, v) # rest) m =
     (if json_key ''kind'' key then
        (case into_string v (mk_Kind m) of None \<Rightarrow> None | Some t \<Rightarrow> markup_fields rest (m\<lparr>mk_Kind := t\<rparr>))
      else if json_key ''value'' key then
        (case into_string v (mk_Value m) of None \<Rightarrow> None | Some t \<Rightarrow> markup_fields rest (m\<lparr>mk_Value := t\<rparr>))
      else markup_fields rest m)"

fun into_markup :: "json \<Rightarrow> markupContent option" where
  "into_markup (JObject flds) = markup_fields flds \<lparr>mk_Kind = [], mk_Value = []\<rparr>"
| "into_markup JNull = Some \<lparr>mk_Kind = [], mk_Value = []\<rparr>"
| "into_markup _ = None"

fun hover_contents :: "(string \<times> json) list \<Rightarrow> json option \<Rightarrow> json option" where
  "hover_contents [] found = found"
| "hover_contents ((key, v) # rest) found =
     hover_contents rest (if json_key ''contents'' key then Some v else found)"

section \<open>Contents\<close>

definition fence :: string where "fence = [CHR 0x60, CHR 0x60, CHR 0x60]"

definition markdownCode :: "string \<Rightarrow> lsp_error + string" where
  "markdownCode markdown =
     (case index_sub fence markdown of
        None \<Rightarrow> Inr (trim_space markdown)
      | Some start \<Rightarrow>
          (case index_sub [newline] (drop start markdown) of
             None \<Rightarrow> Inl MalformedFence
           | Some lineEnd \<Rightarrow>
               (let contentStart = start + lineEnd + 1 in
                case index_sub fence (drop contentStart markdown) of
                  None \<Rightarrow> Inl MalformedFence
                | Some end \<Rightarrow> Inr (trim_space (take end (drop contentStart markdown))))))"

fun decodeHoverContents :: "json \<Rightarrow> lsp_error + string"
  and decodeHoverItems :: "json list \<Rightarrow> lsp_error + string" where
  "decodeHoverContents raw =
     (case raw of
        JNull \<Rightarrow> Inr []
      | JString text \<Rightarrow> Inr (trim_space text)
      | JArray items \<Rightarrow> decodeHoverItems items
      | _ \<Rightarrow>
          (case into_markup raw of
             Some markup \<Rightarrow>
               if mk_Value markup = [] then Inl UnsupportedHover
               else if mk_Kind markup = ''markdown'' then markdownCode (mk_Value markup)
               else Inr (trim_space (mk_Value markup))
           | None \<Rightarrow> Inl UnsupportedHover))"
| "decodeHoverItems [] = Inr []"
| "decodeHoverItems (item # items) =
     (case decodeHoverContents item of
        Inl e \<Rightarrow> Inl e
      | Inr value \<Rightarrow> if value \<noteq> [] then Inr value else decodeHoverItems items)"

declare decodeHoverContents.simps [simp del]

section \<open>Signatures\<close>

definition contains_line_break :: "string \<Rightarrow> bool" where
  "contains_line_break s \<longleftrightarrow> newline \<in> set s \<or> CHR 0x0D \<in> set s"

definition normalizeTSGoMember :: "string \<Rightarrow> string \<Rightarrow> string \<Rightarrow> string \<Rightarrow> string" where
  "normalizeTSGoMember display name prefix allowedTail =
     (if name = [] then []
      else
        (let rest = trim_prefix display prefix;
             tail =
               (if has_prefix rest name then Some (drop (length name) rest)
                else (case last_index_sub (''.'' @ name) rest of
                   None \<Rightarrow> None
                 | Some separator \<Rightarrow>
                     if separator = 0 then None
                     else
                       (let qualifier = take separator rest in
                        if trim_space qualifier \<noteq> qualifier \<or> contains_line_break qualifier then None
                        else Some (drop (separator + 1 + length name) rest))))
         in case tail of
              None \<Rightarrow> []
            | Some t \<Rightarrow> if t = [] \<or> hd t \<notin> set allowedTail then [] else name @ t))"

definition normalizeTSGoConstructor :: "string \<Rightarrow> string" where
  "normalizeTSGoConstructor display =
     (let rest = trim_prefix display ''constructor '' in
      case (index_sub ''('' rest, last_index_sub '')'' rest) of
        (Some opening, Some closing) \<Rightarrow>
          if opening = 0 \<or> closing \<le> opening then []
          else
            (let className = take opening rest; suffix = drop (closing + 1) rest in
             if trim_space className \<noteq> className \<or> contains_line_break className \<or>
                CHR '' '' \<in> set className \<or> CHR 0x09 \<in> set className then []
             else if suffix \<noteq> [] \<and> suffix \<noteq> '': '' @ className then []
             else ''constructor'' @ take (closing + 1 - opening) (drop opening rest))
      | _ \<Rightarrow> [])"

definition normalizeTSGoAnonymousFunction :: "string \<Rightarrow> string" where
  "normalizeTSGoAnonymousFunction display =
     (let tail = trim_prefix display ''function (Anonymous function)'' in
      if has_prefix tail ''('' then tail else [])"

definition normalizeTSGoSignature :: "string \<Rightarrow> Symbol \<Rightarrow> string" where
  "normalizeTSGoSignature display symbol =
     (if has_prefix display ''(method) '' then
        if sym_Kind symbol = SymbolKindMethod
        then normalizeTSGoMember display (sym_Name symbol) ''(method) '' ''(?<'' else []
      else if has_prefix display ''(property) '' then
        if sym_Kind symbol = SymbolKindProperty
        then normalizeTSGoMember display (sym_Name symbol) ''(property) '' '':?!'' else []
      else if has_prefix display ''(accessor) '' then
        if sym_Kind symbol = SymbolKindProperty
        then normalizeTSGoMember display (sym_Name symbol) ''(accessor) '' '':'' else []
      else if has_prefix display ''constructor '' then
        if sym_Kind symbol = SymbolKindConstructor \<and> sym_Name symbol = ''constructor''
        then normalizeTSGoConstructor display else []
      else if has_prefix display ''function (Anonymous function)'' then
        if sym_Kind symbol = SymbolKindFunction \<and>
           (sym_Name symbol = ''default'' \<or> has_suffix (sym_Name symbol) '' callback'')
        then normalizeTSGoAnonymousFunction display else []
      else display)"

definition decodeHoverSignature :: "json option \<Rightarrow> Symbol \<Rightarrow> lsp_error + string" where
  "decodeHoverSignature raw symbol =
     (case raw of
        None \<Rightarrow> Inr []
      | Some JNull \<Rightarrow> Inr []
      | Some (JObject flds) \<Rightarrow>
          rbind (case hover_contents flds None of None \<Rightarrow> Inr [] | Some contents \<Rightarrow> decodeHoverContents contents)
            (\<lambda>display. Inr (normalizeTSGoSignature display symbol))
      | Some _ \<Rightarrow> Inl (BadJSON ''hover''))"

section \<open>Substring search\<close>

lemma index_sub_Some: "index_sub sub s = Some i \<Longrightarrow> has_prefix (drop i s) sub \<and> i \<le> length s"
  by (induction s arbitrary: i) (auto split: if_splits)

lemma last_index_sub_Some: "last_index_sub sub s = Some i \<Longrightarrow> has_prefix (drop i s) sub \<and> i \<le> length s"
  by (induction s arbitrary: i) (auto split: if_splits option.splits)

lemma index_sub_byte: "c \<notin> set a \<Longrightarrow> index_sub [c] (a @ c # b) = Some (length a)"
  by (induction a) auto

lemma member_split:
  assumes "normalizeTSGoMember display name prefix allowed = sig" "sig \<noteq> []" "has_prefix display prefix"
  shows "\<exists>qualifier t. display = prefix @ qualifier @ sig \<and> sig = name @ t \<and> t \<noteq> [] \<and> hd t \<in> set allowed \<and>
    (qualifier = [] \<or> (\<exists>q. qualifier = q @ ''.'' \<and> q \<noteq> [] \<and> \<not> contains_line_break q))"
proof -
  obtain rest where d: "display = prefix @ rest" using assms(3) by (auto simp: has_prefix_iff)
  show ?thesis
  proof (cases "has_prefix rest name")
    case True
    then obtain t where "rest = name @ t" by (auto simp: has_prefix_iff)
    with assms(1,2) d True show ?thesis
      by - (rule exI [where x = "[]"], rule exI [where x = t], auto simp: normalizeTSGoMember_def Let_def split: if_splits)
  next
    case False
    then obtain i where i: "last_index_sub (''.'' @ name) rest = Some i" "i \<noteq> 0"
        "\<not> contains_line_break (take i rest)" "sig = name @ drop (i + 1 + length name) rest"
        "drop (i + 1 + length name) rest \<noteq> []" "hd (drop (i + 1 + length name) rest) \<in> set allowed"
      using assms(1,2) d by (auto simp: normalizeTSGoMember_def Let_def split: if_splits option.splits)
    obtain r where r: "drop i rest = ''.'' @ name @ r"
      using last_index_sub_Some [OF i(1)] by (auto simp: has_prefix_iff)
    have "drop (i + 1 + length name) rest = drop (length name + 1) (drop i rest)" by (simp add: ac_simps)
    also have "\<dots> = r" unfolding r by simp
    finally have dr: "drop (i + 1 + length name) rest = r" .
    note i = i(1-3) i(4-6) [unfolded dr]
    have "sig = name @ r" using i(4) by simp
    moreover have "rest = take i rest @ ''.'' @ name @ r" using r append_take_drop_id [of i rest] by simp
    moreover have "take i rest \<noteq> []" using i(2) r by auto
    moreover have "r \<noteq> []" "hd r \<in> set allowed" using i(5,6) by simp_all
    ultimately show ?thesis
      using d i(3) by - (rule exI [where x = "take i rest @ ''.''"], rule exI [where x = r], auto)
  qed
qed

lemma constructor_split:
  assumes "normalizeTSGoConstructor display = sig" "sig \<noteq> []" "has_prefix display ''constructor ''"
  shows "\<exists>cls params suffix. display = ''constructor '' @ cls @ params @ suffix \<and> sig = ''constructor'' @ params \<and>
    cls \<noteq> [] \<and> \<not> contains_line_break cls \<and> has_prefix params ''('' \<and> (suffix = [] \<or> suffix = '': '' @ cls)"
proof -
  obtain rest where d: "display = ''constructor '' @ rest" using assms(3) unfolding has_prefix_iff by blast
  have tp: "trim_prefix display ''constructor '' = rest" unfolding d by (rule trim_prefix_append)
  obtain a b where ab: "index_sub ''('' rest = Some a" "last_index_sub '')'' rest = Some b" "a \<noteq> 0" "a < b"
      "\<not> contains_line_break (take a rest)" "drop (b + 1) rest = [] \<or> drop (b + 1) rest = '': '' @ take a rest"
      "sig = ''constructor'' @ take (b + 1 - a) (drop a rest)"
    using assms(1,2) tp
    by (auto simp: normalizeTSGoConstructor_def Let_def not_le split: if_splits option.splits)
  have pos: "has_prefix (drop a rest) ''(''" "a \<le> length rest" using index_sub_Some [OF ab(1)] by auto
  have "rest = take a rest @ take (b + 1 - a) (drop a rest) @ drop (b + 1) rest"
    using ab(4) append_take_drop_id [of "b + 1 - a" "drop a rest"] append_take_drop_id [of a rest]
    by (simp add: drop_drop)
  moreover have "has_prefix (take (b + 1 - a) (drop a rest)) ''(''"
    using pos ab(4) by (cases "drop a rest") (auto simp: take_Cons')
  moreover have "take a rest \<noteq> []" using ab(3) pos by (cases rest) auto
  ultimately show ?thesis
    using d ab(5-7) 
    by - (rule exI [where x = "take a rest"], rule exI [where x = "take (b + 1 - a) (drop a rest)"],
        rule exI [where x = "drop (b + 1) rest"], auto)
qed

lemma index_sub_fence: "CHR 0x60 \<notin> set a \<Longrightarrow> index_sub fence (a @ fence @ b) = Some (length a)"
  by (induction a) (auto simp: fence_def)

lemma member_kinds:
  "has_prefix display ''(method) '' \<Longrightarrow> normalizeTSGoSignature display symbol \<noteq> [] \<Longrightarrow>
   sym_Kind symbol = SymbolKindMethod \<and>
   normalizeTSGoSignature display symbol = normalizeTSGoMember display (sym_Name symbol) ''(method) '' ''(?<''"
  "has_prefix display ''(property) '' \<Longrightarrow> normalizeTSGoSignature display symbol \<noteq> [] \<Longrightarrow>
   sym_Kind symbol = SymbolKindProperty \<and>
   normalizeTSGoSignature display symbol = normalizeTSGoMember display (sym_Name symbol) ''(property) '' '':?!''"
  "has_prefix display ''(accessor) '' \<Longrightarrow> normalizeTSGoSignature display symbol \<noteq> [] \<Longrightarrow>
   sym_Kind symbol = SymbolKindProperty \<and>
   normalizeTSGoSignature display symbol = normalizeTSGoMember display (sym_Name symbol) ''(accessor) '' '':''"
proof -
  have dis: "has_prefix display ''(property) '' \<Longrightarrow> \<not> has_prefix display ''(method) ''"
    "has_prefix display ''(accessor) '' \<Longrightarrow> \<not> has_prefix display ''(method) ''"
    "has_prefix display ''(accessor) '' \<Longrightarrow> \<not> has_prefix display ''(property) ''"
    by (auto simp: has_prefix_iff)
  show "has_prefix display ''(method) '' \<Longrightarrow> normalizeTSGoSignature display symbol \<noteq> [] \<Longrightarrow> sym_Kind symbol = SymbolKindMethod \<and>
      normalizeTSGoSignature display symbol = normalizeTSGoMember display (sym_Name symbol) ''(method) '' ''(?<''"
    unfolding normalizeTSGoSignature_def by presburger
  show "has_prefix display ''(property) '' \<Longrightarrow> normalizeTSGoSignature display symbol \<noteq> [] \<Longrightarrow> sym_Kind symbol = SymbolKindProperty \<and>
      normalizeTSGoSignature display symbol = normalizeTSGoMember display (sym_Name symbol) ''(property) '' '':?!''"
    using dis unfolding normalizeTSGoSignature_def by presburger
  show "has_prefix display ''(accessor) '' \<Longrightarrow> normalizeTSGoSignature display symbol \<noteq> [] \<Longrightarrow> sym_Kind symbol = SymbolKindProperty \<and>
      normalizeTSGoSignature display symbol = normalizeTSGoMember display (sym_Name symbol) ''(accessor) '' '':''"
    using dis unfolding normalizeTSGoSignature_def by presburger
qed

section \<open>Properties\<close>

text \<open>The code of a fenced markdown answer is exactly the text between the line of the
  first fence and the next fence, without surrounding space.\<close>

theorem markdownCode_fenced:
  assumes "CHR 0x60 \<notin> set before" "CHR 0x60 \<notin> set code" "newline \<notin> set lang"
  shows "markdownCode (before @ fence @ lang @ [newline] @ code @ fence @ after) = Inr (trim_space code)"
proof -
  let ?m = "before @ fence @ lang @ [newline] @ code @ fence @ after"
  have 1: "index_sub fence ?m = Some (length before)"
    using index_sub_fence [OF assms(1)] by simp
  have "newline \<notin> set (fence @ lang)" using assms(3) by (simp add: fence_def)
  from index_sub_byte [OF this, of "code @ fence @ after"]
  have 2: "index_sub [newline] (drop (length before) ?m) = Some (length (fence @ lang))" by simp
  have d: "drop (length before + length (fence @ lang) + 1) ?m = code @ fence @ after" by simp
  show ?thesis
    unfolding markdownCode_def 1 2 Let_def option.case d index_sub_fence [OF assms(2)] by simp
qed

text \<open>The signature kept from a method, property or accessor display is empty or the end
  of the display from the symbol's own name on, followed by a delimiter of that display; what
  was removed is the display prefix and a dotted qualifier on the same line.\<close>

theorem normalizeTSGoSignature_member:
  assumes "(prefix, kind, allowed) \<in> {(''(method) '', SymbolKindMethod, ''(?<''),
      (''(property) '', SymbolKindProperty, '':?!''), (''(accessor) '', SymbolKindProperty, '':'')}"
    and "has_prefix display prefix" and "normalizeTSGoSignature display symbol \<noteq> []"
  shows "sym_Kind symbol = kind \<and> (\<exists>qualifier t.
    display = prefix @ qualifier @ normalizeTSGoSignature display symbol \<and>
    normalizeTSGoSignature display symbol = sym_Name symbol @ t \<and> t \<noteq> [] \<and> hd t \<in> set allowed \<and>
    (qualifier = [] \<or> (\<exists>q. qualifier = q @ ''.'' \<and> q \<noteq> [] \<and> \<not> contains_line_break q)))"
proof -
  have "sym_Kind symbol = kind \<and>
      normalizeTSGoSignature display symbol = normalizeTSGoMember display (sym_Name symbol) prefix allowed"
    using assms member_kinds by blast
  then show ?thesis using member_split [OF _ assms(3,2)] by metis
qed

text \<open>The signature of a constructor is its parameter list with the keyword in front; the
  class name that was removed has no line break and agrees with the declared result type.\<close>

lemma normalizeTSGoSignature_constructor:
  assumes "has_prefix display ''constructor ''" "normalizeTSGoSignature display symbol \<noteq> []"
  shows "\<exists>cls params suffix. display = ''constructor '' @ cls @ params @ suffix \<and>
    normalizeTSGoSignature display symbol = ''constructor'' @ params \<and> cls \<noteq> [] \<and>
    \<not> contains_line_break cls \<and> has_prefix params ''('' \<and> (suffix = [] \<or> suffix = '': '' @ cls)"
proof -
  obtain r where r: "display = ''constructor '' @ r" using assms(1) unfolding has_prefix_iff by blast
  then have hp: "\<not> has_prefix display (CHR ''('' # p)" "\<not> has_prefix display (CHR ''f'' # p)" for p by simp_all
  have "normalizeTSGoSignature display symbol =
      (if sym_Kind symbol = SymbolKindConstructor \<and> sym_Name symbol = ''constructor''
       then normalizeTSGoConstructor display else [])"
    unfolding normalizeTSGoSignature_def by (simp only: hp assms(1) if_True if_False)
  then have "normalizeTSGoSignature display symbol = normalizeTSGoConstructor display"
    using assms(2) by presburger
  then show ?thesis using constructor_split [OF _ assms(2,1)] by metis
qed

subsection \<open>Witnesses\<close>

theorem markdownCode_fenced_witness:
  "markdownCode (''x '' @ fence @ ''ts'' @ [newline] @ ''f(): void'' @ fence @ []) = Inr (trim_space ''f(): void'')"
  by (rule markdownCode_fenced) simp_all

definition method_symbol :: Symbol where
  "method_symbol = \<lparr>sym_Name = ''run'', sym_Kind = SymbolKindMethod, sym_File = [],
     sym_Range = \<lparr>Start = \<lparr>Line = 0, Character = 0\<rparr>, End = \<lparr>Line = 0, Character = 0\<rparr>\<rparr>,
     sym_SelRange = \<lparr>Start = \<lparr>Line = 0, Character = 0\<rparr>, End = \<lparr>Line = 0, Character = 0\<rparr>\<rparr>,
     sym_Signature = [], sym_Detail = []\<rparr>"

theorem normalizeTSGoSignature_member_witness:
  "\<exists>t. normalizeTSGoSignature ''(method) run(): void'' method_symbol = ''run'' @ t \<and> hd t \<in> set ''(?<''"
proof -
  have "normalizeTSGoSignature ''(method) run(): void'' method_symbol \<noteq> []"
    by (simp add: normalizeTSGoSignature_def normalizeTSGoMember_def method_symbol_def trim_prefix_def)
  then show ?thesis
    using normalizeTSGoSignature_member [of "''(method) ''" SymbolKindMethod "''(?<''" "''(method) run(): void''" method_symbol]
    by (auto simp: method_symbol_def)
qed

theorem normalizeTSGoSignature_constructor_witness:
  "\<exists>cls params. normalizeTSGoSignature ''constructor A(x): A''
      (method_symbol\<lparr>sym_Name := ''constructor'', sym_Kind := SymbolKindConstructor\<rparr>) = ''constructor'' @ params \<and> cls \<noteq> []
      \<and> has_prefix params ''(''"
proof -
  have "normalizeTSGoSignature ''constructor A(x): A''
      (method_symbol\<lparr>sym_Name := ''constructor'', sym_Kind := SymbolKindConstructor\<rparr>) \<noteq> []"
    by code_simp
  then show ?thesis
    using normalizeTSGoSignature_constructor [of "''constructor A(x): A''"
        "method_symbol\<lparr>sym_Name := ''constructor'', sym_Kind := SymbolKindConstructor\<rparr>"] by fastforce
qed

end
