(* ===== verification/Tool_Render.thy ===== *)
theory Tool_Render
  imports Core_Types
begin

text \<open>
  Compact text for agents (\<^verbatim>\<open>src/internal/tools/render\<close>): positions and ranges, the escaping that
  keeps a piece of text on one line, symbol lines, grouped locations, and the state markers.
\<close>

section \<open>Operations\<close>

definition RangeConvention :: string where "RangeConvention = ''ranges 0-based''"

definition render_Position :: "Position \<Rightarrow> string" where
  "render_Position p = itoa (Line p) @ '':'' @ itoa (Character p)"

definition render_Range :: "Range \<Rightarrow> string" where
  "render_Range r = render_Position (Start r) @ ''-'' @ render_Position (End r)"

text \<open>The format \<^verbatim>\<open>%04x\<close>.\<close>

definition hex_digit :: "nat \<Rightarrow> char" where
  "hex_digit d = (if d < 10 then char_of (48 + d) else char_of (87 + d))"

definition unicode_escape :: "rune \<Rightarrow> string" where
  "unicode_escape r = [backslash, CHR ''u'', hex_digit (r div 4096 mod 16), hex_digit (r div 256 mod 16),
     hex_digit (r div 16 mod 16), hex_digit (r mod 16)]"

definition inlineRune :: "rune \<Rightarrow> string" where
  "inlineRune r =
     (if r = 7 then [backslash, CHR ''a''] else if r = 8 then [backslash, CHR ''b'']
      else if r = 9 then [backslash, CHR ''t''] else if r = 10 then [backslash, CHR ''n'']
      else if r = 11 then [backslash, CHR ''v''] else if r = 12 then [backslash, CHR ''f'']
      else if r = 13 then [backslash, CHR ''r'']
      else if isControl r \<or> r = 0x2028 \<or> r = 0x2029 then unicode_escape r
      else encode_rune r)"

definition inlineText :: "string \<Rightarrow> string" where
  "inlineText text = concat (map inlineRune (runes text))"

definition SymbolLine :: "Symbol \<Rightarrow> int \<Rightarrow> string" where
  "SymbolLine symbol depth =
     (let declaration =
        (if sym_Signature symbol \<noteq> [] then sym_Signature symbol
         else join '' '' ((if sym_Kind symbol \<noteq> [] \<and> sym_Kind symbol \<noteq> SymbolKindUnknown then [sym_Kind symbol] else []) @
                          (if sym_Name symbol \<noteq> [] then [sym_Name symbol] else [])));
          indent = (if 0 < depth then concat (replicate (nat depth) ''  '') else [])
      in if declaration = [] then indent @ ''['' @ render_Range (sym_Range symbol) @ '']''
         else indent @ inlineText declaration @ '' ['' @ render_Range (sym_Range symbol) @ '']'')"

record locationGroup =
  lg_file :: string
  lg_ranges :: "Range list"

text \<open>
  The grouping loop: \<open>groupIndexes\<close> is the index of the group with that file, if there is one.
\<close>

fun group_index :: "string \<Rightarrow> locationGroup list \<Rightarrow> nat option" where
  "group_index f [] = None"
| "group_index f (g # gs) = (if lg_file g = f then Some 0 else map_option Suc (group_index f gs))"

definition addLocation :: "locationGroup list \<Rightarrow> Location \<Rightarrow> locationGroup list" where
  "addLocation groups location =
     (case group_index (loc_File location) groups of
        None \<Rightarrow> groups @ [\<lparr>lg_file = loc_File location, lg_ranges = [loc_Range location]\<rparr>]
      | Some i \<Rightarrow> groups[i := (groups ! i)\<lparr>lg_ranges := lg_ranges (groups ! i) @ [loc_Range location]\<rparr>])"

definition groupLocations :: "Location list \<Rightarrow> locationGroup list" where
  "groupLocations locations = foldl addLocation [] locations"

definition renderGroup :: "locationGroup \<Rightarrow> string" where
  "renderGroup g = inlineText (lg_file g) @ '' ['' @ join '', '' (map render_Range (lg_ranges g)) @ '']''"

definition Locations :: "Location list \<Rightarrow> string" where
  "Locations locations = join [newline] (map renderGroup (groupLocations locations))"

definition FileLine :: "string \<Rightarrow> string" where "FileLine f = ''file '' @ inlineText f"
definition Empty :: "string \<Rightarrow> string" where "Empty message = ''empty: '' @ inlineText message"
definition render_Error :: "string \<Rightarrow> string" where "render_Error message = ''error: '' @ inlineText message"

definition Count :: "int \<Rightarrow> string \<Rightarrow> string \<Rightarrow> string" where
  "Count count singular plural = itoa count @ '' '' @ inlineText (if count = 1 then singular else plural)"

definition Footer :: "int \<Rightarrow> string \<Rightarrow> string \<Rightarrow> bool \<Rightarrow> string" where
  "Footer count singular plural truncated =
     (let footer = Count count singular plural in
      if truncated then footer @ ''; truncated: more '' @ inlineText plural @ '' exist'' else footer @ ''; complete'')"

section \<open>One line of text\<close>

definition inline :: "string \<Rightarrow> bool" where
  "inline s \<longleftrightarrow> (\<forall>b \<in> set s. 0x20 \<le> byte_val b \<and> byte_val b \<noteq> 0x7F)"

lemma inline_simps [simp]:
  "inline []" "inline (b # s) \<longleftrightarrow> 0x20 \<le> byte_val b \<and> byte_val b \<noteq> 0x7F \<and> inline s"
  "inline (s @ t) \<longleftrightarrow> inline s \<and> inline t"
  by (auto simp: inline_def)

lemma inline_concat: "inline (concat xs) \<longleftrightarrow> (\<forall>x \<in> set xs. inline x)"
  by (auto simp: inline_def)

lemma inline_newline: "inline s \<Longrightarrow> newline \<notin> set s"
  by (auto simp: inline_def)

lemma hex_digit_inline: "d < 16 \<Longrightarrow> 0x20 \<le> byte_val (hex_digit d) \<and> byte_val (hex_digit d) \<noteq> 0x7F"
  by (simp add: hex_digit_def)

lemma encode_rune_inline: "\<not> isControl r \<Longrightarrow> inline (encode_rune r)"
proof (cases "r < 0x80")
  case True
  assume "\<not> isControl r"
  then show ?thesis using True by (auto simp: encode_rune_ascii isControl_def)
next
  case False
  then show ?thesis using encode_rune_nonascii [of r] by (fastforce simp: inline_def)
qed

lemma inlineText_inline [simp]: "inline (inlineText text)"
proof -
  have "inline (inlineRune r)" for r
    by (auto simp: inlineRune_def encode_rune_inline unicode_escape_def hex_digit_inline)
  then show ?thesis by (auto simp: inlineText_def inline_concat)
qed

lemma itoa_inline [simp]: "inline (itoa i)"
proof -
  have "inline (digits_nat n)" for n
    using digits_nat_digits [of _ n] by (fastforce simp: inline_def isASCIIDigit_def)
  then show ?thesis by (simp add: itoa_def)
qed

lemma render_Range_inline [simp]: "inline (render_Range r)"
  by (simp add: render_Range_def render_Position_def)

lemma SymbolLine_inline: "inline (SymbolLine symbol depth)"
  by (auto simp: SymbolLine_def Let_def inline_concat)

lemma join_inline: "inline sep \<Longrightarrow> (\<And>x. x \<in> set xs \<Longrightarrow> inline x) \<Longrightarrow> inline (join sep xs)"
  using set_join [of sep xs] by (fastforce simp: inline_def)

lemma renderGroup_inline: "inline (renderGroup g)"
  by (auto simp: renderGroup_def intro!: join_inline)

lemma render_markers_inline [simp]:
  "inline (FileLine f)" "inline (Empty m)" "inline (render_Error m)" "inline (Count n a b)" "inline (Footer n a b t)"
  by (simp_all add: FileLine_def Empty_def render_Error_def Count_def Footer_def Let_def)

section \<open>Grouping\<close>

text \<open>The reference: files in the order of their first appearance, each with its ranges in order.\<close>

definition first_files :: "Location list \<Rightarrow> string list" where
  "first_files locations = rev (remdups (rev (map loc_File locations)))"

definition group_of :: "Location list \<Rightarrow> string \<Rightarrow> locationGroup" where
  "group_of locations f = \<lparr>lg_file = f, lg_ranges = map loc_Range (filter (\<lambda>l. loc_File l = f) locations)\<rparr>"

lemma first_files_snoc:
  "first_files (ls @ [l]) =
     (if loc_File l \<in> loc_File ` set ls then first_files ls else first_files ls @ [loc_File l])"
  by (simp add: first_files_def)

lemma set_first_files: "set (first_files ls) = loc_File ` set ls"
  by (simp add: first_files_def)

lemma distinct_first_files: "distinct (first_files ls)"
  by (simp add: first_files_def)

lemma group_index_None: "f \<notin> lg_file ` set gs \<Longrightarrow> group_index f gs = None"
  by (induction gs) auto

lemma group_index_Some:
  "i < length gs \<Longrightarrow> distinct (map lg_file gs) \<Longrightarrow> group_index (lg_file (gs ! i)) gs = Some i"
proof (induction gs arbitrary: i)
  case (Cons g gs)
  then show ?case by (cases i) auto
qed simp

lemma groupLocations_spec: "groupLocations ls = map (group_of ls) (first_files ls)"
proof (induction ls rule: rev_induct)
  case Nil
  then show ?case by (simp add: groupLocations_def first_files_def)
next
  case (snoc l ls)
  let ?f = "loc_File l"
  have ih: "groupLocations (ls @ [l]) = addLocation (map (group_of ls) (first_files ls)) l"
    using snoc by (simp add: groupLocations_def)
  have other: "group_of (ls @ [l]) f = group_of ls f" if "f \<noteq> ?f" for f using that by (simp add: group_of_def)
  show ?case
  proof (cases "?f \<in> loc_File ` set ls")
    case False
    then have "group_index ?f (map (group_of ls) (first_files ls)) = None"
      by (intro group_index_None) (auto simp: group_of_def set_first_files)
    moreover have "filter (\<lambda>x. loc_File x = ?f) ls = []" 
      using False by (auto simp: filter_empty_conv image_iff)
    moreover have "map (group_of (ls @ [l])) (first_files ls) = map (group_of ls) (first_files ls)"
      using False by (intro map_cong refl other) (auto simp: set_first_files image_iff)
    ultimately show ?thesis
      using False by (simp add: ih addLocation_def first_files_snoc group_of_def)
  next
    case True
    then obtain i where i: "i < length (first_files ls)" "first_files ls ! i = ?f"
      using set_first_files by (metis in_set_conv_nth)
    let ?gs = "map (group_of ls) (first_files ls)"
    have idx: "group_index ?f ?gs = Some i"
      using group_index_Some [of i ?gs] i distinct_first_files [of ls] by (simp add: group_of_def comp_def)
    have "?gs[i := (?gs ! i)\<lparr>lg_ranges := lg_ranges (?gs ! i) @ [loc_Range l]\<rparr>] =
        map (group_of (ls @ [l])) (first_files ls)"
    proof (rule nth_equalityI)
      fix j assume "j < length (?gs[i := (?gs ! i)\<lparr>lg_ranges := lg_ranges (?gs ! i) @ [loc_Range l]\<rparr>])"
      then have j: "j < length (first_files ls)" by simp
      show "?gs[i := (?gs ! i)\<lparr>lg_ranges := lg_ranges (?gs ! i) @ [loc_Range l]\<rparr>] ! j =
          map (group_of (ls @ [l])) (first_files ls) ! j"
      proof (cases "j = i")
        case True
        then show ?thesis using i by (simp add: group_of_def)
      next
        case False
        then have "first_files ls ! j \<noteq> ?f" using i j distinct_first_files nth_eq_iff_index_eq by metis
        then show ?thesis using False j other by simp
      qed
    qed simp
    then show ?thesis using True idx by (simp add: ih addLocation_def first_files_snoc)
  qed
qed

section \<open>Properties\<close>

text \<open>The rendering of locations has one line per file, in the order in which the files first
  appear, each line with all the ranges of that file in the provider's order.\<close>

theorem Locations_lines:
  assumes "locations \<noteq> []"
  shows "split_byte newline (Locations locations) =
    map (\<lambda>f. renderGroup (group_of locations f)) (first_files locations)"
proof -
  have "first_files locations \<noteq> []" using assms by (simp add: first_files_def)
  then show ?thesis
    unfolding Locations_def groupLocations_spec
    by (subst split_byte_join) (auto simp: inline_newline renderGroup_inline)
qed

theorem Locations_lines_witness:
  "length (split_byte newline (Locations
     [\<lparr>loc_File = ''/a'', loc_Range = \<lparr>Start = \<lparr>Line = 0, Character = 0\<rparr>, End = \<lparr>Line = 0, Character = 1\<rparr>\<rparr>\<rparr>,
      \<lparr>loc_File = ''/b'', loc_Range = \<lparr>Start = \<lparr>Line = 0, Character = 0\<rparr>, End = \<lparr>Line = 0, Character = 1\<rparr>\<rparr>\<rparr>,
      \<lparr>loc_File = ''/a'', loc_Range = \<lparr>Start = \<lparr>Line = 2, Character = 0\<rparr>, End = \<lparr>Line = 2, Character = 1\<rparr>\<rparr>\<rparr>])) = 2"
  by (subst Locations_lines) (simp_all add: first_files_def)

end
