(* ===== verification/Telemetry_Record.thy ===== *)
theory Telemetry_Record
  imports Lsp_Hover Tool_Render "HOL-Library.Char_ord" "HOL-Library.List_Lexorder"
begin

text \<open>
  Telemetry records (\<^verbatim>\<open>src/internal/telemetry/snapshot.go\<close>, \<^verbatim>\<open>jsonl_record.go\<close>): the detached
  snapshot of an event, its JSON line, and the capping of a line at the record limit. The
  detaching of one extra value through \<^verbatim>\<open>encoding/json\<close> and the hexadecimal SHA-256 digest are
  parameters; the encoding of strings, numbers and sorted objects is written out.
\<close>

section \<open>JSON text\<close>

text \<open>
  Strings as \<^verbatim>\<open>json.Marshal\<close> writes them: quotes, backslashes, controls, the HTML characters and
  the two line separators are escaped, an invalid byte becomes the replacement character.
\<close>

definition json_rune :: "string \<Rightarrow> string" where
  "json_rune s =
     (let r = rune_of s in
      if r = 34 \<or> r = 92 then [backslash, char_of r]
      else if r = 8 then [backslash, CHR ''b''] else if r = 12 then [backslash, CHR ''f'']
      else if r = 10 then [backslash, CHR ''n''] else if r = 13 then [backslash, CHR ''r'']
      else if r = 9 then [backslash, CHR ''t'']
      else if r < 32 \<or> r = 60 \<or> r = 62 \<or> r = 38 \<or> r = 0x2028 \<or> r = 0x2029 then unicode_escape r
      else if r = RuneError \<and> width_of s = 1 then unicode_escape r
      else encode_rune r)"

function json_chars :: "string \<Rightarrow> string" where
  "json_chars s = (if s = [] then [] else json_rune s @ json_chars (drop (width_of s) s))"
  by pat_completeness auto
termination by (relation "measure length") auto

declare json_chars.simps [simp del]

abbreviation (input) quote :: char where "quote \<equiv> CHR 0x22"

definition json_string :: "string \<Rightarrow> string" where
  "json_string s = quote # json_chars s @ [quote]"

fun json_text :: "json \<Rightarrow> string" and json_items :: "json list \<Rightarrow> string list" and
  json_members :: "(string \<times> json) list \<Rightarrow> (string \<times> string) list" where
  "json_text JNull = ''null''"
| "json_text (JBool b) = (if b then ''true'' else ''false'')"
| "json_text (JNumber literal) = literal"
| "json_text (JString s) = json_string s"
| "json_text (JArray xs) = ''['' @ join '','' (json_items xs) @ '']''"
| "json_text (JObject kvs) =
     ''{'' @ join '','' (map (\<lambda>(k, v). json_string k @ '':'' @ v) (sort_key fst (json_members kvs))) @ ''}''"
| "json_items [] = []"
| "json_items (x # xs) = json_text x # json_items xs"
| "json_members [] = []"
| "json_members ((k, v) # kvs) = (k, json_text v) # json_members kvs"

section \<open>Snapshots\<close>

record StampedEvent = Event +
  ev_Timestamp :: string
  ev_Extra :: "(string \<times> json) list option"

text \<open>An entry of the extra map is its detached value or the reason why it could not be encoded.\<close>

record eventSnapshot =
  es_event :: StampedEvent
  es_extra :: "(string \<times> (string + json)) list option"

definition snapshotExtra :: "('v \<Rightarrow> string + json) \<Rightarrow> (string \<times> 'v) list option \<Rightarrow> (string \<times> (string + json)) list option" where
  "snapshotExtra detach extra = map_option (map (\<lambda>(key, v). (key, detach v))) extra"

definition snapshotEvent ::
  "string \<Rightarrow> ('v \<Rightarrow> string + json) \<Rightarrow> StampedEvent \<Rightarrow> (string \<times> 'v) list option \<Rightarrow> eventSnapshot" where
  "snapshotEvent now detach ev extra =
     \<lparr>es_event = ev\<lparr>ev_Timestamp := (if ev_Timestamp ev = [] then now else ev_Timestamp ev), ev_Extra := None\<rparr>,
      es_extra = snapshotExtra detach extra\<rparr>"

definition snapshot_values :: "(string \<times> (string + json)) list option \<Rightarrow> (string \<times> json) list option" where
  "snapshot_values extra = map_option (List.map_filter (\<lambda>(key, e). case e of Inl _ \<Rightarrow> None | Inr v \<Rightarrow> Some (key, v))) extra"

definition firstFailure :: "(string \<times> (string + json)) list option \<Rightarrow> string option" where
  "firstFailure extra =
     (case extra of
        None \<Rightarrow> None
      | Some entries \<Rightarrow>
          map_option (\<lambda>(key, e). projl e) (find (\<lambda>(key, e). \<not> isOk e) (sort_key fst entries)))"

section \<open>Lines\<close>

definition json_field :: "string \<Rightarrow> string \<Rightarrow> string" where
  "json_field key v = json_string key @ '':'' @ v"

definition marshalEvent :: "StampedEvent \<Rightarrow> string" where
  "marshalEvent ev = ''{'' @ join '',''
     ([json_field ''ts'' (json_string (ev_Timestamp ev)),
       json_field ''session_id'' (json_string (ev_SessionID ev)),
       json_field ''graph_mode'' (json_string (ev_GraphMode ev)),
       json_field ''tool'' (json_string (ev_Tool ev)),
       json_field ''duration_ms'' (itoa (ev_DurationMs ev)),
       json_field ''result_size'' (itoa (ev_ResultSize ev)),
       json_field ''truncated'' (json_text (JBool (ev_Truncated ev))),
       json_field ''stale'' (json_text (JBool (ev_Stale ev))),
       json_field ''generation'' (itoa (uint (ev_Generation ev)))] @
      (if ev_Err ev = [] then [] else [json_field ''err'' (json_string (ev_Err ev))]) @
      (case ev_Extra ev of
         None \<Rightarrow> []
       | Some kvs \<Rightarrow> if kvs = [] then [] else [json_field ''extra'' (json_text (JObject kvs))])) @ ''}''"

definition marshalLine :: "StampedEvent \<Rightarrow> string" where
  "marshalLine ev = marshalEvent ev @ [newline]"

text \<open>The ellipsis of the suffix is three bytes of UTF-8.\<close>

definition ellipsis :: string where "ellipsis = [char_of (0xE2 :: nat), char_of (0x80 :: nat), char_of (0xA6 :: nat)]"

function valid_utf8 :: "string \<Rightarrow> bool" where
  "valid_utf8 s =
     (if s = [] then True
      else if rune_of s = RuneError \<and> width_of s = 1 then False
      else valid_utf8 (drop (width_of s) s))"
  by pat_completeness auto
termination by (relation "measure length") auto

declare valid_utf8.simps [simp del]

text \<open>The trimming loop of \<open>boundedString\<close>; the empty string is valid.\<close>

function trimInvalid :: "string \<Rightarrow> string" where
  "trimInvalid prefix = (if valid_utf8 prefix then prefix else trimInvalid (butlast prefix))"
  by pat_completeness auto
termination
proof (relation "measure length")
  fix prefix :: string
  assume "\<not> valid_utf8 prefix"
  then have "prefix \<noteq> []" by (auto simp: valid_utf8.simps)
  then show "(butlast prefix, prefix) \<in> measure length" by (cases prefix) auto
qed simp

declare trimInvalid.simps [simp del]

definition boundedString :: "(string \<Rightarrow> string) \<Rightarrow> string \<Rightarrow> nat \<Rightarrow> string" where
  "boundedString sha v limit =
     (if length v \<le> limit then v
      else let digest = sha v; suffix = ellipsis @ ''sha256:'' @ digest in
        if limit \<le> length suffix then take (min (length digest) (max 1 limit)) digest
        else trimInvalid (take (limit - length suffix) v) @ suffix)"

section \<open>Capping a record\<close>

text \<open>
  The five string fields in the order of the code's slices. A field is always its original
  bounded by its current limit: the limits start at the lengths of the originals, for which
  \<open>boundedString\<close> is the identity.
\<close>

definition originals :: "StampedEvent \<Rightarrow> string list" where
  "originals ev = [ev_SessionID ev, ev_Tool ev, ev_GraphMode ev, ev_Timestamp ev, ev_Err ev]"

definition with_limits :: "(string \<Rightarrow> string) \<Rightarrow> StampedEvent \<Rightarrow> nat list \<Rightarrow> StampedEvent" where
  "with_limits sha ev limits =
     ev\<lparr>ev_SessionID := boundedString sha (ev_SessionID ev) (limits ! 0),
        ev_Tool := boundedString sha (ev_Tool ev) (limits ! 1),
        ev_GraphMode := boundedString sha (ev_GraphMode ev) (limits ! 2),
        ev_Timestamp := boundedString sha (ev_Timestamp ev) (limits ! 3),
        ev_Err := boundedString sha (ev_Err ev) (limits ! 4)\<rparr>"

definition halve :: "nat \<Rightarrow> nat \<Rightarrow> nat" where
  "halve least limit = (if limit > least then max least (limit div 2) else limit)"

lemma halve_le: "halve least limit \<le> limit"
  by (auto simp: halve_def)

lemma halve_one: "halve 1 l = l \<Longrightarrow> l \<le> 1"
  by (cases "1 < l") (auto simp: halve_def max_def split: if_splits)

lemma halve_sum_less: "map (halve least) limits \<noteq> limits \<Longrightarrow> sum_list (map (halve least) limits) < sum_list limits"
proof (induction limits)
  case (Cons l ls)
  show ?case
  proof (cases "halve least l = l")
    case True
    then show ?thesis using Cons by simp
  next
    case False
    then have "halve least l < l" using halve_le [of least l] by simp
    moreover have "sum_list (map (halve least) ls) \<le> sum_list ls" by (rule sum_list_mono [of ls "halve least" id, simplified]) (rule halve_le)
    ultimately show ?thesis by simp
  qed
qed simp

text \<open>The loop that keeps prefixes and hashes of at least 96 bytes.\<close>

function shrinkLimits :: "(string \<Rightarrow> string) \<Rightarrow> nat \<Rightarrow> StampedEvent \<Rightarrow> nat list \<Rightarrow> nat list" where
  "shrinkLimits sha maxBytes ev limits =
     (if length (marshalLine (with_limits sha ev limits)) \<le> maxBytes then limits
      else if map (halve 96) limits = limits then limits
      else shrinkLimits sha maxBytes ev (map (halve 96) limits))"
  by pat_completeness auto
termination by (relation "measure (\<lambda>(_, _, _, limits). sum_list limits)") (auto intro: halve_sum_less)

declare shrinkLimits.simps [simp del]

text \<open>The last loop has no exit of its own: it ends only when the line fits.\<close>

partial_function (option) minimizeLine :: "(string \<Rightarrow> string) \<Rightarrow> nat \<Rightarrow> StampedEvent \<Rightarrow> nat list \<Rightarrow> string option" where
  "minimizeLine sha maxBytes ev limits =
     (let line = marshalLine (with_limits sha ev limits) in
      if length line \<le> maxBytes then Some line
      else minimizeLine sha maxBytes ev (map (halve 1) limits))"

definition encodeJSONLRecord :: "(string \<Rightarrow> string) \<Rightarrow> eventSnapshot \<Rightarrow> nat \<Rightarrow> (string \<times> bool \<times> bool) option" where
  "encodeJSONLRecord sha snapshot maxBytes =
     (let (ev, fallback) =
        (case firstFailure (es_extra snapshot) of
           Some failure \<Rightarrow> ((es_event snapshot)\<lparr>ev_Extra := Some [(''telemetry_encode_error'', JString (boundedString sha failure 256))]\<rparr>, True)
         | None \<Rightarrow> ((es_event snapshot)\<lparr>ev_Extra := snapshot_values (es_extra snapshot)\<rparr>, False));
          encoded = marshalLine ev
      in if length encoded \<le> maxBytes then Some (encoded, False, fallback)
         else
           let ev = ev\<lparr>ev_Extra := Some [(''telemetry_oversize'', JBool True),
                  (''telemetry_original_size'', JNumber (itoa (int (length encoded))))]\<rparr>;
               encoded = marshalLine ev
           in if length encoded \<le> maxBytes then Some (encoded, True, fallback)
         else
           let limits = (map length (originals ev))[4 := maxBytes div 4];
               encoded = marshalLine (with_limits sha ev limits)
           in if length encoded \<le> maxBytes then Some (encoded, True, fallback)
         else
           let limits = shrinkLimits sha maxBytes ev limits;
               encoded = marshalLine (with_limits sha ev limits)
           in if length encoded \<le> maxBytes then Some (encoded, True, fallback)
         else map_option (\<lambda>line. (line, True, fallback)) (minimizeLine sha maxBytes (ev\<lparr>ev_Extra := None\<rparr>) limits))"

definition minimumRecordBytes :: nat where "minimumRecordBytes = 512"

section \<open>Sizes\<close>

lemma unicode_escape_length [simp]: "length (unicode_escape r) = 6"
  by (simp add: unicode_escape_def)

lemma encode_rune_length: "length (encode_rune r) \<le> 4"
  by (simp add: encode_rune_def Let_def)

lemma json_rune_length: "length (json_rune s) \<le> 6"
  using encode_rune_length [of "rune_of s"] by (auto simp: json_rune_def Let_def)

lemma json_chars_length: "length (json_chars s) \<le> 6 * length s"
proof (induction s rule: json_chars.induct)
  case (1 s)
  show ?case
  proof (cases "s = []")
    case False
    have "0 < width_of s" "width_of s \<le> length s" using False width_of_le by auto
    moreover have "length (json_chars (drop (width_of s) s)) \<le> 6 * (length s - width_of s)" using 1 [OF False] by simp
    moreover have "length (json_chars s) = length (json_rune s) + length (json_chars (drop (width_of s) s))"
      using False by (subst json_chars.simps) simp
    ultimately show ?thesis using json_rune_length [of s] by linarith
  qed (simp add: json_chars.simps)
qed

lemma json_string_length: "length (json_string s) \<le> 6 * length s + 2"
  using json_chars_length [of s] by (simp add: json_string_def)

lemma digits_nat_length: "0 < k \<Longrightarrow> n < 10 ^ k \<Longrightarrow> length (digits_nat n) \<le> k"
proof (induction n arbitrary: k rule: digits_nat.induct)
  case (1 n)
  show ?case
  proof (cases "n < 10")
    case True
    then show ?thesis using 1 by (simp add: digits_nat.simps)
  next
    case False
    then obtain m where k: "k = Suc m" "0 < m" using 1(2,3) by (cases k; cases "k = 1") auto
    then have "n div 10 < 10 ^ m" using 1(3) by (simp add: less_mult_imp_div_less mult.commute)
    then show ?thesis using 1(1) [OF False, of m] False k by (subst digits_nat.simps) simp
  qed
qed

lemma itoa_length: "- (10 ^ 19) < i \<Longrightarrow> i < 10 ^ 20 \<Longrightarrow> length (itoa i) \<le> 20"
  using digits_nat_length [of 19 "nat (- i)"] digits_nat_length [of 20 "nat i"] by (simp add: itoa_def nat_less_iff)

definition sha_ok :: "(string \<Rightarrow> string) \<Rightarrow> bool" where
  "sha_ok sha \<longleftrightarrow> (\<forall>v. length (sha v) = 64)"

lemma trimInvalid_prefix: "\<exists>k. trimInvalid prefix = take k prefix"
proof (induction prefix rule: trimInvalid.induct)
  case (1 prefix)
  show ?case
  proof (cases "valid_utf8 prefix")
    case True
    then show ?thesis by (metis trimInvalid.simps order_refl take_all)
  next
    case False
    then show ?thesis using 1 by (subst trimInvalid.simps) (auto simp: butlast_conv_take)
  qed
qed

lemma trimInvalid_length: "length (trimInvalid prefix) \<le> length prefix"
  using trimInvalid_prefix [of prefix] by auto

lemma trimInvalid_valid: "valid_utf8 (trimInvalid prefix)"
  by (induction prefix rule: trimInvalid.induct) (subst trimInvalid.simps, simp)

lemma boundedString_length:
  assumes "sha_ok sha"
  shows "length (boundedString sha v limit) \<le> max 1 limit"
  using assms trimInvalid_length [of "take (limit - 74) v"]
  by (auto simp: boundedString_def sha_ok_def Let_def ellipsis_def)

text \<open>Keys of lower-case letters and underscores are written as they are.\<close>

definition plain_key :: "string \<Rightarrow> bool" where
  "plain_key s \<longleftrightarrow> list_all (\<lambda>b. isASCIILower b \<or> b = CHR ''_'') s"

lemma json_string_plain: "plain_key s \<Longrightarrow> json_string s = quote # s @ [quote]"
proof -
  have "plain_key s \<Longrightarrow> json_chars s = s"
  proof (induction s)
    case (Cons b s)
    then have b: "95 \<le> byte_val b" "byte_val b \<le> 122" by (auto simp: plain_key_def isASCIILower_def)
    then have "rune_of (b # s) = byte_val b" "width_of (b # s) = 1" by (simp_all add: decode_rune_ascii)
    then show ?case using b Cons
      by (subst json_chars.simps) (simp add: json_rune_def Let_def encode_rune_ascii plain_key_def RuneError_def)
  qed (simp add: json_chars.simps)
  then show "plain_key s \<Longrightarrow> json_string s = quote # s @ [quote]" by (simp add: json_string_def)
qed

lemma json_field_length: "plain_key key \<Longrightarrow> length (json_field key v) = length key + 3 + length v"
  by (simp add: json_field_def json_string_plain)

lemma event_keys:
  "plain_key ''ts''" "plain_key ''session_id''" "plain_key ''graph_mode''" "plain_key ''tool''" "plain_key ''duration_ms''"
  "plain_key ''result_size''" "plain_key ''truncated''" "plain_key ''stale''" "plain_key ''generation''" "plain_key ''err''"
  by code_simp+

text \<open>The integers of an event at their widths.\<close>

definition event_widths :: "('a) Event_scheme \<Rightarrow> bool" where
  "event_widths ev \<longleftrightarrow> - (2 ^ 63) \<le> ev_DurationMs ev \<and> ev_DurationMs ev < 2 ^ 63 \<and>
     - (2 ^ 63) \<le> ev_ResultSize ev \<and> ev_ResultSize ev < 2 ^ 63"

lemma generation_length: "length (itoa (uint (g :: 64 word))) \<le> 20"
proof (rule itoa_length)
  show "- (10 ^ 19) < uint g" using uint_nonnegative [of g] by (rule less_le_trans [rotated]) simp
  have "uint g < 2 ^ 64" using uint_bounded [of g] by simp
  then show "uint g < 10 ^ 20" by simp
qed

lemma marshalLine_minimal:
  assumes "event_widths ev" "ev_Extra ev = None"
    and "length (ev_SessionID ev) \<le> 1" "length (ev_Tool ev) \<le> 1" "length (ev_GraphMode ev) \<le> 1"
    "length (ev_Timestamp ev) \<le> 1" "length (ev_Err ev) \<le> 1"
  shows "length (marshalLine ev) \<le> 512"
proof -
  have str: "length (json_string v) \<le> 8" if "length v \<le> 1" for v using json_string_length [of v] that by simp
  have ints: "length (itoa (ev_DurationMs ev)) \<le> 20" "length (itoa (ev_ResultSize ev)) \<le> 20"
    using assms(1) by (auto simp: event_widths_def intro!: itoa_length)
  have "length (marshalEvent ev) \<le> 400"
    using assms(3-7) [THEN str] ints generation_length [of "ev_Generation ev"] assms(2)
    by (simp add: marshalEvent_def json_field_length event_keys del: json_text.simps(2)) (simp add: json_field_length event_keys)
  then show ?thesis by (simp add: marshalLine_def)
qed

lemma with_limits_fields [simp]:
  "ev_Extra (with_limits sha ev limits) = ev_Extra ev" "event_widths (with_limits sha ev limits) = event_widths ev"
  by (simp_all add: with_limits_def event_widths_def)

lemma with_limits_minimal:
  assumes "sha_ok sha" "event_widths ev" "ev_Extra ev = None" "length limits = 5" "\<forall>l \<in> set limits. l \<le> 1"
  shows "length (marshalLine (with_limits sha ev limits)) \<le> 512"
proof -
  have b: "length (boundedString sha v (limits ! i)) \<le> 1" if "i < 5" for v i
  proof -
    have "limits ! i \<le> 1" using assms(4,5) that by auto
    then show ?thesis using boundedString_length [OF assms(1), of v "limits ! i"] by simp
  qed
  show ?thesis by (rule marshalLine_minimal) (use assms b in \<open>simp_all add: with_limits_def event_widths_def\<close>)
qed

lemma minimizeLine_returns:
  assumes "sha_ok sha" "event_widths ev" "ev_Extra ev = None" "length limits = 5" "512 \<le> maxBytes"
  shows "\<exists>limits'. minimizeLine sha maxBytes ev limits = Some (marshalLine (with_limits sha ev limits')) \<and>
    length (marshalLine (with_limits sha ev limits')) \<le> maxBytes"
  using assms(4)
proof (induction "sum_list limits" arbitrary: limits rule: less_induct)
  case less
  show ?case
  proof (cases "length (marshalLine (with_limits sha ev limits)) \<le> maxBytes")
    case True
    then show ?thesis by (intro exI [of _ limits]) (simp add: minimizeLine.simps Let_def)
  next
    case False
    have "map (halve 1) limits \<noteq> limits"
    proof
      assume "map (halve 1) limits = limits"
      then have "halve 1 l = l" if "l \<in> set limits" for l using that by (metis map_eq_conv map_idI id_apply list.map_id)
      then have "\<forall>l \<in> set limits. l \<le> 1" using halve_one by blast
      then show False using False with_limits_minimal [OF assms(1,2,3) less.prems] assms(5) by simp
    qed
    from less.hyps [OF halve_sum_less [OF this]] obtain limits' where
      "minimizeLine sha maxBytes ev (map (halve 1) limits) = Some (marshalLine (with_limits sha ev limits'))"
      "length (marshalLine (with_limits sha ev limits')) \<le> maxBytes" using less.prems by auto
    then show ?thesis using False by (intro exI [of _ limits']) (simp add: minimizeLine.simps Let_def)
  qed
qed

section \<open>One line per record\<close>

fun json_ok :: "json \<Rightarrow> bool" where
  "json_ok (JNumber literal) = (newline \<notin> set literal)"
| "json_ok (JArray xs) = list_all json_ok xs"
| "json_ok (JObject kvs) = list_all (\<lambda>kv. json_ok (snd kv)) kvs"
| "json_ok v = True"

lemma json_rune_newline: "newline \<notin> set (json_rune s)"
proof -
  have enc: "32 \<le> r \<Longrightarrow> newline \<notin> set (encode_rune r)" for r
    using encode_rune_nonascii [of r newline] by (cases "r < 0x80") (auto simp: encode_rune_ascii dest: arg_cong [where f = byte_val])
  have esc: "newline \<notin> set (unicode_escape r)" for r
  proof -
    have "hex_digit (d mod 16) \<noteq> newline" for d using hex_digit_inline [of "d mod 16"] by auto
    then show ?thesis by (auto simp: unicode_escape_def dest: sym)
  qed
  have "char_of (34 :: nat) \<noteq> newline" "char_of (92 :: nat) \<noteq> newline" by (auto dest: arg_cong [where f = byte_val])
  then show ?thesis using enc [of "rune_of s"] esc by (auto simp: json_rune_def Let_def RuneError_def)
qed

lemma json_chars_newline: "newline \<notin> set (json_chars s)"
proof (induction s rule: json_chars.induct)
  case (1 s)
  then show ?case using json_rune_newline [of s] by (subst json_chars.simps) simp
qed

lemma json_string_newline [simp]: "newline \<notin> set (json_string s)"
  using json_chars_newline [of s] by (simp add: json_string_def)

lemma json_text_newline:
  "json_ok v \<Longrightarrow> newline \<notin> set (json_text v)"
  "list_all json_ok xs \<Longrightarrow> x \<in> set (json_items xs) \<Longrightarrow> newline \<notin> set x"
  "list_all (\<lambda>kv. json_ok (snd kv)) kvs \<Longrightarrow> (k, x) \<in> set (json_members kvs) \<Longrightarrow> newline \<notin> set x"
  by (induction v and xs and kvs arbitrary: and x and k x rule: json_text_json_items_json_members.induct)
     (auto simp: notin_join)

definition event_ok :: "StampedEvent \<Rightarrow> bool" where
  "event_ok ev \<longleftrightarrow> (\<forall>kvs. ev_Extra ev = Some kvs \<longrightarrow> json_ok (JObject kvs))"

lemma itoa_newline [simp]: "newline \<notin> set (itoa i)"
  using itoa_inline [of i] inline_newline by blast

lemma json_field_newline [simp]: "newline \<in> set (json_field key v) \<longleftrightarrow> newline \<in> set v"
  by (simp add: json_field_def)

lemma marshalEvent_newline:
  assumes "event_ok ev"
  shows "newline \<notin> set (marshalEvent ev)"
proof -
  have "newline \<notin> set (json_text (JObject kvs))" if "ev_Extra ev = Some kvs" for kvs
    using assms that json_text_newline(1) unfolding event_ok_def by blast
  then show ?thesis
    by (auto simp: marshalEvent_def notin_join simp del: json_text.simps(6) split: option.splits)
qed

section \<open>Properties\<close>

definition snapshot_ok :: "eventSnapshot \<Rightarrow> bool" where
  "snapshot_ok snapshot \<longleftrightarrow>
     (\<forall>entries. es_extra snapshot = Some entries \<longrightarrow> (\<forall>(key, e) \<in> set entries. \<forall>v. e = Inr v \<longrightarrow> json_ok v))"

text \<open>What every outcome of the capping is: the line of some event that carries the integers of the
  original and no newline.\<close>

lemma with_limits_ok [simp]: "event_ok (with_limits sha ev limits) = event_ok ev"
  by (simp add: event_ok_def)

lemma shrinkLimits_length: "length (shrinkLimits sha maxBytes ev limits) = length limits"
  by (induction sha maxBytes ev limits rule: shrinkLimits.induct) (subst shrinkLimits.simps, simp)

lemma first_event_ok:
  assumes "snapshot_ok snapshot"
  shows "event_ok ((es_event snapshot)\<lparr>ev_Extra := snapshot_values (es_extra snapshot)\<rparr>)"
  using assms
  by (fastforce simp: snapshot_ok_def event_ok_def snapshot_values_def list_all_iff List.map_filter_def split: sum.splits)

lemma marshalEvent_nonempty: "marshalEvent e \<noteq> []"
  by (simp add: marshalEvent_def)

lemma encodeJSONLRecord_line:
  assumes "sha_ok sha" "event_widths (es_event snapshot)" "snapshot_ok snapshot" "minimumRecordBytes \<le> maxBytes"
  shows "\<exists>body oversize fallback. encodeJSONLRecord sha snapshot maxBytes = Some (body @ [newline], oversize, fallback) \<and>
    body \<noteq> [] \<and> newline \<notin> set body \<and> length (body @ [newline]) \<le> maxBytes"
proof -
  define first where "first = (case firstFailure (es_extra snapshot) of
      Some failure \<Rightarrow> ((es_event snapshot)\<lparr>ev_Extra := Some [(''telemetry_encode_error'', JString (boundedString sha failure 256))]\<rparr>, True)
    | None \<Rightarrow> ((es_event snapshot)\<lparr>ev_Extra := snapshot_values (es_extra snapshot)\<rparr>, False))"
  obtain ev fallback where ev: "first = (ev, fallback)" by (cases first)
  have ok: "event_ok ev" "event_widths ev"
    using ev first_event_ok [OF assms(3)] assms(2) unfolding first_def
    by (auto simp: event_ok_def event_widths_def split: option.splits)
  define ev' where "ev' = ev\<lparr>ev_Extra := Some [(''telemetry_oversize'', JBool True),
    (''telemetry_original_size'', JNumber (itoa (int (length (marshalLine ev)))))]\<rparr>"
  have ok': "event_ok ev'" "event_widths ev'" using ok by (simp_all add: ev'_def event_ok_def event_widths_def)
  define limits where "limits = shrinkLimits sha maxBytes ev' ((map length (originals ev'))[4 := maxBytes div 4])"
  have len: "length limits = 5" by (simp add: limits_def shrinkLimits_length originals_def)
  have last: "\<exists>limits'. minimizeLine sha maxBytes (ev'\<lparr>ev_Extra := None\<rparr>) limits =
        Some (marshalLine (with_limits sha (ev'\<lparr>ev_Extra := None\<rparr>) limits')) \<and>
      length (marshalLine (with_limits sha (ev'\<lparr>ev_Extra := None\<rparr>) limits')) \<le> maxBytes"
    by (rule minimizeLine_returns) (use assms ok' len in \<open>simp_all add: event_widths_def minimumRecordBytes_def\<close>)
  have "event_ok (ev'\<lparr>ev_Extra := None\<rparr>)" by (simp add: event_ok_def)
  have lines: "newline \<notin> set (marshalEvent e)" if "e \<in> {ev, ev'} \<union> range (with_limits sha ev') \<union> range (with_limits sha (ev'\<lparr>ev_Extra := None\<rparr>))" for e
  proof -
    have "event_ok e" using that ok(1) ok'(1) \<open>event_ok (ev'\<lparr>ev_Extra := None\<rparr>)\<close> by auto
    then show ?thesis by (rule marshalEvent_newline)
  qed
  have "\<exists>e oversize. encodeJSONLRecord sha snapshot maxBytes = Some (marshalLine e, oversize, fallback) \<and>
      length (marshalLine e) \<le> maxBytes \<and> e \<in> {ev, ev'} \<union> range (with_limits sha ev') \<union> range (with_limits sha (ev'\<lparr>ev_Extra := None\<rparr>))"
    using last ev unfolding encodeJSONLRecord_def first_def [symmetric] Let_def limits_def ev'_def
    by (auto split: if_splits)
  then show ?thesis using lines marshalEvent_nonempty unfolding marshalLine_def by blast
qed

text \<open>C17: whatever an event carries, a record is one line of at most \<open>maxBytes\<close> bytes: for every limit that
  the logger accepts the encoding returns, although its last loop has no exit of its own.\<close>

theorem encodeJSONLRecord_bounded:
  assumes "sha_ok sha" "event_widths (es_event snapshot)" "snapshot_ok snapshot" "minimumRecordBytes \<le> maxBytes"
  shows "\<exists>body oversize fallback. encodeJSONLRecord sha snapshot maxBytes = Some (body @ [newline], oversize, fallback) \<and>
    newline \<notin> set body \<and> length (body @ [newline]) \<le> maxBytes"
  using encodeJSONLRecord_line [OF assms] by blast

definition huge_event :: StampedEvent where
  "huge_event = \<lparr>ev_SessionID = ''s'', ev_GraphMode = ''graph'', ev_Tool = ''get_outline'', ev_DurationMs = 1, ev_ResultSize = 0,
     ev_Truncated = False, ev_Stale = False, ev_Generation = 1, ev_Err = replicate 100000 (CHR ''<''), ev_Timestamp = ''now'', ev_Extra = None\<rparr>"

theorem encodeJSONLRecord_bounded_witness:
  "\<exists>body oversize fallback. encodeJSONLRecord (\<lambda>_. replicate 64 (CHR ''0'')) \<lparr>es_event = huge_event, es_extra = Some [(''k'', Inl ''cycle'')]\<rparr> 512 =
      Some (body @ [newline], oversize, fallback) \<and> newline \<notin> set body \<and> length (body @ [newline]) \<le> 512"
  by (rule encodeJSONLRecord_bounded)
     (simp_all add: sha_ok_def event_widths_def snapshot_ok_def minimumRecordBytes_def huge_event_def)

end
