(* ===== verification/Transition_Systems.thy ===== *)
theory Transition_Systems
  imports Portolan_Prelude
begin

text \<open>
  The interfaces through which the concurrent components are verified. A component is a step
  relation on a state type; a safety argument is an inductive invariant, a liveness argument
  a measure that every step decreases together with a proof that unfinished states can step.
\<close>

locale inductive_invariant =
  fixes init :: "'s \<Rightarrow> bool" and step :: "'s \<Rightarrow> 's \<Rightarrow> bool" and inv :: "'s \<Rightarrow> bool"
  assumes inv_init: "init s \<Longrightarrow> inv s"
    and inv_step: "inv s \<Longrightarrow> step s s' \<Longrightarrow> inv s'"
begin

lemma inv_run:
  assumes "step\<^sup>*\<^sup>* s s'" "inv s"
  shows "inv s'"
  using assms by (induction rule: rtranclp_induct) (auto intro: inv_step)

lemma inv_reachable: "init s \<Longrightarrow> step\<^sup>*\<^sup>* s s' \<Longrightarrow> inv s'"
  by (blast intro: inv_run inv_init)

end

text \<open>
  A system that always finishes: unfinished states that satisfy the invariant can step, and a
  measure decreases with every step.
\<close>

locale finishing_system = inductive_invariant init step inv
  for init :: "'s \<Rightarrow> bool" and step :: "'s \<Rightarrow> 's \<Rightarrow> bool" and inv :: "'s \<Rightarrow> bool" +
  fixes finished :: "'s \<Rightarrow> bool" and size_of :: "'s \<Rightarrow> nat"
  assumes progress: "inv s \<Longrightarrow> \<not> finished s \<Longrightarrow> \<exists>s'. step s s'"
    and decrease: "inv s \<Longrightarrow> step s s' \<Longrightarrow> size_of s' < size_of s"
begin

lemma finishes: "inv s \<Longrightarrow> \<exists>s'. step\<^sup>*\<^sup>* s s' \<and> finished s'"
proof (induction "size_of s" arbitrary: s rule: less_induct)
  case less
  show ?case
  proof (cases "finished s")
    case False
    then obtain s1 where s1: "step s s1" using progress less.prems by blast
    then obtain s2 where "step\<^sup>*\<^sup>* s1 s2" "finished s2"
      using less.hyps [OF decrease inv_step] less.prems s1 by blast
    with s1 show ?thesis by (meson converse_rtranclp_into_rtranclp)
  qed blast
qed

lemma no_infinite_run:
  assumes "inv (f 0)"
  shows "\<not> (\<forall>i :: nat. step (f i) (f (Suc i)))"
proof
  assume run: "\<forall>i :: nat. step (f i) (f (Suc i))"
  have inv: "inv (f i)" for i by (induction i) (use assms run inv_step in blast)+
  have "size_of (f i) + i \<le> size_of (f 0)" for i
  proof (induction i)
    case (Suc i)
    moreover have "size_of (f (Suc i)) < size_of (f i)" using run inv decrease by blast
    ultimately show ?case by linarith
  qed simp
  from this [of "Suc (size_of (f 0))"] show False by simp
qed

end

end
