(* ===== verification/Telemetry_Tee.thy ===== *)
theory Telemetry_Tee
  imports Telemetry_Record Transition_Systems "HOL-Library.Multiset" "HOL-Library.Sublist"
begin

text \<open>
  The fan-out of events (\<^verbatim>\<open>src/internal/telemetry/tee.go\<close>, \<^verbatim>\<open>snapshot.go\<close>, \<^verbatim>\<open>deadline.go\<close>, \<^verbatim>\<open>telemetry.go\<close>): which form of an
  event each sink gets, the composite shutdown as a step relation in which sinks end in any order or
  never and the deadline may pass at any moment, and the construction of the sinks from the
  configuration, whose outcomes are parameters.
\<close>

section \<open>Fan-out\<close>

text \<open>\<^verbatim>\<open>cloneSnapshotValue\<close> builds a new value for every map and list.\<close>

fun cloneSnapshotValue :: "json \<Rightarrow> json" and cloneItems :: "json list \<Rightarrow> json list" and
  cloneMembers :: "(string \<times> json) list \<Rightarrow> (string \<times> json) list" where
  "cloneSnapshotValue (JObject kvs) = JObject (cloneMembers kvs)"
| "cloneSnapshotValue (JArray xs) = JArray (cloneItems xs)"
| "cloneSnapshotValue v = v"
| "cloneItems [] = []"
| "cloneItems (x # xs) = cloneSnapshotValue x # cloneItems xs"
| "cloneMembers [] = []"
| "cloneMembers ((k, v) # kvs) = (k, cloneSnapshotValue v) # cloneMembers kvs"

lemma clone_same [simp]: "cloneSnapshotValue v = v" "cloneItems xs = xs" "cloneMembers kvs = kvs"
  by (induction v and xs and kvs rule: cloneSnapshotValue_cloneItems_cloneMembers.induct) simp_all

datatype extra_value = snapshotFailure string | Detached json

text \<open>The plain event that a sink without snapshots gets: its fields and the values of its extra map.\<close>

definition eventValue :: "eventSnapshot \<Rightarrow> StampedEvent \<times> (string \<times> extra_value) list option" where
  "eventValue s = (es_event s, map_option (map (\<lambda>(key, entry). (key, case entry of
      Inl failure \<Rightarrow> snapshotFailure failure
    | Inr v \<Rightarrow> Detached (cloneSnapshotValue v)))) (es_extra s))"

datatype sink = SnapshotSink | PlainSink

datatype delivery =
    DeliveredSnapshot eventSnapshot
  | DeliveredEvent "StampedEvent \<times> (string \<times> extra_value) list option"

definition dispatchSnapshot :: "sink \<Rightarrow> eventSnapshot \<Rightarrow> delivery" where
  "dispatchSnapshot logger s = (case logger of
     SnapshotSink \<Rightarrow> DeliveredSnapshot s
   | PlainSink \<Rightarrow> DeliveredEvent (eventValue s))"

definition Tee :: "sink option list \<Rightarrow> sink list" where
  "Tee loggers = List.map_filter id loggers"

definition tee_logSnapshot :: "sink list \<Rightarrow> eventSnapshot \<Rightarrow> delivery list" where
  "tee_logSnapshot loggers s = map (\<lambda>logger. dispatchSnapshot logger s) loggers"

text \<open>What a delivery says about the event, whichever form it has.\<close>

fun content :: "delivery \<Rightarrow> StampedEvent \<times> (string \<times> (string + json)) list option" where
  "content (DeliveredSnapshot s) = (es_event s, es_extra s)"
| "content (DeliveredEvent (ev, extra)) = (ev, map_option (map (\<lambda>(key, entry). (key, case entry of
      snapshotFailure failure \<Rightarrow> Inl failure
    | Detached v \<Rightarrow> Inr v))) extra)"

lemma content_dispatch: "content (dispatchSnapshot logger s) = (es_event s, es_extra s)"
  by (cases logger)
    (auto simp: dispatchSnapshot_def eventValue_def option.map_comp o_def case_prod_beta split: sum.splits intro!: option.map_ident_strong list.map_ident_strong)

text \<open>Every non-nil sink gets every event once, in order, with the same content.\<close>

lemma tee_delivers:
  "map content (tee_logSnapshot (Tee loggers) s) = replicate (length (filter (\<lambda>l. l \<noteq> None) loggers)) (es_event s, es_extra s)"
  by (induction loggers) (auto simp: tee_logSnapshot_def Tee_def content_dispatch List.map_filter_simps split: option.splits)

section \<open>Composite shutdown\<close>

datatype tee_pc = TeeChecking | TeeReceiving | TeeReceived | TeeReturned

record tee_close =
  te_running :: "nat list"
  te_results :: "(nat \<times> string option) list"
  te_late :: bool
  te_pc :: tee_pc
  te_left :: nat
  te_collected :: "(nat \<times> string option) list"
  te_timeout :: bool
  te_ended :: "(nat \<times> string option) list"

text \<open>\<open>te_late\<close>: the deadline has been reached; \<open>te_ended\<close> is the history of all results.\<close>

definition tee_Close :: "nat \<Rightarrow> tee_close" where
  "tee_Close n = \<lparr>te_running = [0..<n], te_results = [], te_late = False, te_pc = TeeChecking, te_left = n,
     te_collected = [], te_timeout = False, te_ended = []\<rparr>"

definition sinkCloses :: "nat \<Rightarrow> string option \<Rightarrow> tee_close \<Rightarrow> tee_close" where
  "sinkCloses k result s = s\<lparr>te_running := remove1 k (te_running s), te_results := te_results s @ [(k, result)],
     te_ended := te_ended s @ [(k, result)]\<rparr>"

definition timedOut :: "tee_close \<Rightarrow> tee_close" where
  "timedOut s = s\<lparr>te_timeout := True, te_pc := TeeReturned\<rparr>"

text \<open>\<^verbatim>\<open>errors.Join\<close> leaves out the sinks that closed without an error.\<close>

definition closeResult :: "tee_close \<Rightarrow> string list" where
  "closeResult s = List.map_filter snd (te_collected s) @ (if te_timeout s then [''telemetry: composite shutdown timeout''] else [])"

text \<open>
  A receive takes a result that is there even after the deadline; at the very instant of the deadline
  the loop may go on, later it breaks.
\<close>

inductive tee_step :: "tee_close \<Rightarrow> tee_close \<Rightarrow> bool" where
  sink_closes: "k \<in> set (te_running s) \<Longrightarrow> tee_step s (sinkCloses k result s)"
| deadline_passes: "\<not> te_late s \<Longrightarrow> tee_step s (s\<lparr>te_late := True\<rparr>)"
| loop_ends: "te_pc s = TeeChecking \<Longrightarrow> te_left s = 0 \<Longrightarrow> tee_step s (s\<lparr>te_pc := TeeReturned\<rparr>)"
| check_late: "te_pc s = TeeChecking \<Longrightarrow> 0 < te_left s \<Longrightarrow> te_late s \<Longrightarrow> tee_step s (timedOut s)"
| check_ok: "te_pc s = TeeChecking \<Longrightarrow> 0 < te_left s \<Longrightarrow> \<not> te_late s \<Longrightarrow> tee_step s (s\<lparr>te_pc := TeeReceiving\<rparr>)"
| receive: "te_pc s = TeeReceiving \<Longrightarrow> te_results s = r # rest \<Longrightarrow>
    tee_step s (s\<lparr>te_pc := TeeReceived, te_results := rest, te_collected := te_collected s @ [r]\<rparr>)"
| receive_late: "te_pc s = TeeReceiving \<Longrightarrow> te_late s \<Longrightarrow> tee_step s (timedOut s)"
| goes_on: "te_pc s = TeeReceived \<Longrightarrow> tee_step s (s\<lparr>te_pc := TeeChecking, te_left := te_left s - 1\<rparr>)"
| breaks: "te_pc s = TeeReceived \<Longrightarrow> te_late s \<Longrightarrow> tee_step s (s\<lparr>te_pc := TeeReturned\<rparr>)"

text \<open>No sink ends: the steps of the composite alone.\<close>

inductive hung_step :: "tee_close \<Rightarrow> tee_close \<Rightarrow> bool" where
  "tee_step s s' \<Longrightarrow> te_ended s' = te_ended s \<Longrightarrow> hung_step s s'"

definition tee_inv :: "nat \<Rightarrow> tee_close \<Rightarrow> bool" where
  "tee_inv n s \<longleftrightarrow> mset (te_running s) + mset (map fst (te_ended s)) = mset [0..<n] \<and>
     te_ended s = te_collected s @ te_results s \<and>
     (te_pc s \<noteq> TeeReturned \<longrightarrow> te_left s + length (te_collected s) = n + (if te_pc s = TeeReceived then 1 else 0) \<and> \<not> te_timeout s) \<and>
     (te_pc s = TeeReceiving \<or> te_pc s = TeeReceived \<longrightarrow> 0 < te_left s) \<and>
     (te_pc s = TeeReturned \<longrightarrow> te_late s \<or> length (te_collected s) = n) \<and> (te_timeout s \<longrightarrow> te_late s)"

lemma tee_inv_start: "tee_inv n (tee_Close n)"
  by (simp add: tee_inv_def tee_Close_def)

lemma tee_inv_step:
  assumes "tee_step s s'" "tee_inv n s"
  shows "tee_inv n s'"
  using assms
  by (induction rule: tee_step.induct) (auto simp: tee_inv_def timedOut_def sinkCloses_def split: if_splits)

definition tee_size :: "tee_close \<Rightarrow> nat" where
  "tee_size s = length (te_running s) + (if te_late s then 0 else 1) + 4 * te_left s +
     (case te_pc s of TeeChecking \<Rightarrow> 3 | TeeReceiving \<Rightarrow> 2 | TeeReceived \<Rightarrow> 1 | TeeReturned \<Rightarrow> 0)"

lemma tee_step_decreases:
  assumes "tee_step s s'" "tee_inv n s"
  shows "tee_size s' < tee_size s"
  using assms
proof (induction rule: tee_step.induct)
  case (sink_closes k s result)
  then show ?case using length_pos_if_in_set [OF sink_closes(1)] by (simp add: tee_size_def sinkCloses_def length_remove1)
qed (auto simp: tee_size_def tee_inv_def timedOut_def)

abbreviation (input) "tee_returned s \<equiv> te_pc s = TeeReturned"

lemma hung_progress:
  assumes "\<not> tee_returned s"
  shows "\<exists>s'. hung_step s s'"
proof -
  have "\<exists>s'. tee_step s s' \<and> te_ended s' = te_ended s"
  proof (cases "te_pc s")
    case TeeChecking
    then show ?thesis
      using tee_step.loop_ends [of s] tee_step.check_late [of s] tee_step.check_ok [of s]
      by (cases "te_left s = 0"; cases "te_late s") (auto simp: timedOut_def)
  next
    case TeeReceiving
    then show ?thesis using tee_step.receive_late [of s] tee_step.deadline_passes [of s]
      by (cases "te_late s") (auto simp: timedOut_def)
  next
    case TeeReceived
    then show ?thesis using tee_step.goes_on [of s] by auto
  qed (use assms in simp)
  then show ?thesis by (blast intro: hung_step.intros)
qed

interpretation tee_closing: finishing_system "\<lambda>s. s = tee_Close n" tee_step "tee_inv n" tee_returned tee_size for n :: nat
proof unfold_locales
  fix s s' :: tee_close
  show "s = tee_Close n \<Longrightarrow> tee_inv n s" by (simp add: tee_inv_start)
  show "tee_inv n s \<Longrightarrow> tee_step s s' \<Longrightarrow> tee_inv n s'" by (rule tee_inv_step)
  show "tee_inv n s \<Longrightarrow> \<not> tee_returned s \<Longrightarrow> \<exists>s'. tee_step s s'" using hung_progress by (blast elim: hung_step.cases)
  show "tee_inv n s \<Longrightarrow> tee_step s s' \<Longrightarrow> tee_size s' < tee_size s" by (rule tee_step_decreases)
qed

interpretation tee_hung: finishing_system "\<lambda>s. s = tee_Close n" hung_step "tee_inv n" tee_returned tee_size for n :: nat
proof unfold_locales
  fix s s' :: tee_close
  show "s = tee_Close n \<Longrightarrow> tee_inv n s" by (simp add: tee_inv_start)
  show "tee_inv n s \<Longrightarrow> hung_step s s' \<Longrightarrow> tee_inv n s'" by (auto elim!: hung_step.cases intro: tee_inv_step)
  show "tee_inv n s \<Longrightarrow> \<not> tee_returned s \<Longrightarrow> \<exists>s'. hung_step s s'" by (rule hung_progress)
  show "tee_inv n s \<Longrightarrow> hung_step s s' \<Longrightarrow> tee_size s' < tee_size s" by (auto elim!: hung_step.cases intro: tee_step_decreases)
qed

lemma tee_inv_all_ended:
  assumes "tee_inv n s" "length (te_collected s) = n"
  shows "te_running s = [] \<and> te_results s = []"
proof -
  have "length (te_running s) + length (te_ended s) = n"
    using assms(1) unfolding tee_inv_def by (metis length_map length_upt minus_nat.diff_0 size_mset size_union)
  then show ?thesis using assms by (simp add: tee_inv_def)
qed

text \<open>
  The break after a receive adds no error of its own: when the deadline passes between a receive and the
  check behind it, the shutdown reports success although a sink has not closed.
\<close>

lemma tee_silent_break:
  "\<exists>s. tee_step\<^sup>*\<^sup>* (tee_Close 2) s \<and> tee_returned s \<and> te_running s = [1] \<and> closeResult s = []"
proof -
  let ?s1 = "(tee_Close 2)\<lparr>te_pc := TeeReceiving\<rparr>"
  let ?s2 = "sinkCloses 0 None ?s1"
  let ?s3 = "?s2\<lparr>te_pc := TeeReceived, te_results := [], te_collected := [(0, None)]\<rparr>"
  let ?s4 = "?s3\<lparr>te_late := True\<rparr>"
  let ?s5 = "?s4\<lparr>te_pc := TeeReturned\<rparr>"
  have two: "[0..<2] = [0, Suc 0]" by (simp add: upt_rec)
  have a: "tee_step (tee_Close 2) ?s1" using tee_step.check_ok [of "tee_Close 2"] by (simp add: tee_Close_def)
  have b: "tee_step ?s1 ?s2" by (rule tee_step.sink_closes) (simp add: tee_Close_def)
  have c: "tee_step ?s2 ?s3" using tee_step.receive [of ?s2 "(0, None)" "[]"] by (simp add: tee_Close_def sinkCloses_def)
  have d: "tee_step ?s3 ?s4" using tee_step.deadline_passes [of ?s3] by (simp add: tee_Close_def sinkCloses_def)
  have e: "tee_step ?s4 ?s5" using tee_step.breaks [of ?s4] by (simp add: tee_Close_def sinkCloses_def)
  have "tee_step\<^sup>*\<^sup>* (tee_Close 2) ?s5"
    by (rule converse_rtranclp_into_rtranclp [of tee_step, OF a], rule converse_rtranclp_into_rtranclp [of tee_step, OF b],
        rule converse_rtranclp_into_rtranclp [of tee_step, OF c], rule converse_rtranclp_into_rtranclp [of tee_step, OF d],
        rule r_into_rtranclp [of tee_step, OF e])
  moreover have "te_running ?s5 = [1]" "closeResult ?s5 = []"
    by (simp_all add: tee_Close_def sinkCloses_def closeResult_def List.map_filter_simps two)
  ultimately show ?thesis by fastforce
qed

section \<open>Construction\<close>

datatype telemetry_part = JsonlSink | Exporter | OtelSink

record sink_outcomes =
  so_getenv :: "string \<Rightarrow> string"
  so_jsonl :: "string option"
  so_exporter :: "string option"
  so_otel :: "string option"
  so_closeJsonl :: "string option"
  so_shutdownExporter :: "string option"

definition otlpEndpointConfigured :: "(string \<Rightarrow> string) \<Rightarrow> bool" where
  "otlpEndpointConfigured getenv \<longleftrightarrow> trim_space (getenv ''OTEL_EXPORTER_OTLP_TRACES_ENDPOINT'') \<noteq> [] \<or>
     trim_space (getenv ''OTEL_EXPORTER_OTLP_ENDPOINT'') \<noteq> []"

definition joined :: "string option list \<Rightarrow> string list" where
  "joined errs = List.map_filter id errs"

text \<open>The result, the parts that were opened and those closed again; an exporter is handed to the mirror.\<close>

definition FromConfig :: "sink_outcomes \<Rightarrow> (string list + telemetry_part list) \<times> telemetry_part list \<times> telemetry_part list" where
  "FromConfig oc =
     (case so_jsonl oc of
        Some err \<Rightarrow> (Inl [err], [], [])
      | None \<Rightarrow>
          if otlpEndpointConfigured (so_getenv oc) then
            (case so_exporter oc of
               Some err \<Rightarrow> (Inl (joined [Some (''telemetry: create OTLP/HTTP exporter: '' @ err), so_closeJsonl oc]), [JsonlSink], [JsonlSink])
             | None \<Rightarrow>
                 (case so_otel oc of
                    Some err \<Rightarrow> (Inl (joined [Some err, so_shutdownExporter oc, so_closeJsonl oc]),
                      [JsonlSink, Exporter], [Exporter, JsonlSink])
                  | None \<Rightarrow> (Inr [JsonlSink, OtelSink], [JsonlSink, Exporter], [])))
          else (Inr [JsonlSink], [JsonlSink], []))"

text \<open>A failed start closes what it opened, last first, and says why; a start without failure keeps all of it, and
  mirrors only to an endpoint that is configured.\<close>

lemma FromConfig_cases:
  "case FromConfig oc of (result, opened, closed) \<Rightarrow>
     (case result of
        Inl errs \<Rightarrow> closed = rev opened \<and> errs \<noteq> []
      | Inr sinks \<Rightarrow> closed = [] \<and> JsonlSink \<in> set sinks \<and> (OtelSink \<in> set sinks \<longleftrightarrow> otlpEndpointConfigured (so_getenv oc)) \<and>
          (OtelSink \<in> set sinks \<longrightarrow> Exporter \<in> set opened))"
  by (auto simp: FromConfig_def joined_def List.map_filter_simps split: option.splits)

section \<open>Properties\<close>

text \<open>C31: the composite shutdown returns in every run, even when no sink ever closes; the results it collects are those
  of different sinks in the order in which they ended; and before the deadline it returns only
  when every sink has closed and every result is collected.\<close>

theorem tee_close_returns:
  assumes "tee_step\<^sup>*\<^sup>* (tee_Close n) s"
  shows "mset (te_running s) + mset (map fst (te_ended s)) = mset [0..<n] \<and> prefix (te_collected s) (te_ended s) \<and>
    (te_timeout s \<longrightarrow> te_late s) \<and>
    (tee_returned s \<and> \<not> te_late s \<longrightarrow> te_running s = [] \<and> te_collected s = te_ended s) \<and>
    (\<exists>s'. hung_step\<^sup>*\<^sup>* s s' \<and> tee_returned s' \<and> te_ended s' = te_ended s) \<and>
    \<not> (\<exists>f. f 0 = s \<and> (\<forall>i. tee_step (f i) (f (Suc i))))"
proof -
  have inv: "tee_inv n s" by (rule tee_closing.inv_reachable [OF refl assms])
  obtain s' where s': "hung_step\<^sup>*\<^sup>* s s'" "tee_returned s'" using tee_hung.finishes [OF inv] by blast
  have "te_ended s' = te_ended s" using s'(1) by (induction rule: rtranclp_induct) (auto elim: hung_step.cases)
  moreover have "\<not> (\<exists>f. f 0 = s \<and> (\<forall>i. tee_step (f i) (f (Suc i))))" using tee_closing.no_infinite_run inv by blast
  moreover have "tee_returned s \<and> \<not> te_late s \<longrightarrow> te_running s = [] \<and> te_collected s = te_ended s"
    using tee_inv_all_ended [OF inv] inv by (auto simp: tee_inv_def)
  ultimately show ?thesis using inv s' unfolding tee_inv_def by auto
qed

section \<open>Witnesses\<close>

theorem tee_close_returns_witness:
  "\<exists>s. hung_step\<^sup>*\<^sup>* (tee_Close 2) s \<and> tee_returned s \<and> te_ended s = []"
  using tee_close_returns [OF rtranclp.rtrancl_refl, of 2] by (auto simp: tee_Close_def)

end
