(* ===== verification/Control_Socket.thy ===== *)
theory Control_Socket
  imports Core_Types Transition_Systems
begin

text \<open>
  The control socket (\<^verbatim>\<open>src/internal/mcp/control.go\<close>, \<^verbatim>\<open>control_lifecycle.go\<close>): the newline-delimited
  commands, the handlers that serve connections over one shared generation counter, the accept
  loop and the shutdown. Handlers, accept loop and shutdown interleave as a step relation. What a
  client sends, and whether it ever hangs up, is part of the initial state; a client that never
  hangs up keeps its handler blocked in \<^verbatim>\<open>Scan\<close> until the socket closes the connection.
\<close>

section \<open>Commands\<close>

text \<open>\<^verbatim>\<open>strings.Fields\<close>: the maximal runs of runes that are not white space.\<close>

function fieldsWalk :: "string \<Rightarrow> string \<Rightarrow> string list" where
  "fieldsWalk field s =
     (if s = [] then (if field = [] then [] else [field])
      else if isSpace (rune_of s)
        then (if field = [] then [] else [field]) @ fieldsWalk [] (drop (width_of s) s)
      else fieldsWalk (field @ take (width_of s) s) (drop (width_of s) s))"
  by pat_completeness auto
termination
  by (relation "measure (length \<circ> snd)") auto

declare fieldsWalk.simps [simp del]

definition go_Fields :: "string \<Rightarrow> string list" where
  "go_Fields s = fieldsWalk [] s"

text \<open>The reply to a command, and whether it bumps the generation.\<close>

definition isSync :: "string \<Rightarrow> bool" where
  "isSync line \<longleftrightarrow> (case go_Fields line of [] \<Rightarrow> False | command # _ \<Rightarrow> command = ''sync'')"

definition okGeneration :: "64 word \<Rightarrow> string" where
  "okGeneration n = ''ok generation='' @ itoa (uint n) @ [newline]"

definition errUnknown :: string where
  "errUnknown = ''err unknown'' @ [newline]"

definition handleCommand :: "string \<Rightarrow> GenerationCounter \<Rightarrow> string \<times> GenerationCounter" where
  "handleCommand line g =
     (case go_Fields line of
        [] \<Rightarrow> (errUnknown, g)
      | command # _ \<Rightarrow>
          if command = ''sync'' then (case Bump g of (n, g') \<Rightarrow> (okGeneration n, g')) else (errUnknown, g))"

text \<open>
  \<^verbatim>\<open>bufio.Scanner\<close> with \<^verbatim>\<open>ScanLines\<close>: the next line of the bytes received so far, without its
  line end. A line that fills the buffer of 64 KiB stops the scanner for good; without a line end
  the scanner waits for more bytes until the stream has ended.
\<close>

datatype scan = Token string string | NeedMore | Stop

definition maxScanTokenSize :: nat where "maxScanTokenSize = 65536"

definition dropCR :: "string \<Rightarrow> string" where
  "dropCR s = (if s \<noteq> [] \<and> last s = CHR 0x0D then butlast s else s)"

definition scanToken :: "bool \<Rightarrow> string \<Rightarrow> scan" where
  "scanToken atEOF received =
     (let line = takeWhile (\<lambda>b. b \<noteq> newline) received in
      if maxScanTokenSize \<le> length line then Stop
      else if length line < length received then Token (dropCR line) (drop (Suc (length line)) received)
      else if \<not> atEOF then NeedMore
      else if received = [] then Stop
      else Token (dropCR line) [])"

section \<open>State\<close>

text \<open>
  A connection: the bytes of its client that are still unread, whether the client keeps it open,
  whether the socket closed it before its handler was done, and where the handler stands. The
  last four fields are histories: all that the client sends, the commands handled so far, the
  replies to them, and whether a reply could not be written.
\<close>

datatype handler_pc = Classifying | Handling | Leaving | Finished | Refused

record conn =
  cn_authorized :: bool
  cn_input :: string
  cn_hangs :: bool
  cn_closed :: bool
  cn_pc :: handler_pc
  cn_stream :: string
  cn_lines :: "string list"
  cn_replies :: "string list"
  cn_failed :: bool

datatype accept_pc = Accepting | Admitted nat | AcceptDone

datatype shutdown_pc = Serving | ListenerClosed | ShutdownDone

record control =
  cs_gen :: GenerationCounter
  cs_shuttingDown :: bool
  cs_connections :: "nat set"
  cs_accept :: accept_pc
  cs_shutdown :: shutdown_pc
  cs_backlog :: "conn list"
  cs_conns :: "conn list"
  cs_bumps :: "(nat \<times> 64 word) list"

definition client :: "bool \<Rightarrow> bool \<Rightarrow> string \<Rightarrow> conn" where
  "client authorized hangs input = \<lparr>cn_authorized = authorized, cn_input = input, cn_hangs = hangs, cn_closed = False,
     cn_pc = Classifying, cn_stream = input, cn_lines = [], cn_replies = [], cn_failed = False\<rparr>"

definition NewControlSocket :: "GenerationCounter \<Rightarrow> (bool \<times> bool \<times> string) list \<Rightarrow> control" where
  "NewControlSocket g clients =
     \<lparr>cs_gen = g, cs_shuttingDown = False, cs_connections = {}, cs_accept = Accepting, cs_shutdown = Serving,
      cs_backlog = map (\<lambda>(a, h, input). client a h input) clients, cs_conns = [], cs_bumps = []\<rparr>"

section \<open>Operations\<close>

definition set_conn :: "nat \<Rightarrow> conn \<Rightarrow> control \<Rightarrow> control" where
  "set_conn i cn s = s\<lparr>cs_conns := (cs_conns s)[i := cn]\<rparr>"

text \<open>The end of the stream as the scanner sees it: the client hung up or this side closed the connection.\<close>

definition at_eof :: "conn \<Rightarrow> bool" where
  "at_eof cn \<longleftrightarrow> cn_closed cn \<or> \<not> cn_hangs cn"

text \<open>One command of \<^verbatim>\<open>handleConn\<close>: the reply and the counter; a bump is recorded with its connection.\<close>

definition runCommand :: "nat \<Rightarrow> string \<Rightarrow> string \<Rightarrow> bool \<Rightarrow> control \<Rightarrow> control" where
  "runCommand i line rest writeErr s =
     (let cn = cs_conns s ! i; (reply, g) = handleCommand line (cs_gen s) in
      set_conn i (cn\<lparr>cn_input := rest, cn_pc := (if writeErr then Leaving else Handling),
          cn_lines := cn_lines cn @ [line], cn_replies := cn_replies cn @ [reply], cn_failed := writeErr\<rparr>)
        (s\<lparr>cs_gen := g, cs_bumps := cs_bumps s @ (if isSync line then [(i, g)] else [])\<rparr>))"

text \<open>
  The critical section of \<^verbatim>\<open>beginShutdown\<close>: no new connection is served from here on, and the
  served ones are closed. A closed connection gives its reader at most the bytes that had arrived.
\<close>

definition closeConn :: "nat \<Rightarrow> conn \<Rightarrow> conn" where
  "closeConn arrived cn = cn\<lparr>cn_closed := True, cn_input := take arrived (cn_input cn)\<rparr>"

definition closeAll :: "(nat \<Rightarrow> nat) \<Rightarrow> control \<Rightarrow> control" where
  "closeAll arrived s = s\<lparr>cs_shuttingDown := True, cs_shutdown := ShutdownDone,
     cs_conns := map (\<lambda>i. if i \<in> cs_connections s then closeConn (arrived i) (cs_conns s ! i) else cs_conns s ! i)
       [0..<length (cs_conns s)]\<rparr>"

section \<open>Steps\<close>

abbreviation (input) "conn_at s i pc \<equiv> i < length (cs_conns s) \<and> cn_pc (cs_conns s ! i) = pc"

inductive cs_step :: "control \<Rightarrow> control \<Rightarrow> bool" where
  accept: "cs_accept s = Accepting \<Longrightarrow> cs_shutdown s = Serving \<Longrightarrow> cs_backlog s = cn # rest \<Longrightarrow> cn_authorized cn \<Longrightarrow>
    cs_step s (s\<lparr>cs_backlog := rest, cs_accept := Admitted (length (cs_conns s)), cs_conns := cs_conns s @ [cn]\<rparr>)"
| refuse: "cs_accept s = Accepting \<Longrightarrow> cs_shutdown s = Serving \<Longrightarrow> cs_backlog s = cn # rest \<Longrightarrow> \<not> cn_authorized cn \<Longrightarrow>
    cs_step s (s\<lparr>cs_backlog := rest, cs_conns := cs_conns s @ [cn\<lparr>cn_closed := True, cn_pc := Refused\<rparr>]\<rparr>)"
| accept_err: "cs_accept s = Accepting \<Longrightarrow> cs_step s (s\<lparr>cs_accept := AcceptDone\<rparr>)"
| serve: "cs_accept s = Admitted i \<Longrightarrow> \<not> cs_shuttingDown s \<Longrightarrow>
    cs_step s (set_conn i ((cs_conns s ! i)\<lparr>cn_pc := Handling\<rparr>)
      (s\<lparr>cs_connections := insert i (cs_connections s), cs_accept := Accepting\<rparr>))"
| late: "cs_accept s = Admitted i \<Longrightarrow> cs_shuttingDown s \<Longrightarrow>
    cs_step s (set_conn i ((cs_conns s ! i)\<lparr>cn_closed := True, cn_pc := Refused\<rparr>) (s\<lparr>cs_accept := AcceptDone\<rparr>))"
| blank: "conn_at s i Handling \<Longrightarrow> scanToken (at_eof (cs_conns s ! i)) (cn_input (cs_conns s ! i)) = Token tok rest \<Longrightarrow>
    trim_space tok = [] \<Longrightarrow> cs_step s (set_conn i ((cs_conns s ! i)\<lparr>cn_input := rest\<rparr>) s)"
| command: "conn_at s i Handling \<Longrightarrow> scanToken (at_eof (cs_conns s ! i)) (cn_input (cs_conns s ! i)) = Token tok rest \<Longrightarrow>
    trim_space tok = line \<Longrightarrow> line \<noteq> [] \<Longrightarrow> \<not> cn_closed (cs_conns s ! i) \<Longrightarrow>
    cs_step s (runCommand i line rest False s)"
| write_err: "conn_at s i Handling \<Longrightarrow> scanToken (at_eof (cs_conns s ! i)) (cn_input (cs_conns s ! i)) = Token tok rest \<Longrightarrow>
    trim_space tok = line \<Longrightarrow> line \<noteq> [] \<Longrightarrow> cs_step s (runCommand i line rest True s)"
| hangup: "conn_at s i Handling \<Longrightarrow> scanToken (at_eof (cs_conns s ! i)) (cn_input (cs_conns s ! i)) = Stop \<Longrightarrow>
    cs_step s (set_conn i ((cs_conns s ! i)\<lparr>cn_pc := Leaving\<rparr>) s)"
| leave: "conn_at s i Leaving \<Longrightarrow>
    cs_step s (set_conn i ((cs_conns s ! i)\<lparr>cn_pc := Finished\<rparr>) (s\<lparr>cs_connections := cs_connections s - {i}\<rparr>))"
| close_listener: "cs_shutdown s = Serving \<Longrightarrow> cs_step s (s\<lparr>cs_shutdown := ListenerClosed\<rparr>)"
| close_conns: "cs_shutdown s = ListenerClosed \<Longrightarrow> cs_step s (closeAll arrived s)"

inductive_cases cs_stepE: "cs_step s s'"

text \<open>\<^verbatim>\<open>Wait\<close> returns when the accept loop and every handler are done.\<close>

definition waitReturns :: "control \<Rightarrow> bool" where
  "waitReturns s \<longleftrightarrow> cs_accept s = AcceptDone \<and> (\<forall>cn \<in> set (cs_conns s). cn_pc cn = Finished \<or> cn_pc cn = Refused)"

section \<open>The lines of a stream\<close>

lemma scanToken_shorter: "scanToken e s = Token t r \<Longrightarrow> length r < length s"
  by (auto simp: scanToken_def Let_def split: if_splits)

function scan_lines :: "string \<Rightarrow> string list" where
  "scan_lines s = (case scanToken True s of Token t r \<Rightarrow> t # scan_lines r | _ \<Rightarrow> [])"
  by pat_completeness auto
termination
  by (relation "measure length") (auto dest: scanToken_shorter)

declare scan_lines.simps [simp del]

text \<open>The commands of a stream: its lines trimmed, without the blank ones.\<close>

definition commands :: "string \<Rightarrow> string list" where
  "commands s = filter (\<lambda>l. l \<noteq> []) (map trim_space (scan_lines s))"

lemma scanToken_eof: "scanToken e s = Token t r \<Longrightarrow> scanToken True s = Token t r"
  by (auto simp: scanToken_def Let_def split: if_splits)

lemma commands_Token:
  "scanToken e s = Token t r \<Longrightarrow> commands s = (if trim_space t = [] then commands r else trim_space t # commands r)"
  by (drule scanToken_eof) (simp add: commands_def scan_lines.simps [of s])

lemma commands_Stop: "scanToken e s = Stop \<Longrightarrow> commands s = []"
  by (auto simp: scanToken_def Let_def commands_def scan_lines.simps [of s] split: if_splits)

text \<open>The replies to a list of commands, when the bumps among them gave the generations \<open>gs\<close>.\<close>

fun repliesFor :: "string list \<Rightarrow> 64 word list \<Rightarrow> string list" where
  "repliesFor [] gs = []"
| "repliesFor (l # ls) gs =
     (if isSync l then (case gs of g # gs' \<Rightarrow> okGeneration g # repliesFor ls gs' | [] \<Rightarrow> [])
      else errUnknown # repliesFor ls gs)"

lemma handleCommand_eq:
  "handleCommand line g = (if isSync line then (okGeneration (g + 1), g + 1) else (errUnknown, g))"
  by (auto simp: handleCommand_def isSync_def Bump_def split: list.splits)

lemma repliesFor_snoc:
  "length gs = length (filter isSync ls) \<Longrightarrow>
   repliesFor (ls @ [l]) (gs @ (if isSync l then [g] else [])) =
     repliesFor ls gs @ [if isSync l then okGeneration g else errUnknown]"
  by (induction ls gs rule: repliesFor.induct) (auto split: list.splits)

definition gens_of :: "nat \<Rightarrow> (nat \<times> 64 word) list \<Rightarrow> 64 word list" where
  "gens_of i bs = map snd (filter (\<lambda>b. fst b = i) bs)"

lemma gens_of_snoc [simp]: "gens_of i (bs @ cs) = gens_of i bs @ gens_of i cs"
  "gens_of i [] = []" "gens_of i [(j, g)] = (if i = j then [g] else [])"
  by (auto simp: gens_of_def)

section \<open>The invariant\<close>

text \<open>What holds of one connection \<open>i\<close>.\<close>

definition conn_inv :: "64 word list \<Rightarrow> conn \<Rightarrow> bool" where
  "conn_inv gs cn \<longleftrightarrow> length gs = length (filter isSync (cn_lines cn)) \<and> cn_replies cn = repliesFor (cn_lines cn) gs \<and>
     (cn_pc cn \<in> {Classifying, Refused} \<longrightarrow> cn_lines cn = [] \<and> gs = []) \<and>
     (\<not> cn_closed cn \<and> cn_pc cn \<in> {Classifying, Handling} \<longrightarrow> cn_lines cn @ commands (cn_input cn) = commands (cn_stream cn) \<and> \<not> cn_failed cn) \<and>
     (\<not> cn_closed cn \<and> \<not> cn_failed cn \<and> cn_pc cn \<in> {Leaving, Finished} \<longrightarrow> cn_lines cn = commands (cn_stream cn)) \<and>
     (\<not> cn_closed cn \<longrightarrow> (\<exists>rest. cn_lines cn @ rest = commands (cn_stream cn)))"

definition fresh_conn :: "conn \<Rightarrow> bool" where
  "fresh_conn cn \<longleftrightarrow> cn_pc cn = Classifying \<and> \<not> cn_closed cn \<and> \<not> cn_failed cn \<and> cn_lines cn = [] \<and> cn_replies cn = [] \<and> cn_input cn = cn_stream cn"

definition served_inv :: "control \<Rightarrow> bool" where
  "served_inv s \<longleftrightarrow>
     (\<forall>i. cs_accept s = Admitted i \<longleftrightarrow> conn_at s i Classifying) \<and>
     cs_connections s = {i. conn_at s i Handling \<or> conn_at s i Leaving} \<and>
     (cs_shuttingDown s \<longleftrightarrow> cs_shutdown s = ShutdownDone) \<and>
     (cs_shuttingDown s \<longrightarrow> (\<forall>i. conn_at s i Handling \<longrightarrow> cn_closed (cs_conns s ! i))) \<and>
     (\<forall>cn \<in> set (cs_backlog s). fresh_conn cn)"

definition bumps_inv :: "GenerationCounter \<Rightarrow> control \<Rightarrow> bool" where
  "bumps_inv g s \<longleftrightarrow> cs_gen s = g + of_nat (length (cs_bumps s)) \<and>
     map snd (cs_bumps s) = map (\<lambda>k. g + of_nat (Suc k)) [0..<length (cs_bumps s)] \<and>
     (\<forall>i < length (cs_conns s). conn_inv (gens_of i (cs_bumps s)) (cs_conns s ! i)) \<and>
     (\<forall>i \<ge> length (cs_conns s). gens_of i (cs_bumps s) = [])"

definition cs_inv :: "GenerationCounter \<Rightarrow> control \<Rightarrow> bool" where
  "cs_inv g s \<longleftrightarrow> served_inv s \<and> bumps_inv g s"

lemma set_conn_simps [simp]:
  "cs_gen (set_conn i cn s) = cs_gen s" "cs_shuttingDown (set_conn i cn s) = cs_shuttingDown s"
  "cs_connections (set_conn i cn s) = cs_connections s" "cs_accept (set_conn i cn s) = cs_accept s"
  "cs_shutdown (set_conn i cn s) = cs_shutdown s" "cs_backlog (set_conn i cn s) = cs_backlog s"
  "cs_conns (set_conn i cn s) = (cs_conns s)[i := cn]" "cs_bumps (set_conn i cn s) = cs_bumps s"
  by (simp_all add: set_conn_def)

lemma runCommand_simps [simp]:
  "cs_shuttingDown (runCommand i line rest e s) = cs_shuttingDown s"
  "cs_connections (runCommand i line rest e s) = cs_connections s" "cs_accept (runCommand i line rest e s) = cs_accept s"
  "cs_shutdown (runCommand i line rest e s) = cs_shutdown s" "cs_backlog (runCommand i line rest e s) = cs_backlog s"
  "cs_gen (runCommand i line rest e s) = cs_gen s + (if isSync line then 1 else 0)"
  "cs_bumps (runCommand i line rest e s) = cs_bumps s @ (if isSync line then [(i, cs_gen s + 1)] else [])"
  "cs_conns (runCommand i line rest e s) = (cs_conns s)[i := (cs_conns s ! i)\<lparr>cn_input := rest, cn_pc := (if e then Leaving else Handling),
     cn_lines := cn_lines (cs_conns s ! i) @ [line],
     cn_replies := cn_replies (cs_conns s ! i) @ [if isSync line then okGeneration (cs_gen s + 1) else errUnknown], cn_failed := e\<rparr>]"
  by (simp_all add: runCommand_def handleCommand_eq Let_def)

lemma closeConn_simps [simp]:
  "cn_pc (closeConn n cn) = cn_pc cn" "cn_closed (closeConn n cn)" "cn_lines (closeConn n cn) = cn_lines cn"
  "cn_replies (closeConn n cn) = cn_replies cn" "length (cn_input (closeConn n cn)) = min (length (cn_input cn)) n"
  by (simp_all add: closeConn_def)

lemma closeAll_simps [simp]:
  "cs_gen (closeAll a s) = cs_gen s" "cs_shuttingDown (closeAll a s)" "cs_connections (closeAll a s) = cs_connections s"
  "cs_accept (closeAll a s) = cs_accept s" "cs_shutdown (closeAll a s) = ShutdownDone" "cs_backlog (closeAll a s) = cs_backlog s"
  "cs_bumps (closeAll a s) = cs_bumps s" "length (cs_conns (closeAll a s)) = length (cs_conns s)"
  "i < length (cs_conns s) \<Longrightarrow> cs_conns (closeAll a s) ! i =
     (if i \<in> cs_connections s then closeConn (a i) (cs_conns s ! i) else cs_conns s ! i)"
  by (simp_all add: closeAll_def)

subsection \<open>Who is served\<close>

lemma served_inv_start: "served_inv (NewControlSocket g clients)"
  by (auto simp: served_inv_def NewControlSocket_def client_def fresh_conn_def)

lemma served_inv_step:
  assumes "cs_step s s'" "served_inv s"
  shows "served_inv s'"
  using assms
proof (induction rule: cs_step.induct)
  case (accept s cn rest)
  then show ?case by (auto simp: served_inv_def nth_append less_Suc_eq fresh_conn_def)
next
  case (refuse s cn rest)
  then show ?case by (auto simp: served_inv_def nth_append less_Suc_eq)
next
  case (accept_err s)
  then show ?case by (auto simp: served_inv_def)
next
  case (serve s i)
  then have "conn_at s i Classifying" by (auto simp: served_inv_def)
  with serve show ?case by (auto simp: served_inv_def nth_list_update split: if_splits)
next
  case (late s i)
  then have "conn_at s i Classifying" by (auto simp: served_inv_def)
  with late show ?case by (auto simp: served_inv_def nth_list_update split: if_splits)
next
  case (blank s i tok rest)
  then show ?case by (auto simp: served_inv_def nth_list_update)
next
  case (command s i tok rest line)
  then show ?case by (auto simp: served_inv_def nth_list_update)
next
  case (write_err s i tok rest line)
  then show ?case by (auto simp: served_inv_def nth_list_update)
next
  case (hangup s i)
  then show ?case by (auto simp: served_inv_def nth_list_update)
next
  case (leave s i)
  then show ?case by (auto simp: served_inv_def nth_list_update)
next
  case (close_listener s)
  then show ?case by (auto simp: served_inv_def)
next
  case (close_conns s arrived)
  then show ?case by (auto simp: served_inv_def split: if_splits)
qed

subsection \<open>What is replied\<close>

lemma bumps_inv_start: "bumps_inv g (NewControlSocket g clients)"
  by (auto simp: bumps_inv_def NewControlSocket_def)

lemma bumps_inv_set_conn:
  assumes "bumps_inv g s" "cs_gen s' = cs_gen s" "cs_bumps s' = cs_bumps s" "cs_conns s' = cs_conns s"
    and "conn_inv (gens_of i (cs_bumps s)) (cs_conns s ! i) \<Longrightarrow> conn_inv (gens_of i (cs_bumps s)) cn"
  shows "bumps_inv g (set_conn i cn s')"
  using assms unfolding bumps_inv_def by (simp, metis nth_list_update_eq nth_list_update_neq)

lemma bumps_inv_snoc:
  assumes "bumps_inv g s" "cs_gen s' = cs_gen s" "cs_bumps s' = cs_bumps s" "cs_conns s' = cs_conns s @ [cn]" "conn_inv [] cn"
  shows "bumps_inv g s'"
  using assms by (auto simp: bumps_inv_def nth_append less_Suc_eq)

lemma conn_inv_command:
  assumes "conn_inv gs cn" "cn_pc cn = Handling" "scanToken e (cn_input cn) = Token tok rest" "trim_space tok \<noteq> []"
  shows "conn_inv (gs @ (if isSync (trim_space tok) then [g] else []))
    (cn\<lparr>cn_input := rest, cn_pc := (if failed then Leaving else Handling), cn_lines := cn_lines cn @ [trim_space tok],
       cn_replies := cn_replies cn @ [if isSync (trim_space tok) then okGeneration g else errUnknown], cn_failed := failed\<rparr>)"
  using assms commands_Token [OF assms(3)] repliesFor_snoc [of gs "cn_lines cn" "trim_space tok" g]
  by (auto simp: conn_inv_def)

lemma bumps_inv_command:
  assumes inv: "bumps_inv g s" and i: "conn_at s i Handling"
    and tok: "scanToken e (cn_input (cs_conns s ! i)) = Token tok rest" "trim_space tok \<noteq> []"
  shows "bumps_inv g (runCommand i (trim_space tok) rest failed s)"
proof -
  have "conn_inv (gens_of i (cs_bumps s)) (cs_conns s ! i)" using inv i by (simp add: bumps_inv_def)
  from conn_inv_command [OF this _ tok, of "cs_gen s + 1" failed] i inv
  show ?thesis by (auto simp: bumps_inv_def nth_list_update)
qed

lemma bumps_inv_step:
  assumes "cs_step s s'" "bumps_inv g s" "served_inv s"
  shows "bumps_inv g s'"
  using assms
proof (induction rule: cs_step.induct)
  case (accept s cn rest)
  have "conn_inv [] cn" using accept by (auto simp: served_inv_def fresh_conn_def conn_inv_def)
  then show ?case by (intro bumps_inv_snoc [OF accept.prems(1)]) simp_all
next
  case (refuse s cn rest)
  have "conn_inv [] (cn\<lparr>cn_closed := True, cn_pc := Refused\<rparr>)"
    using refuse by (auto simp: served_inv_def fresh_conn_def conn_inv_def)
  then show ?case by (intro bumps_inv_snoc [OF refuse.prems(1)]) simp_all
next
  case (serve s i)
  then have "conn_at s i Classifying" by (auto simp: served_inv_def)
  then show ?case by (intro bumps_inv_set_conn [OF serve.prems(1)]) (auto simp: conn_inv_def)
next
  case (late s i)
  then have "conn_at s i Classifying" by (auto simp: served_inv_def)
  then show ?case by (intro bumps_inv_set_conn [OF late.prems(1)]) (auto simp: conn_inv_def)
next
  case (blank s i tok rest)
  then show ?case
    by (intro bumps_inv_set_conn [OF blank.prems(1)]) (auto simp: conn_inv_def commands_Token [OF blank.hyps(2)])
next
  case (command s i tok rest line)
  then show ?case using bumps_inv_command by blast
next
  case (write_err s i tok rest line)
  then show ?case using bumps_inv_command by blast
next
  case (hangup s i)
  then show ?case
    by (intro bumps_inv_set_conn [OF hangup.prems(1)]) (auto simp: conn_inv_def commands_Stop [OF hangup.hyps(2)])
next
  case (leave s i)
  then show ?case by (intro bumps_inv_set_conn [OF leave.prems(1)]) (auto simp: conn_inv_def)
next
  case (close_conns s arrived)
  then show ?case by (auto simp: bumps_inv_def conn_inv_def closeConn_def)
qed (auto simp: bumps_inv_def)

section \<open>Progress\<close>

text \<open>
  What is still to do. A client that waits costs more than one being served; a handler's work is
  what it has left to read.
\<close>

definition conn_size :: "conn \<Rightarrow> nat" where
  "conn_size cn = (case cn_pc cn of
     Classifying \<Rightarrow> length (cn_input cn) + 3 | Handling \<Rightarrow> length (cn_input cn) + 2 | Leaving \<Rightarrow> 1 | _ \<Rightarrow> 0)"

definition cs_size :: "control \<Rightarrow> nat" where
  "cs_size s = (\<Sum>cn \<leftarrow> cs_backlog s. conn_size cn + 2) + (\<Sum>cn \<leftarrow> cs_conns s. conn_size cn) +
     (case cs_accept s of Accepting \<Rightarrow> 2 | Admitted _ \<Rightarrow> 3 | AcceptDone \<Rightarrow> 0) +
     (case cs_shutdown s of Serving \<Rightarrow> 2 | ListenerClosed \<Rightarrow> 1 | ShutdownDone \<Rightarrow> 0)"

lemma conns_sum_less:
  fixes f :: "'a \<Rightarrow> nat"
  assumes "i < length xs" "f y < f (xs ! i)"
  shows "(\<Sum>x \<leftarrow> xs[i := y]. f x) < (\<Sum>x \<leftarrow> xs. f x)"
  using assms by (induction xs arbitrary: i) (auto split: nat.splits)

lemma sum_list_closeAll: "(\<Sum>cn \<leftarrow> cs_conns (closeAll a s). conn_size cn) \<le> (\<Sum>cn \<leftarrow> cs_conns s. conn_size cn)"
proof -
  have "(\<Sum>cn \<leftarrow> cs_conns (closeAll a s). conn_size cn) \<le> (\<Sum>i \<leftarrow> [0..<length (cs_conns s)]. conn_size (cs_conns s ! i))"
    unfolding closeAll_def by (simp add: comp_def, rule sum_list_mono) (auto simp: conn_size_def closeConn_def split: handler_pc.splits)
  also have "\<dots> = (\<Sum>cn \<leftarrow> cs_conns s. conn_size cn)" by (simp flip: map_map [unfolded comp_def] add: map_nth)
  finally show ?thesis .
qed

definition socketDone :: "control \<Rightarrow> bool" where
  "socketDone s \<longleftrightarrow> waitReturns s \<and> cs_shutdown s = ShutdownDone"

lemma cs_step_decreases:
  assumes "cs_step s s'" "served_inv s"
  shows "cs_size s' < cs_size s"
  using assms
proof (induction rule: cs_step.induct)
  case (accept s cn rest)
  then show ?case by (simp add: cs_size_def)
next
  case (refuse s cn rest)
  then show ?case by (simp add: cs_size_def conn_size_def)
next
  case (serve s i)
  then have "conn_at s i Classifying" by (auto simp: served_inv_def)
  with serve conns_sum_less [of i "cs_conns s" conn_size "(cs_conns s ! i)\<lparr>cn_pc := Handling\<rparr>"]
  show ?case by (simp add: cs_size_def conn_size_def)
next
  case (late s i)
  then have "conn_at s i Classifying" by (auto simp: served_inv_def)
  with late conns_sum_less [of i "cs_conns s" conn_size "(cs_conns s ! i)\<lparr>cn_closed := True, cn_pc := Refused\<rparr>"]
  show ?case by (simp add: cs_size_def conn_size_def)
next
  case (blank s i tok rest)
  with conns_sum_less [of i "cs_conns s" conn_size "(cs_conns s ! i)\<lparr>cn_input := rest\<rparr>"]
  show ?case using scanToken_shorter by (simp add: cs_size_def conn_size_def)
next
  case (command s i tok rest line)
  then show ?case using scanToken_shorter by (simp add: cs_size_def conn_size_def conns_sum_less)
next
  case (write_err s i tok rest line)
  then show ?case by (simp add: cs_size_def conn_size_def conns_sum_less)
next
  case (hangup s i)
  then show ?case by (simp add: cs_size_def conn_size_def conns_sum_less)
next
  case (leave s i)
  then show ?case by (simp add: cs_size_def conn_size_def conns_sum_less)
next
  case (close_conns s arrived)
  then show ?case using sum_list_closeAll [of arrived s] by (simp add: cs_size_def)
qed (simp_all add: cs_size_def)

lemma scanToken_eof_moves: "scanToken True s \<noteq> NeedMore"
  by (simp add: scanToken_def Let_def)

text \<open>A handler whose connection is closed can move, even when its client never hangs up.\<close>

lemma closed_handler_moves:
  assumes i: "conn_at s i Handling" and closed: "cn_closed (cs_conns s ! i)"
  shows "\<exists>s'. cs_step s s'"
proof -
  let ?cn = "cs_conns s ! i"
  have eof: "at_eof ?cn" using closed by (simp add: at_eof_def)
  show ?thesis
  proof (cases "scanToken (at_eof ?cn) (cn_input ?cn)")
    case (Token tok rest)
    then show ?thesis using i by (cases "trim_space tok = []") (blast intro: cs_step.blank cs_step.write_err)+
  next
    case Stop
    then show ?thesis using i by (blast intro: cs_step.hangup)
  qed (use eof scanToken_eof_moves in simp)
qed

lemma cs_progress:
  assumes inv: "served_inv s" and todo: "\<not> socketDone s"
  shows "\<exists>s'. cs_step s s'"
proof (cases "cs_shutdown s")
  case ShutdownDone
  then have down: "cs_shuttingDown s" using inv by (simp add: served_inv_def)
  show ?thesis
  proof (cases "cs_accept s")
    case AcceptDone
    then obtain i where i: "i < length (cs_conns s)" "cn_pc (cs_conns s ! i) \<notin> {Finished, Refused}"
      using todo ShutdownDone by (auto simp: socketDone_def waitReturns_def in_set_conv_nth)
    have "cn_pc (cs_conns s ! i) \<noteq> Classifying" using inv i AcceptDone by (auto simp: served_inv_def)
    then consider "conn_at s i Handling" | "conn_at s i Leaving" using i by (cases "cn_pc (cs_conns s ! i)") auto
    then show ?thesis
    proof cases
      case 1
      then show ?thesis using inv down closed_handler_moves by (auto simp: served_inv_def)
    qed (blast intro: cs_step.leave)
  qed (use down in \<open>blast intro: cs_step.accept_err cs_step.late\<close>)+
qed (blast intro: cs_step.close_listener cs_step.close_conns)+

lemma cs_inv_start: "cs_inv g (NewControlSocket g clients)"
  by (simp add: cs_inv_def served_inv_start bumps_inv_start)

lemma cs_inv_step: "cs_inv g s \<Longrightarrow> cs_step s s' \<Longrightarrow> cs_inv g s'"
  using served_inv_step bumps_inv_step by (auto simp: cs_inv_def)

interpretation control_socket: finishing_system "\<lambda>s. s = NewControlSocket g clients" cs_step "cs_inv g" socketDone cs_size
  for g :: GenerationCounter and clients :: "(bool \<times> bool \<times> string) list"
proof unfold_locales
  fix s s' :: control
  show "s = NewControlSocket g clients \<Longrightarrow> cs_inv g s" by (simp add: cs_inv_start)
  show "cs_inv g s \<Longrightarrow> cs_step s s' \<Longrightarrow> cs_inv g s'" by (rule cs_inv_step)
  show "cs_inv g s \<Longrightarrow> \<not> socketDone s \<Longrightarrow> \<exists>s'. cs_step s s'" by (simp add: cs_inv_def cs_progress)
  show "cs_inv g s \<Longrightarrow> cs_step s s' \<Longrightarrow> cs_size s' < cs_size s" by (simp add: cs_inv_def cs_step_decreases)
qed

section \<open>Properties\<close>

text \<open>C10: the control socket orders its sync commands: over all connections the bumps give the generations
  after the initial one, one after the other, so no two commands get the same before the counter
  wraps. Each connection gets one reply per command, in the order of its commands, with the
  generations of its own bumps, and a connection that ends by itself with every reply written
  was answered for every command line of its stream.\<close>

theorem control_replies:
  assumes "cs_step\<^sup>*\<^sup>* (NewControlSocket g clients) s"
  shows "map snd (cs_bumps s) = map (\<lambda>k. g + of_nat (Suc k)) [0..<length (cs_bumps s)] \<and>
    cs_gen s = g + of_nat (length (cs_bumps s)) \<and>
    (length (cs_bumps s) \<le> 2 ^ 64 \<longrightarrow> distinct (map snd (cs_bumps s))) \<and>
    (\<forall>i < length (cs_conns s).
      cn_replies (cs_conns s ! i) = repliesFor (cn_lines (cs_conns s ! i)) (gens_of i (cs_bumps s)) \<and>
      length (gens_of i (cs_bumps s)) = length (filter isSync (cn_lines (cs_conns s ! i))) \<and>
      (cn_pc (cs_conns s ! i) = Finished \<and> \<not> cn_closed (cs_conns s ! i) \<and> \<not> cn_failed (cs_conns s ! i) \<longrightarrow>
        cn_lines (cs_conns s ! i) = commands (cn_stream (cs_conns s ! i))))"
proof -
  have "bumps_inv g s" using control_socket.inv_reachable [OF refl assms] by (simp add: cs_inv_def)
  note inv = this [unfolded bumps_inv_def]
  have "distinct (map snd (cs_bumps s))" if "length (cs_bumps s) \<le> 2 ^ 64"
  proof -
    have "inj_on (\<lambda>k. g + of_nat (Suc k) :: 64 word) {0..<length (cs_bumps s)}"
    proof (rule inj_onI)
      fix a b assume ab: "a \<in> {0..<length (cs_bumps s)}" "b \<in> {0..<length (cs_bumps s)}"
        "g + of_nat (Suc a) = (g + of_nat (Suc b) :: 64 word)"
      then have "(of_nat a :: 64 word) = of_nat b" by simp
      from arg_cong [OF this, of unat] have "a mod 2 ^ 64 = b mod 2 ^ 64" by (simp add: unat_of_nat)
      then show "a = b" using ab that by simp
    qed
    then show ?thesis using inv by (simp add: distinct_map)
  qed
  then show ?thesis using inv by (auto simp: conn_inv_def)
qed

text \<open>C22: the socket always shuts down: whatever clients do, clients that never hang up included, from
  every state it can reach, \<^verbatim>\<open>Wait\<close> can return and no run goes on forever; when it returns after the
  shutdown no connection is left registered and every one is done or was refused.\<close>

theorem control_shutdown:
  assumes "cs_step\<^sup>*\<^sup>* (NewControlSocket g clients) s"
  shows "(\<exists>s'. cs_step\<^sup>*\<^sup>* s s' \<and> socketDone s') \<and> \<not> (\<exists>f. f 0 = s \<and> (\<forall>i. cs_step (f i) (f (Suc i)))) \<and>
    (waitReturns s \<longrightarrow> cs_connections s = {}) \<and>
    (cs_shuttingDown s \<longrightarrow> (\<forall>i \<in> cs_connections s. cn_pc (cs_conns s ! i) = Leaving \<or> cn_closed (cs_conns s ! i)))"
proof -
  have inv: "cs_inv g s" by (rule control_socket.inv_reachable [OF refl assms])
  have "(\<exists>s'. cs_step\<^sup>*\<^sup>* s s' \<and> socketDone s') \<and> \<not> (\<exists>f. f 0 = s \<and> (\<forall>i. cs_step (f i) (f (Suc i))))"
    using control_socket.finishes [OF inv] control_socket.no_infinite_run inv by blast
  moreover have "(waitReturns s \<longrightarrow> cs_connections s = {}) \<and>
    (cs_shuttingDown s \<longrightarrow> (\<forall>i \<in> cs_connections s. cn_pc (cs_conns s ! i) = Leaving \<or> cn_closed (cs_conns s ! i)))"
    using inv by (fastforce simp: cs_inv_def served_inv_def waitReturns_def list_all_length simp flip: list_all_iff)
  ultimately show ?thesis by blast
qed

section \<open>Witnesses\<close>

text \<open>A client syncs once and hangs up.\<close>

definition sync_start :: control where
  "sync_start = NewControlSocket 6 [(True, False, ''sync'' @ [newline])]"

definition synced_state :: control where
  "synced_state = sync_start\<lparr>cs_gen := 7, cs_backlog := [], cs_bumps := [(0, 7)],
     cs_conns := [(client True False (''sync'' @ [newline]))\<lparr>cn_input := [], cn_pc := Finished, cn_lines := [''sync''],
       cn_replies := [okGeneration 7]\<rparr>]\<rparr>"

lemma scan_sync: "scanToken True (''sync'' @ [newline]) = Token ''sync'' []" "scanToken True [] = Stop"
  by (simp_all add: scanToken_def maxScanTokenSize_def dropCR_def)

lemma sync_line: "trim_space ''sync'' = ''sync''"
  by code_simp

lemma sync_command: "isSync ''sync''"
  by code_simp

lemma sync_run: "cs_step\<^sup>*\<^sup>* sync_start synced_state"
proof -
  let ?cn = "client True False (''sync'' @ [newline])"
  let ?a = "sync_start"
  let ?b = "?a\<lparr>cs_backlog := [], cs_accept := Admitted (length (cs_conns ?a)), cs_conns := cs_conns ?a @ [?cn]\<rparr>"
  let ?c = "set_conn 0 ((cs_conns ?b ! 0)\<lparr>cn_pc := Handling\<rparr>)
    (?b\<lparr>cs_connections := insert 0 (cs_connections ?b), cs_accept := Accepting\<rparr>)"
  let ?d = "runCommand 0 ''sync'' [] False ?c"
  let ?e = "set_conn 0 ((cs_conns ?d ! 0)\<lparr>cn_pc := Leaving\<rparr>) ?d"
  let ?f = "set_conn 0 ((cs_conns ?e ! 0)\<lparr>cn_pc := Finished\<rparr>) (?e\<lparr>cs_connections := cs_connections ?e - {0}\<rparr>)"
  note run = sync_start_def NewControlSocket_def client_def at_eof_def
  have "cs_step ?a ?b" by (rule cs_step.accept) (simp_all add: run)
  moreover have "cs_step ?b ?c" by (rule cs_step.serve) (simp_all add: run)
  moreover have "cs_step ?c ?d"
    by (rule cs_step.command [where tok = "''sync''"]) (use scan_sync sync_line sync_command in \<open>simp_all add: run\<close>)
  moreover have "cs_step ?d ?e" by (rule cs_step.hangup) (use scan_sync sync_line sync_command in \<open>simp_all add: run\<close>)
  moreover have "cs_step ?e ?f" by (rule cs_step.leave) (simp_all add: run)
  ultimately have "cs_step\<^sup>*\<^sup>* ?a ?f" by (blast intro: converse_rtranclp_into_rtranclp)
  moreover have "?f = synced_state"
    by (simp add: synced_state_def run runCommand_def set_conn_def handleCommand_eq sync_command Let_def)
  ultimately show ?thesis by simp
qed

theorem control_replies_witness:
  "cs_step\<^sup>*\<^sup>* sync_start synced_state \<and> distinct (map snd (cs_bumps synced_state)) \<and>
   cn_lines (cs_conns synced_state ! 0) = commands (cn_stream (cs_conns synced_state ! 0)) \<and>
   cn_replies (cs_conns synced_state ! 0) = [''ok generation=7'' @ [newline]]"
proof -
  have len: "length (cs_bumps synced_state) = 1" "0 < length (cs_conns synced_state)"
    and fin: "cn_pc (cs_conns synced_state ! 0) = Finished \<and> \<not> cn_closed (cs_conns synced_state ! 0) \<and>
      \<not> cn_failed (cs_conns synced_state ! 0)"
    by (simp_all add: synced_state_def client_def)
  have reply: "cn_replies (cs_conns synced_state ! 0) = [''ok generation=7'' @ [newline]]" by code_simp
  have "length (cs_bumps synced_state) \<le> 2 ^ 64" by (simp add: len)
  then show ?thesis using control_replies [OF sync_run [unfolded sync_start_def]] sync_run len(2) fin reply by blast
qed

text \<open>A client that sends half a command and never hangs up does not keep the socket from shutting down.\<close>

theorem control_shutdown_witness:
  "\<exists>s. cs_step\<^sup>*\<^sup>* (NewControlSocket 0 [(True, True, ''sy'')]) s \<and> socketDone s"
  using control_shutdown [OF rtranclp.rtrancl_refl] by blast

end
