(* ===== verification/Lsp_Framing.thy ===== *)
theory Lsp_Framing
  imports Core_Types Transition_Systems
begin

text \<open>
  Message frames on the server's pipes (\<^verbatim>\<open>src/internal/lsp/framing.go\<close>): reading a header block
  and a body, building a frame, writing it in full, and the arbitration between a frame
  that is being written and the cancellation of its caller. The buffered reader is the byte
  sequence that is left to read; its end is the end of the stream.
\<close>

section \<open>Decimal numbers\<close>

text \<open>\<^verbatim>\<open>strconv.Atoi\<close>: an optional sign and at least one digit, in the range of a 64-bit integer.\<close>

fun digits_value :: "int \<Rightarrow> string \<Rightarrow> int option" where
  "digits_value acc [] = Some acc"
| "digits_value acc (d # ds) =
     (if isASCIIDigit d then digits_value (10 * acc + (of_char d - 48)) ds else None)"

definition in_int64 :: "int \<Rightarrow> bool" where
  "in_int64 v \<longleftrightarrow> - (2 ^ 63) \<le> v \<and> v < 2 ^ 63"

definition unsigned :: "string \<Rightarrow> int option" where
  "unsigned s = (if s = [] then None else digits_value 0 s)"

definition atoi :: "string \<Rightarrow> int option" where
  "atoi s =
     (let v = (case s of
          [] \<Rightarrow> None
        | b # r \<Rightarrow> if b = CHR ''-'' then map_option uminus (unsigned r)
                  else if b = CHR ''+'' then unsigned r else unsigned s)
      in case v of None \<Rightarrow> None | Some n \<Rightarrow> if in_int64 n then Some n else None)"

lemma digits_value_append:
  "digits_value acc (s @ t) = (case digits_value acc s of None \<Rightarrow> None | Some v \<Rightarrow> digits_value v t)"
  by (induction s arbitrary: acc) auto

lemma digit_char:
  assumes "d < 10"
  shows "isASCIIDigit (char_of (48 + d))" and "(of_char (char_of (48 + d) :: char) :: int) = 48 + int d"
proof -
  have "of_char (char_of (48 + d) :: char) = 48 + d" using assms by simp
  then show "isASCIIDigit (char_of (48 + d))" using assms by (simp add: isASCIIDigit_def)
  show "(of_char (char_of (48 + d) :: char) :: int) = 48 + int d"
    using assms by (metis \<open>of_char (char_of (48 + d) :: char) = 48 + d\<close> of_nat_add of_nat_numeral of_nat_of_char)
qed

lemma digits_value_digits_nat: "digits_value 0 (digits_nat n) = Some (int n)"
proof (induction n rule: digits_nat.induct)
  case (1 n)
  show ?case
  proof (cases "n < 10")
    case True
    then show ?thesis using digit_char [of n] by (subst digits_nat.simps) simp
  next
    case False
    have "10 * int (n div 10) + int (n mod 10) = int n"
      by (metis mult_div_mod_eq of_nat_add of_nat_mult of_nat_numeral)
    with False 1 show ?thesis
      using digit_char [of "n mod 10"] by (subst digits_nat.simps) (auto simp: digits_value_append)
  qed
qed

lemma digits_nat_first: "hd (digits_nat n) \<noteq> CHR ''-'' \<and> hd (digits_nat n) \<noteq> CHR ''+''"
proof -
  have "isASCIIDigit (hd (digits_nat n))" using digits_nat_digits digits_nat_nonempty hd_in_set by blast
  then show ?thesis by (auto simp: isASCIIDigit_def)
qed

lemma atoi_itoa: "in_int64 v \<Longrightarrow> atoi (itoa v) = Some v"
proof (cases "v < 0")
  case True
  assume "in_int64 v"
  with True show ?thesis
    by (simp add: atoi_def itoa_def unsigned_def digits_value_digits_nat)
next
  case False
  assume r: "in_int64 v"
  obtain b ds where d: "digits_nat (nat v) = b # ds" by (cases "digits_nat (nat v)") auto
  have b: "b \<noteq> CHR ''-''" "b \<noteq> CHR ''+''" using digits_nat_first [of "nat v"] d by auto
  have "unsigned (b # ds) = Some v"
    using digits_value_digits_nat [of "nat v"] d False by (simp add: unsigned_def)
  then show ?thesis using False r d b by (simp add: atoi_def itoa_def)
qed

lemma itoa_inject: "in_int64 v \<Longrightarrow> in_int64 w \<Longrightarrow> itoa v = itoa w \<longleftrightarrow> v = w"
  using atoi_itoa by (metis option.inject)

section \<open>Reading\<close>

datatype frame_error = EOF | BadContentLength string | MissingContentLength | UnexpectedEOF

text \<open>\<^verbatim>\<open>ReadString('\n')\<close>: the line with its newline, or the end of the stream.\<close>

fun read_line :: "string \<Rightarrow> (string \<times> string) option" where
  "read_line [] = None"
| "read_line (b # s) =
     (if b = newline then Some ([b], s)
      else map_option (\<lambda>(line, rest). (b # line, rest)) (read_line s))"

definition trim_right_crlf :: "string \<Rightarrow> string" where
  "trim_right_crlf s = rev (dropWhile (\<lambda>b. b = newline \<or> b = CHR 0x0D) (rev s))"

lemma read_line_append: "read_line s = Some (line, rest) \<Longrightarrow> s = line @ rest \<and> line \<noteq> []"
  by (induction s arbitrary: line rest) (auto split: if_splits)

lemma read_line_length: "read_line s = Some (line, rest) \<Longrightarrow> length rest < length s"
  using read_line_append by fastforce

text \<open>
  The folding of a header name against an ASCII literal looks only at orbits that meet ASCII,
  so the table of the other orbits does not matter.
\<close>

definition is_content_length :: "string \<Rightarrow> bool" where
  "is_content_length name \<longleftrightarrow> equal_fold id (trim_space name) ''Content-Length''"

function readHeaders :: "int \<Rightarrow> string \<Rightarrow> (frame_error + int) \<times> string" where
  "readHeaders contentLength s =
     (case read_line s of
        None \<Rightarrow> (Inl EOF, [])
      | Some (line, rest) \<Rightarrow>
          (let trimmed = trim_right_crlf line in
           if trimmed = [] then (Inr contentLength, rest)
           else (case cut_byte colon trimmed of
              None \<Rightarrow> readHeaders contentLength rest
            | Some (name, v) \<Rightarrow>
                if \<not> is_content_length name then readHeaders contentLength rest
                else (case atoi (trim_space v) of
                   None \<Rightarrow> (Inl (BadContentLength (trim_space v)), rest)
                 | Some n \<Rightarrow> readHeaders n rest))))"
  by pat_completeness auto
termination
  by (relation "measure (\<lambda>(n, s). length s)") (auto dest: read_line_length)

declare readHeaders.simps [simp del]

definition readFrame :: "string \<Rightarrow> (frame_error + string) \<times> string" where
  "readFrame s =
     (case readHeaders (-1) s of
        (Inl e, rest) \<Rightarrow> (Inl e, rest)
      | (Inr contentLength, rest) \<Rightarrow>
          if contentLength < 0 then (Inl MissingContentLength, rest)
          else (let n = nat contentLength in
            if n \<le> length rest then (Inr (take n rest), drop n rest)
            else (Inl (if rest = [] then EOF else UnexpectedEOF), [])))"

section \<open>Writing\<close>

definition frameBytes :: "string \<Rightarrow> string" where
  "frameBytes data = ''Content-Length: '' @ itoa (int (length data)) @ [CHR 0x0D, newline, CHR 0x0D, newline] @ data"

text \<open>
  \<open>writeFull\<close> over a writer: the writer takes a number of bytes of what it is offered, may
  fail, and moves to its next state. The result says how much was written, the error, and
  whether the completion callback ran.
\<close>

datatype write_error = ErrShortWrite | WriteFailed string

type_synonym 'w writer = "'w \<Rightarrow> string \<Rightarrow> (nat \<times> string option) \<times> 'w"

function writeFrom :: "'w writer \<Rightarrow> string \<Rightarrow> nat \<Rightarrow> 'w \<Rightarrow> (nat \<times> write_error option) \<times> 'w" where
  "writeFrom wr data written w =
     (if written < length data then
        (case wr w (drop written data) of
           ((n, err), w') \<Rightarrow>
             (case err of
                Some e \<Rightarrow> ((written + n, Some (WriteFailed e)), w')
              | None \<Rightarrow> if n = 0 then ((written, Some ErrShortWrite), w')
                        else writeFrom wr data (written + n) w'))
      else ((written, None), w))"
  by pat_completeness auto
termination
  by (relation "measure (\<lambda>(wr, data, written, w). length data - written)") auto

declare writeFrom.simps [simp del]

definition writeFull :: "'w writer \<Rightarrow> string \<Rightarrow> 'w \<Rightarrow> (nat \<times> write_error option) \<times> 'w" where
  "writeFull wr data w = writeFrom wr data 0 w"

section \<open>Round trip of a frame\<close>

lemma read_line_newline: "newline \<notin> set s \<Longrightarrow> read_line (s @ newline # t) = Some (s @ [newline], t)"
  by (induction s) auto

lemma trim_right_crlf_append:
  "s \<noteq> [] \<Longrightarrow> last s \<noteq> newline \<Longrightarrow> last s \<noteq> CHR 0x0D \<Longrightarrow> trim_right_crlf (s @ [CHR 0x0D, newline]) = s"
  by (cases s rule: rev_cases) (auto simp: trim_right_crlf_def)

lemma trim_space_digits:
  assumes "d \<noteq> []" "\<And>c. c \<in> set d \<Longrightarrow> isASCIIDigit c"
  shows "trim_space (CHR '' '' # d) = d"
proof -
  obtain b r where d: "d = b # r" using assms(1) by (cases d) auto
  have dig: "byte_val c < 0x80 \<and> \<not> isSpace (byte_val c)" if "c \<in> set d" for c
    using assms(2) [OF that] by (auto simp: isASCIIDigit_def isSpace_def)
  have "trim_left_space d = d"
    using dig [of b] decode_rune_ascii [of b r] d by (subst trim_left_space.simps) simp
  moreover have "trim_left_space (CHR '' '' # d) = trim_left_space d"
    using decode_rune_ascii [of "CHR '' ''" d] by (subst trim_left_space.simps) (simp add: isSpace_def)
  moreover have "trim_right_space d = d"
    using dig [of "last d"] assms(1) by (subst trim_right_space.simps) (simp add: decode_last_rune_def)
  ultimately show ?thesis by (simp add: trim_space_def)
qed

lemma cut_byte_append: "c \<notin> set a \<Longrightarrow> cut_byte c (a @ c # b) = Some (a, b)"
  by (induction a) auto

lemma content_length_name: "is_content_length ''Content-Length''"
proof -
  have "trim_space ''Content-Length'' = ''Content-Length''"
    by (simp add: trim_space_def trim_left_space.simps [of "''Content-Length''"]
        trim_right_space.simps [of "''Content-Length''"] decode_rune_ascii decode_last_rune_def isSpace_def)
  then show ?thesis by (simp add: is_content_length_def)
qed

lemma readHeaders_frame:
  assumes "in_int64 (int n)"
  shows "readHeaders k (''Content-Length: '' @ itoa (int n) @ [CHR 0x0D, newline, CHR 0x0D, newline] @ rest) =
    (Inr (int n), rest)"
proof -
  let ?d = "itoa (int n)"
  let ?h = "''Content-Length: '' @ ?d"
  have d: "?d \<noteq> []" "\<And>c. c \<in> set ?d \<Longrightarrow> isASCIIDigit c"
    using digits_nat_digits by (auto simp: itoa_def)
  have nl: "newline \<notin> set ?d" "CHR 0x0D \<notin> set ?d" 
    using d(2) [of newline] d(2) [of "CHR 0x0D"] by (auto simp: isASCIIDigit_def)
  have last: "last ?h = last ?d" using d(1) by simp
  have line: "read_line (?h @ [CHR 0x0D, newline, CHR 0x0D, newline] @ rest) =
      Some (?h @ [CHR 0x0D, newline], [CHR 0x0D, newline] @ rest)"
    using read_line_newline [of "?h @ [CHR 0x0D]" "[CHR 0x0D, newline] @ rest"] nl by simp
  have trim: "trim_right_crlf (?h @ [CHR 0x0D, newline]) = ?h"
    by (rule trim_right_crlf_append) (use d nl last last_in_set in force)+
  have cut: "cut_byte colon ?h = Some (''Content-Length'', CHR '' '' # ?d)"
    using cut_byte_append [of colon "''Content-Length''" "CHR '' '' # ?d"] by simp
  have blank: "readHeaders (int n) ([CHR 0x0D, newline] @ rest) = (Inr (int n), rest)"
    by (subst readHeaders.simps) (simp add: trim_right_crlf_def)
  have "readHeaders k (?h @ [CHR 0x0D, newline, CHR 0x0D, newline] @ rest) =
      readHeaders (int n) ([CHR 0x0D, newline] @ rest)"
    by (subst readHeaders.simps)
       (simp only: line option.case prod.case Let_def trim cut content_length_name trim_space_digits [OF d]
          atoi_itoa [OF assms], simp)
  then show ?thesis using blank by simp
qed

text \<open>
  A framing of messages on a byte stream: reading what was written gives the message back and
  leaves the rest of the stream, so a stream of messages is read back message by message.
\<close>

locale stream_codec =
  fixes enc :: "'m \<Rightarrow> string" and dec :: "string \<Rightarrow> ('e + 'm) \<times> string" and ok :: "'m \<Rightarrow> bool"
  assumes dec_enc: "ok m \<Longrightarrow> dec (enc m @ rest) = (Inr m, rest)"
begin

fun read_n :: "nat \<Rightarrow> string \<Rightarrow> ('e + 'm list) \<times> string" where
  "read_n 0 s = (Inr [], s)"
| "read_n (Suc n) s =
     (case dec s of
        (Inl e, r) \<Rightarrow> (Inl e, r)
      | (Inr m, r) \<Rightarrow> (case read_n n r of (Inl e, r') \<Rightarrow> (Inl e, r') | (Inr ms, r') \<Rightarrow> (Inr (m # ms), r')))"

lemma read_stream:
  "list_all ok ms \<Longrightarrow> read_n (length ms) (concat (map enc ms) @ rest) = (Inr ms, rest)"
  by (induction ms) (auto simp: dec_enc)

lemma enc_prefix_free: "ok m \<Longrightarrow> ok m' \<Longrightarrow> enc m @ r = enc m' @ r' \<Longrightarrow> m = m' \<and> r = r'"
  using dec_enc by (metis Inr_inject prod.inject)

end

definition frame_fits :: "string \<Rightarrow> bool" where
  "frame_fits data \<longleftrightarrow> in_int64 (int (length data))"

interpretation frames: stream_codec frameBytes readFrame frame_fits
proof unfold_locales
  fix m rest
  assume "frame_fits m"
  then have "readHeaders (-1) (frameBytes m @ rest) = (Inr (int (length m)), m @ rest)"
    using readHeaders_frame [of "length m" "-1" "m @ rest"] by (simp add: frame_fits_def frameBytes_def)
  then show "readFrame (frameBytes m @ rest) = (Inr m, rest)" by (simp add: readFrame_def)
qed

lemma readHeaders_suffix: "readHeaders k s = (Inr n, rest) \<Longrightarrow> \<exists>h. s = h @ rest \<and> h \<noteq> []"
proof (induction "length s" arbitrary: k s rule: less_induct)
  case less
  obtain line rest1 where line: "read_line s = Some (line, rest1)"
    using less.prems by (subst (asm) readHeaders.simps) (auto split: option.splits)
  have "rest = rest1 \<or> (\<exists>k'. readHeaders k' rest1 = (Inr n, rest))"
    using less.prems line by (subst (asm) readHeaders.simps) (auto simp: Let_def split: option.splits if_splits)
  then show ?case
    using less.hyps [OF read_line_length [OF line]] read_line_append [OF line] by fastforce
qed

definition sink_law :: "('w \<Rightarrow> string) \<Rightarrow> 'w writer \<Rightarrow> bool" where
  "sink_law wire wr \<longleftrightarrow>
     (\<forall>w d n err w'. wr w d = ((n, err), w') \<longrightarrow> n \<le> length d \<and> wire w' = wire w @ take n d)"

lemma sink_lawD: "sink_law wire wr \<Longrightarrow> wr w d = ((n, err), w') \<Longrightarrow> n \<le> length d \<and> wire w' = wire w @ take n d"
  unfolding sink_law_def by blast

lemma writeFrom_wire:
  "writeFrom wr data k w = ((n, err), w') \<Longrightarrow> sink_law wire wr \<Longrightarrow> k \<le> length data \<Longrightarrow>
   k \<le> n \<and> n \<le> length data \<and> (err = None \<longrightarrow> n = length data) \<and> wire w' = wire w @ take (n - k) (drop k data)"
proof (induction wr data k w rule: writeFrom.induct)
  case (1 wr data k w)
  show ?case
  proof (cases "k < length data")
    case False
    with 1 show ?thesis by (subst (asm) writeFrom.simps) auto
  next
    case True
    obtain m e w1 where w1: "wr w (drop k data) = ((m, e), w1)" by (cases "wr w (drop k data)") auto
    note law = sink_lawD [OF "1.prems"(2) w1]
    show ?thesis
    proof (cases "e = None \<and> m \<noteq> 0")
      case False
      with "1.prems"(1) True w1 law show ?thesis
        by (subst (asm) writeFrom.simps) (auto split: option.splits if_splits)
    next
      case go: True
      then have rec: "writeFrom wr data (k + m) w1 = ((n, err), w')"
        using "1.prems"(1) True w1 by (subst (asm) writeFrom.simps) simp
      have "k + m \<le> length data" using conjunct1 [OF law] True by (simp add: le_diff_conv2)
      then have ih: "k + m \<le> n" "n \<le> length data" "err = None \<longrightarrow> n = length data"
          "wire w' = wire w1 @ take (n - (k + m)) (drop (k + m) data)"
        using "1.IH" [OF True w1 [symmetric] refl] go rec "1.prems"(2) by auto
      have "take (n - k) (drop k data) = take m (drop k data) @ take (n - (k + m)) (drop (k + m) data)"
        using ih(1) take_add [of m "n - (k + m)" "drop k data"] by (simp add: add.commute)
      then show ?thesis using ih law by auto
    qed
  qed
qed

section \<open>One frame against the caller's cancellation\<close>

text \<open>
  \<open>writeFrameLocked\<close> runs \<open>writeFull\<close> in a goroutine of its own and decides by one atomic word
  whether the frame counts as dispatched. The state below has the bytes already on the wire,
  the word, the goroutine's progress and the caller's; \<open>fr_aborted\<close> records that the caller
  aborted the transport. Steps of both sides and the cancellation interleave freely.
\<close>

datatype frame_word = frameWriting | frameDispatched | frameAborted
datatype frame_goroutine = Writing | Completed | Reported "write_error option"

record frame_run =
  fr_total :: nat
  fr_sent :: nat
  fr_word :: frame_word
  fr_writer :: frame_goroutine
  fr_done :: bool
  fr_aborted :: bool
  fr_returned :: "bool option"

inductive frame_step :: "frame_run \<Rightarrow> frame_run \<Rightarrow> bool" where
  send: "fr_writer s = Writing \<Longrightarrow> 0 < n \<Longrightarrow> fr_sent s + n \<le> fr_total s \<Longrightarrow>
    frame_step s (s\<lparr>fr_sent := fr_sent s + n\<rparr>)"
| send_error: "fr_writer s = Writing \<Longrightarrow> fr_sent s < fr_total s \<Longrightarrow> fr_sent s + n \<le> fr_total s \<Longrightarrow>
    frame_step s (s\<lparr>fr_sent := fr_sent s + n, fr_writer := Reported (Some e)\<rparr>)"
| completed: "fr_writer s = Writing \<Longrightarrow> fr_sent s = fr_total s \<Longrightarrow>
    frame_step s (s\<lparr>fr_writer := Completed,
      fr_word := (if fr_word s = frameWriting then frameDispatched else fr_word s)\<rparr>)"
| report: "fr_writer s = Completed \<Longrightarrow> frame_step s (s\<lparr>fr_writer := Reported None\<rparr>)"
| ctx_done: "\<not> fr_done s \<Longrightarrow> frame_step s (s\<lparr>fr_done := True\<rparr>)"
| return_error: "fr_returned s = None \<Longrightarrow> fr_writer s = Reported (Some e) \<Longrightarrow>
    frame_step s (s\<lparr>fr_word := (if fr_word s = frameWriting then frameAborted else fr_word s),
      fr_aborted := True, fr_returned := Some False\<rparr>)"
| return_result: "fr_returned s = None \<Longrightarrow> fr_writer s = Reported None \<Longrightarrow>
    frame_step s (s\<lparr>fr_returned := Some (fr_word s = frameDispatched)\<rparr>)"
| return_canceled: "fr_returned s = None \<Longrightarrow> fr_done s \<Longrightarrow> fr_word s = frameWriting \<Longrightarrow>
    frame_step s (s\<lparr>fr_word := frameAborted, fr_aborted := True, fr_returned := Some False\<rparr>)"
| return_late: "fr_returned s = None \<Longrightarrow> fr_done s \<Longrightarrow> fr_word s \<noteq> frameWriting \<Longrightarrow> fr_writer s = Reported None \<Longrightarrow>
    frame_step s (s\<lparr>fr_returned := Some True\<rparr>)"

definition frame_start :: "string \<Rightarrow> frame_run" where
  "frame_start data = \<lparr>fr_total = length (frameBytes data), fr_sent = 0, fr_word = frameWriting,
     fr_writer = Writing, fr_done = False, fr_aborted = False, fr_returned = None\<rparr>"

definition frame_inv :: "frame_run \<Rightarrow> bool" where
  "frame_inv s \<longleftrightarrow> fr_sent s \<le> fr_total s \<and>
     (fr_word s = frameDispatched \<longrightarrow> fr_sent s = fr_total s \<and> fr_writer s \<noteq> Writing) \<and>
     (fr_word s = frameAborted \<longrightarrow> fr_returned s = Some False \<and> fr_aborted s) \<and>
     (fr_word s = frameWriting \<longrightarrow> fr_writer s \<noteq> Completed \<and> fr_writer s \<noteq> Reported None) \<and>
     (fr_returned s = Some True \<longrightarrow> fr_word s = frameDispatched \<and> \<not> fr_aborted s) \<and>
     (fr_returned s = Some False \<longrightarrow> fr_aborted s) \<and> (fr_returned s = None \<longrightarrow> \<not> fr_aborted s)"

interpretation frame_write: inductive_invariant "\<lambda>s. \<exists>data. s = frame_start data" frame_step frame_inv
proof unfold_locales
  fix s assume "\<exists>data. s = frame_start data"
  then show "frame_inv s" by (auto simp: frame_inv_def frame_start_def)
next
  fix s s' assume "frame_inv s" "frame_step s s'"
  from this(2,1) show "frame_inv s'"
    by (cases rule: frame_step.cases; cases "fr_word s") (auto simp: frame_inv_def split: if_splits)
qed

section \<open>Properties\<close>

text \<open>C2: any sequence of messages, framed one after the other, is read back message by message,
  and the reader stops exactly at what follows the last frame.\<close>

theorem frame_stream_roundtrip:
  assumes "list_all frame_fits messages"
  shows "frames.read_n (length messages) (concat (map frameBytes messages) @ rest) = (Inr messages, rest)"
  using assms by (rule frames.read_stream)

text \<open>A frame that \<open>readFrame\<close> accepts consumes a header block and exactly the body it
  returns; no byte of the stream is lost or invented.\<close>

lemma readFrame_consumes:
  assumes "readFrame s = (Inr body, rest)"
  shows "\<exists>header. s = header @ body @ rest \<and> header \<noteq> []"
proof -
  obtain n r where r: "readHeaders (-1) s = (Inr n, r)" "nat n \<le> length r" "body = take (nat n) r" "rest = drop (nat n) r"
    using assms by (auto simp: readFrame_def Let_def split: prod.splits sum.splits if_splits)
  then show ?thesis using readHeaders_suffix [OF r(1)] by auto
qed

text \<open>\<open>writeFull\<close> puts a prefix of the data on the wire, reports its length, and succeeds only
  with all of it written.\<close>

lemma writeFull_prefix:
  assumes "sink_law wire wr" and "writeFull wr data w = ((n, err), w')"
  shows "n \<le> length data \<and> wire w' = wire w @ take n data \<and> (err = None \<longrightarrow> n = length data)"
  using writeFrom_wire [OF assms(2) [unfolded writeFull_def] assms(1)] by simp

text \<open>In every interleaving of a frame write with its caller's cancellation, \<^verbatim>\<open>true\<close> is
  returned only with the whole frame on the wire and the transport not aborted by this write,
  and \<^verbatim>\<open>false\<close> only after the transport was aborted: a partial frame never stays on an open
  connection.\<close>

theorem writeFrame_arbitration:
  assumes "frame_step\<^sup>*\<^sup>* (frame_start data) s" and "fr_returned s = Some dispatched"
  shows "(dispatched \<longrightarrow> fr_sent s = fr_total s \<and> \<not> fr_aborted s) \<and> (\<not> dispatched \<longrightarrow> fr_aborted s)"
proof -
  have "frame_inv s" using frame_write.inv_reachable assms(1) by blast
  then show ?thesis using assms(2) by (cases dispatched) (auto simp: frame_inv_def)
qed

subsection \<open>Witnesses\<close>

theorem frame_stream_roundtrip_witness:
  "frames.read_n (length [''{}'', ''[1]'']) (concat (map frameBytes [''{}'', ''[1]'']) @ ''x'') =
   (Inr [''{}'', ''[1]''], ''x'')"
  by (rule frame_stream_roundtrip) (simp add: frame_fits_def in_int64_def)

theorem readFrame_consumes_witness:
  "\<exists>header. frameBytes ''{}'' @ ''x'' = header @ ''{}'' @ ''x'' \<and> header \<noteq> []"
proof -
  have "readFrame (frameBytes ''{}'' @ ''x'') = (Inr ''{}'', ''x'')"
    by (rule frames.dec_enc) (simp add: frame_fits_def in_int64_def)
  then show ?thesis by (rule readFrame_consumes)
qed

text \<open>A pipe that takes at most two bytes at a time.\<close>

definition pipe2 :: "string writer" where
  "pipe2 w d = ((min 2 (length d), None), w @ take 2 d)"

theorem writeFull_prefix_witness:
  "writeFull pipe2 ''abc'' [] = ((3, None), ''abc'') \<and> id ''abc'' = id [] @ take 3 ''abc''"
proof -
  have law: "sink_law id pipe2" by (auto simp: sink_law_def pipe2_def min_def)
  have run: "writeFull pipe2 ''abc'' [] = ((3, None), ''abc'')"
    by (simp add: writeFull_def writeFrom.simps pipe2_def)
  show ?thesis using writeFull_prefix [OF law run] run by simp
qed

theorem writeFrame_arbitration_witness:
  "fr_aborted ((frame_start ''{}'')\<lparr>fr_done := True, fr_word := frameAborted, fr_aborted := True, fr_returned := Some False\<rparr>)"
proof -
  let ?s0 = "frame_start ''{}''"
  let ?s1 = "?s0\<lparr>fr_done := True\<rparr>"
  have 1: "frame_step ?s0 ?s1" by (rule frame_step.ctx_done) (simp add: frame_start_def)
  have 2: "frame_step ?s1 (?s1\<lparr>fr_word := frameAborted, fr_aborted := True, fr_returned := Some False\<rparr>)"
    by (rule frame_step.return_canceled) (simp_all add: frame_start_def)
  have "frame_step\<^sup>*\<^sup>* ?s0 (?s1\<lparr>fr_word := frameAborted, fr_aborted := True, fr_returned := Some False\<rparr>)"
    using 1 2 by (meson rtranclp.rtrancl_into_rtrancl rtranclp.rtrancl_refl)
  from writeFrame_arbitration [OF this, of False] show ?thesis by simp
qed

end
