(* ===== verification/Eval_Process.thy ===== *)
theory Eval_Process
  imports Control_Socket Lsp_Framing "HOL-Library.Sublist"
begin

text \<open>
  How the harness watches the daemon process (\<^verbatim>\<open>src/eval/testinfra/daemon.go\<close>, \<^verbatim>\<open>daemon_output.go\<close>,
  \<^verbatim>\<open>analyzer.go\<close>, \<^verbatim>\<open>startup_failure.go\<close>, \<^verbatim>\<open>process_unix.go\<close>): polling, the process identifier of the wrapped
  analyzer, the capture of the standard output, the probe of the control socket, the check of a
  rejected start and the cleanup. What the operating system shows in each round is a parameter.
\<close>

section \<open>Polling\<close>

text \<open>The outer option is the loop not returning, the inner one the error. \<open>late i\<close>: the deadline has passed after round \<open>i\<close>.\<close>

partial_function (option) pollFrom :: "(nat \<Rightarrow> string + bool) \<Rightarrow> (nat \<Rightarrow> bool) \<Rightarrow> nat \<Rightarrow> string option option" where
  "pollFrom condition late i =
     (case condition i of
        Inl err \<Rightarrow> Some (Some err)
      | Inr ok \<Rightarrow>
          if ok then Some None
          else if late i then Some (Some ''deadline exceeded'')
          else pollFrom condition late (Suc i))"

definition Poll :: "(nat \<Rightarrow> string + bool) \<Rightarrow> (nat \<Rightarrow> bool) \<Rightarrow> string option option" where
  "Poll condition late = pollFrom condition late 0"

text \<open>What one round sees: a file, the exit of the daemon with its error, a control connection.\<close>

record glimpse =
  gl_exists :: bool
  gl_exit :: "string option option"
  gl_dials :: bool

definition exitText :: "string option \<Rightarrow> string" where
  "exitText err = ''daemon exited: '' @ (case err of None \<Rightarrow> ''<nil>'' | Some e \<Rightarrow> e)"

definition fileCondition :: "glimpse \<Rightarrow> string + bool" where
  "fileCondition g =
     (if gl_exists g then Inr True
      else case gl_exit g of Some err \<Rightarrow> Inl (exitText err) | None \<Rightarrow> Inr False)"

definition WaitForFile :: "(nat \<Rightarrow> glimpse) \<Rightarrow> (nat \<Rightarrow> bool) \<Rightarrow> string option option" where
  "WaitForFile world late = Poll (\<lambda>i. fileCondition (world i)) late"

definition socketCondition :: "glimpse \<Rightarrow> string + bool" where
  "socketCondition g = (case gl_exit g of Some err \<Rightarrow> Inl (exitText err) | None \<Rightarrow> Inr (gl_dials g))"

definition WaitForSocket :: "(nat \<Rightarrow> glimpse) \<Rightarrow> (nat \<Rightarrow> bool) \<Rightarrow> string option option" where
  "WaitForSocket world late = Poll (\<lambda>i. socketCondition (world i)) late"

datatype kill_errno = ESRCH | EPERM | OtherErrno nat

text \<open>\<^verbatim>\<open>kill(pid, 0)\<close>: any answer but \<^verbatim>\<open>ESRCH\<close> means that the process is there.\<close>

definition pidExists :: "kill_errno option \<Rightarrow> bool" where
  "pidExists err \<longleftrightarrow> err = None \<or> err \<noteq> Some ESRCH"

text \<open>The report of \<^verbatim>\<open>AssertPIDGone\<close>, if any.\<close>

definition AssertPIDGone :: "int \<Rightarrow> (nat \<Rightarrow> kill_errno option) \<Rightarrow> (nat \<Rightarrow> bool) \<Rightarrow> string option option" where
  "AssertPIDGone pid signal late =
     map_option (map_option (\<lambda>err. ''process PID '' @ itoa pid @ '' did not disappear: '' @ err))
       (Poll (\<lambda>i. Inr (\<not> pidExists (signal i))) late)"

section \<open>The process of the analyzer\<close>

record daemon =
  dm_childPID :: int
  dm_cleaned :: bool

datatype pid_error = PidWaitFailed string | PidReadFailed string | PidInvalid string

text \<open>The file as it is read after the wait: an error or its bytes.\<close>

definition WaitForPID :: "(nat \<Rightarrow> glimpse) \<Rightarrow> (nat \<Rightarrow> bool) \<Rightarrow> string + string \<Rightarrow> daemon \<Rightarrow> ((pid_error + int) \<times> daemon) option" where
  "WaitForPID world late content d =
     map_option (\<lambda>waited. case waited of
         Some err \<Rightarrow> (Inl (PidWaitFailed err), d)
       | None \<Rightarrow>
           (case content of
              Inl err \<Rightarrow> (Inl (PidReadFailed err), d)
            | Inr data \<Rightarrow>
                (case atoi (trim_space data) of
                   None \<Rightarrow> (Inl (PidInvalid data), d)
                 | Some pid \<Rightarrow> if pid \<le> 0 then (Inl (PidInvalid data), d) else (Inr pid, d\<lparr>dm_childPID := pid\<rparr>))))
       (WaitForFile world late)"

text \<open>What the wrapper script writes: \<^verbatim>\<open>echo $$\<close>.\<close>

definition wrapperOutput :: "int \<Rightarrow> string" where
  "wrapperOutput pid = itoa pid @ [newline]"

section \<open>The analyzer\<close>

definition RequiredTsgoVersion :: string where
  "RequiredTsgoVersion = ''Version 7.0.0-dev.20260707.2''"

datatype tsgo_error = TsgoMissing string | TsgoVersionFailed string | TsgoIncompatible string

definition tsgoStatus :: "(string \<Rightarrow> string + string) \<Rightarrow> (string \<Rightarrow> string + string) \<Rightarrow> tsgo_error + string" where
  "tsgoStatus lookupPath version =
     (case lookupPath ''tsgo'' of
        Inl err \<Rightarrow> Inl (TsgoMissing err)
      | Inr path \<Rightarrow>
          (case version path of
             Inl err \<Rightarrow> Inl (TsgoVersionFailed err)
           | Inr got \<Rightarrow> if trim_space got \<noteq> RequiredTsgoVersion then Inl (TsgoIncompatible (trim_space got)) else Inr path))"

text \<open>How \<^verbatim>\<open>tsgo --version\<close> ended: the error of the context, the error of the command, its output.\<close>

record command_end =
  ce_ctxErr :: "string option"
  ce_err :: "string option"
  ce_output :: string

definition tsgoVersion :: "(string \<Rightarrow> command_end) \<Rightarrow> string \<Rightarrow> string + string" where
  "tsgoVersion runVersion path =
     (let e = runVersion path in
      case ce_ctxErr e of
        Some err \<Rightarrow> Inl (path @ '' --version: '' @ err)
      | None \<Rightarrow>
          (case ce_err e of
             Some err \<Rightarrow> Inl (path @ '' --version: '' @ err @ '' ('' @ trim_space (ce_output e) @ '')'')
           | None \<Rightarrow> Inr (ce_output e)))"

definition resolveTsgo :: "(string \<Rightarrow> string + string) \<Rightarrow> (string \<Rightarrow> command_end) \<Rightarrow> tsgo_error + string" where
  "resolveTsgo lookPath runVersion = tsgoStatus lookPath (tsgoVersion runVersion)"

section \<open>The standard output\<close>

text \<open>
  One round of the capture: the bytes read, whether the read also ended the stream, and how a write to the
  MCP-facing pipe fails, if it does: the number of bytes its reader took.
\<close>

record read_round =
  rr_data :: string
  rr_end :: bool
  rr_failed :: "nat option"

record stdout_capture =
  so_captured :: string
  so_forwarded :: string
  so_forwarding :: bool
  so_done :: bool

definition captureRound :: "read_round \<Rightarrow> stdout_capture \<Rightarrow> stdout_capture" where
  "captureRound r s =
     (let s1 =
        (if rr_data r \<noteq> [] then
           (let s0 = s\<lparr>so_captured := so_captured s @ rr_data r\<rparr> in
            if so_forwarding s0 then
              (case rr_failed r of
                 None \<Rightarrow> s0\<lparr>so_forwarded := so_forwarded s0 @ rr_data r\<rparr>
               | Some n \<Rightarrow> s0\<lparr>so_forwarded := so_forwarded s0 @ take n (rr_data r), so_forwarding := False\<rparr>)
            else s0)
         else s)
      in if rr_end r then s1\<lparr>so_done := True\<rparr> else s1)"

fun captureProcessStdout :: "stdout_capture \<Rightarrow> read_round list \<Rightarrow> stdout_capture" where
  "captureProcessStdout s [] = s"
| "captureProcessStdout s (r # rs) =
     (if so_done (captureRound r s) then captureRound r s else captureProcessStdout (captureRound r s) rs)"

definition capture_start :: stdout_capture where
  "capture_start = \<lparr>so_captured = [], so_forwarded = [], so_forwarding = True, so_done = False\<rparr>"

section \<open>The control socket\<close>

definition idleProbe :: string where
  "idleProbe = ''unknown command'' @ [newline]"

text \<open>The checks of \<^verbatim>\<open>AcceptedIdleConnection\<close> on the outcomes of dialing, writing and reading: the message of its failure.\<close>

definition AcceptedIdleConnection :: "string option \<Rightarrow> string option \<Rightarrow> string + string \<Rightarrow> string option" where
  "AcceptedIdleConnection dialErr writeErr response =
     (case dialErr of
        Some err \<Rightarrow> Some (''connecting idle control client: '' @ err)
      | None \<Rightarrow>
     (case writeErr of
        Some err \<Rightarrow> Some (''proving idle control client acceptance: '' @ err)
      | None \<Rightarrow>
     (case response of
        Inl err \<Rightarrow> Some (''reading idle control response: '' @ err)
      | Inr line \<Rightarrow> if line \<noteq> ''err unknown'' @ [newline] then Some (''idle control response = '' @ line) else None)))"

datatype read_error = ReadEOF | ConnReset | ReadTimeout | OtherRead string

definition IsClosedConnError :: "read_error option \<Rightarrow> bool" where
  "IsClosedConnError err \<longleftrightarrow> err = Some ConnReset"

text \<open>Whether \<^verbatim>\<open>AssertConnectionClosed\<close> is content with a read of \<open>n\<close> bytes and its error.\<close>

definition AssertConnectionClosed :: "nat \<Rightarrow> read_error option \<Rightarrow> bool" where
  "AssertConnectionClosed n err \<longleftrightarrow> \<not> (n \<noteq> 0 \<or> (err \<noteq> Some ReadEOF \<and> \<not> IsClosedConnError err))"

section \<open>A start that must fail\<close>

record startup_failure =
  sf_WantError :: string
  sf_AbsentPaths :: "string list"

datatype startup_verdict =
    DidNotFail string
  | UnexpectedlyAccepted string
  | WrongError string
  | ArtifactsExist "string list"

text \<open>\<^verbatim>\<open>exists\<close>: whether \<^verbatim>\<open>Lstat\<close> answers anything but "not exist".\<close>

definition AssertDaemonStartupFailure :: "startup_failure \<Rightarrow> command_end \<Rightarrow> (string \<Rightarrow> bool) \<Rightarrow> startup_verdict option" where
  "AssertDaemonStartupFailure cfg e present =
     (if ce_ctxErr e \<noteq> None then Some (DidNotFail (ce_output e))
      else if ce_err e = None then Some (UnexpectedlyAccepted (ce_output e))
      else if index_sub (sf_WantError cfg) (ce_output e) = None then Some (WrongError (ce_output e))
      else
        (let left = filter present (sf_AbsentPaths cfg) in
         if left \<noteq> [] then Some (ArtifactsExist left) else None))"

section \<open>Cleanup\<close>

datatype cleanup_act =
    ClosedStdin
  | KilledDaemon
  | KilledChild int
  | ClosedStdout
  | Reported string

text \<open>What happens while the cleanup waits: the exit in time, the end of the output in time, the answers to signal 0.\<close>

record cleanup_world =
  cw_exits :: bool
  cw_eof :: bool
  cw_signal :: "nat \<Rightarrow> kill_errno option"
  cw_late :: "nat \<Rightarrow> bool"

definition forceExit :: "cleanup_world \<Rightarrow> int \<Rightarrow> cleanup_act list" where
  "forceExit w pid =
     (if cw_exits w then []
      else [Reported ''daemon did not exit during cleanup; forcing termination'', KilledDaemon] @
        (if pid \<noteq> 0 then [KilledChild pid] else []))"

definition FinishStdout :: "cleanup_world \<Rightarrow> bool \<times> cleanup_act list" where
  "FinishStdout w = (cw_eof w, [ClosedStdout])"

definition Cleanup :: "cleanup_world \<Rightarrow> daemon \<Rightarrow> (daemon \<times> cleanup_act list) option" where
  "Cleanup w d =
     (if dm_cleaned d then Some (d, [])
      else
        (let d' = d\<lparr>dm_cleaned := True\<rparr>;
             pid = dm_childPID d;
             (eof, closing) = FinishStdout w;
             acts = [ClosedStdin] @ forceExit w pid @ closing @
               (if \<not> eof then [Reported ''daemon stdout capture did not reach EOF''] else [])
         in if pid \<noteq> 0 then
              map_option (\<lambda>report. (d', acts @ (case report of None \<Rightarrow> [] | Some msg \<Rightarrow> [Reported msg])))
                (AssertPIDGone pid (cw_signal w) (cw_late w))
            else Some (d', acts)))"

section \<open>Lemmas\<close>

definition poll_ends :: "(nat \<Rightarrow> string + bool) \<Rightarrow> (nat \<Rightarrow> bool) \<Rightarrow> nat \<Rightarrow> string option \<Rightarrow> bool" where
  "poll_ends condition late i r \<longleftrightarrow>
     (case condition i of
        Inl err \<Rightarrow> r = Some err
      | Inr True \<Rightarrow> r = None
      | Inr False \<Rightarrow> late i \<and> r = Some ''deadline exceeded'')"

definition poll_goes_on :: "(nat \<Rightarrow> string + bool) \<Rightarrow> (nat \<Rightarrow> bool) \<Rightarrow> nat \<Rightarrow> bool" where
  "poll_goes_on condition late i \<longleftrightarrow> condition i = Inr False \<and> \<not> late i"

lemma first_index:
  assumes "\<exists>i :: nat. \<not> P i"
  obtains i where "\<not> P i" "\<forall>j < i. P j"
proof
  show "\<not> P (LEAST i. \<not> P i)" using assms by (rule LeastI_ex)
  show "\<forall>j < (LEAST i. \<not> P i). P j" using not_less_Least by blast
qed

lemma pollFrom_step:
  "pollFrom condition late i =
     (if poll_goes_on condition late i then pollFrom condition late (Suc i)
      else Some (case condition i of Inl err \<Rightarrow> Some err | Inr ok \<Rightarrow> if ok then None else Some ''deadline exceeded''))"
  by (subst pollFrom.simps) (auto simp: poll_goes_on_def split: sum.splits)

lemma pollFrom_skip: "\<forall>j. i \<le> j \<and> j < i + k \<longrightarrow> poll_goes_on condition late j \<Longrightarrow> pollFrom condition late i = pollFrom condition late (i + k)"
  by (induction k) (simp_all add: pollFrom_step [of condition late "i + _"])

lemma poll_ends_iff: "poll_ends condition late i r \<longleftrightarrow> \<not> poll_goes_on condition late i \<and>
    r = (case condition i of Inl err \<Rightarrow> Some err | Inr ok \<Rightarrow> if ok then None else Some ''deadline exceeded'')"
  by (auto simp: poll_ends_def poll_goes_on_def split: sum.splits bool.splits)

lemma Poll_ends:
  assumes "\<forall>j < i. poll_goes_on condition late j" "poll_ends condition late i r"
  shows "Poll condition late = Some r"
proof -
  have "Poll condition late = pollFrom condition late i" using pollFrom_skip [of 0 i condition late] assms(1) by (simp add: Poll_def)
  then show ?thesis using assms(2) by (simp add: pollFrom_step [of condition late i] poll_ends_iff)
qed

lemma pollFrom_forever:
  assumes "pollFrom condition late i = Some r"
  shows "\<exists>j \<ge> i. \<not> poll_goes_on condition late j"
  using assms
proof (rule pollFrom.raw_induct [where P = "\<lambda>condition late i r. \<exists>j \<ge> i. \<not> poll_goes_on condition late j", rotated], goal_cases)
  case (1 pf condition late i r)
  show ?case
  proof (cases "poll_goes_on condition late i")
    case True
    then have "pf condition late (Suc i) = Some r" using 1(2) by (simp add: poll_goes_on_def)
    from 1(1) [OF this] show ?thesis using Suc_leD by blast
  qed auto
qed

lemma Poll_iff: "Poll condition late = Some r \<longleftrightarrow> (\<exists>i. (\<forall>j < i. poll_goes_on condition late j) \<and> poll_ends condition late i r)"
proof
  assume some: "Poll condition late = Some r"
  then have "\<exists>j. \<not> poll_goes_on condition late j" using pollFrom_forever unfolding Poll_def by blast
  from this obtain i where "\<not> poll_goes_on condition late i" and before: "\<forall>j < i. poll_goes_on condition late j" by (rule first_index)
  then obtain r' where "poll_ends condition late i r'" by (auto simp: poll_ends_iff)
  then show "\<exists>i. (\<forall>j < i. poll_goes_on condition late j) \<and> poll_ends condition late i r"
    using before Poll_ends some by (metis option.inject)
qed (use Poll_ends in blast)

text \<open>A process identifier is read back as the wrapper wrote it.\<close>

lemma trim_space_snoc:
  assumes "d \<noteq> []" "\<And>c. c \<in> set d \<Longrightarrow> isASCIIDigit c"
  shows "trim_space (d @ [newline]) = d"
proof -
  obtain b r where d: "d = b # r" using assms(1) by (cases d) auto
  have dig: "byte_val c < 0x80 \<and> \<not> isSpace (byte_val c)" if "c \<in> set d" for c
    using assms(2) [OF that] by (auto simp: isASCIIDigit_def isSpace_def)
  have "trim_left_space (d @ [newline]) = d @ [newline]"
    using dig [of b] decode_rune_ascii [of b "r @ [newline]"] d by (subst trim_left_space.simps) simp
  moreover have "trim_right_space (d @ [newline]) = trim_right_space d"
    by (subst trim_right_space.simps) (simp add: decode_last_rune_def isSpace_def)
  moreover have "trim_right_space d = d"
    using dig [of "last d"] assms(1) by (subst trim_right_space.simps) (simp add: decode_last_rune_def)
  ultimately show ?thesis by (simp add: trim_space_def)
qed

lemma wrapperOutput_read:
  assumes "0 < pid" "pid < 2 ^ 63"
  shows "atoi (trim_space (wrapperOutput pid)) = Some pid"
proof -
  have "trim_space (wrapperOutput pid) = itoa pid"
    unfolding wrapperOutput_def using assms digits_nat_digits by (intro trim_space_snoc) (auto simp: itoa_def)
  then show ?thesis using atoi_itoa [of pid] assms by (simp add: in_int64_def)
qed

text \<open>
  The wait for the file ends when the file is there, which for a shell redirection is before its bytes are:
  a complete file gives the identifier, an empty one is refused.
\<close>

lemma WaitForPID_wrapper:
  assumes "WaitForFile world late = Some None" "0 < pid" "pid < 2 ^ 63"
  shows "WaitForPID world late (Inr (wrapperOutput pid)) d = Some (Inr pid, d\<lparr>dm_childPID := pid\<rparr>)"
    and "WaitForPID world late (Inr []) d = Some (Inl (PidInvalid []), d)"
proof -
  have "atoi (trim_space []) = None" by (simp add: trim_space_def trim_left_space.simps trim_right_space.simps atoi_def)
  then show "WaitForPID world late (Inr []) d = Some (Inl (PidInvalid []), d)" using assms(1) by (simp add: WaitForPID_def)
  show "WaitForPID world late (Inr (wrapperOutput pid)) d = Some (Inr pid, d\<lparr>dm_childPID := pid\<rparr>)"
    using assms by (simp add: WaitForPID_def wrapperOutput_read)
qed

text \<open>The bytes of the stream up to the read that ended it.\<close>

fun delivered :: "read_round list \<Rightarrow> string" where
  "delivered [] = []"
| "delivered (r # rs) = rr_data r @ (if rr_end r then [] else delivered rs)"

lemma captureRound_simps:
  "so_captured (captureRound r s) = so_captured s @ rr_data r"
  "so_done (captureRound r s) \<longleftrightarrow> rr_end r \<or> so_done s"
  "\<not> so_forwarding s \<Longrightarrow> so_forwarded (captureRound r s) = so_forwarded s \<and> \<not> so_forwarding (captureRound r s)"
  by (auto simp: captureRound_def Let_def split: option.splits)

definition capture_inv :: "stdout_capture \<Rightarrow> bool" where
  "capture_inv s \<longleftrightarrow> prefix (so_forwarded s) (so_captured s) \<and> (so_forwarding s \<longrightarrow> so_forwarded s = so_captured s)"

lemma captureRound_inv: "capture_inv s \<Longrightarrow> capture_inv (captureRound r s)"
  by (auto simp: capture_inv_def captureRound_def Let_def take_is_prefix intro: prefix_order.trans split: option.splits)

lemma captureProcessStdout_inv: "capture_inv s \<Longrightarrow> capture_inv (captureProcessStdout s rs)"
  by (induction s rs rule: captureProcessStdout.induct) (simp_all add: captureRound_inv)

lemma captureProcessStdout_all:
  "\<not> so_done s \<Longrightarrow> so_captured (captureProcessStdout s rs) = so_captured s @ delivered rs \<and>
     so_done (captureProcessStdout s rs) = (\<exists>r \<in> set rs. rr_end r)"
  by (induction s rs rule: captureProcessStdout.induct) (auto simp: captureRound_simps)

text \<open>The probe is answered without touching the generation.\<close>

lemma idle_probe_accepted:
  "commands idleProbe = [''unknown command''] \<and> snd (handleCommand ''unknown command'' g) = g \<and>
   AcceptedIdleConnection None None (Inr (fst (handleCommand ''unknown command'' g))) = None"
proof -
  have scan: "scanToken True idleProbe = Token ''unknown command'' []" "scanToken True [] = Stop"
    by (simp_all add: idleProbe_def scanToken_def maxScanTokenSize_def dropCR_def)
  have "trim_space ''unknown command'' = ''unknown command''"
    by (simp add: trim_space_def trim_left_space.simps [of "''unknown command''"]
        trim_right_space.simps [of "''unknown command''"] decode_rune_ascii decode_last_rune_def isSpace_def)
  moreover have "\<not> isSync ''unknown command''"
    by (simp add: isSync_def go_Fields_def fieldsWalk.simps decode_rune_ascii isSpace_def)
  ultimately have "commands idleProbe = [''unknown command'']" "\<not> isSync ''unknown command''"
    using commands_Token [OF scan(1)] commands_Stop [OF scan(2)] by simp_all
  then show ?thesis by (simp add: handleCommand_eq AcceptedIdleConnection_def errUnknown_def)
qed

lemma resolveTsgo_ok:
  "resolveTsgo lookPath runVersion = Inr path \<longleftrightarrow> lookPath ''tsgo'' = Inr path \<and> ce_ctxErr (runVersion path) = None \<and>
     ce_err (runVersion path) = None \<and> trim_space (ce_output (runVersion path)) = RequiredTsgoVersion"
  by (auto simp: resolveTsgo_def tsgoStatus_def tsgoVersion_def Let_def split: sum.splits option.splits if_splits)

section \<open>Properties\<close>

text \<open>A poll evaluates its condition at least once and stops at the first round that fails, succeeds or ends after the
  deadline, with the answer of that round; it returns as soon as any round is late.\<close>

theorem Poll_first:
  "(Poll condition late = Some r \<longleftrightarrow> (\<exists>i. (\<forall>j < i. condition j = Inr False \<and> \<not> late j) \<and>
      (condition i = Inr True \<and> r = None \<or> (\<exists>err. condition i = Inl err \<and> r = Some err) \<or>
       condition i = Inr False \<and> late i \<and> r = Some ''deadline exceeded''))) \<and>
   ((\<exists>i. late i) \<longrightarrow> Poll condition late \<noteq> None)"
proof (rule conjI)
  have ends: "poll_ends condition late i r \<longleftrightarrow> condition i = Inr True \<and> r = None \<or> (\<exists>err. condition i = Inl err \<and> r = Some err) \<or>
      condition i = Inr False \<and> late i \<and> r = Some ''deadline exceeded''" for i
    by (auto simp: poll_ends_def split: sum.splits bool.splits)
  show "Poll condition late = Some r \<longleftrightarrow> (\<exists>i. (\<forall>j < i. condition j = Inr False \<and> \<not> late j) \<and>
      (condition i = Inr True \<and> r = None \<or> (\<exists>err. condition i = Inl err \<and> r = Some err) \<or>
       condition i = Inr False \<and> late i \<and> r = Some ''deadline exceeded''))"
    using Poll_iff [of condition late r] by (simp only: ends poll_goes_on_def)
  show "(\<exists>i. late i) \<longrightarrow> Poll condition late \<noteq> None"
  proof (intro impI)
    assume "\<exists>i. late i"
    then have "\<exists>i. \<not> poll_goes_on condition late i" by (auto simp: poll_goes_on_def)
    from this obtain i where i: "\<not> poll_goes_on condition late i" "\<forall>j < i. poll_goes_on condition late j" by (rule first_index)
    then obtain r' where "poll_ends condition late i r'" by (auto simp: poll_ends_iff)
    from Poll_ends [OF i(2) this] show "Poll condition late \<noteq> None" by simp
  qed
qed

text \<open>The cleanup runs once and leaves nothing behind unnoticed: it kills the daemon and the analyzer if the daemon does
  not exit in time, and it reports nothing exactly when the daemon exited in time, its output was
  captured to the end and the analyzer was seen gone before the deadline.\<close>

theorem Cleanup_thorough:
  assumes "\<not> dm_cleaned d" "Cleanup w d = Some (d', acts)"
  shows "Cleanup w' d' = Some (d', []) \<and> dm_childPID d' = dm_childPID d \<and>
    (\<not> cw_exits w \<longrightarrow> KilledDaemon \<in> set acts \<and> (dm_childPID d \<noteq> 0 \<longrightarrow> KilledChild (dm_childPID d) \<in> set acts)) \<and>
    (cw_exits w \<longrightarrow> set acts \<inter> {KilledDaemon, KilledChild (dm_childPID d)} = {}) \<and>
    ((\<forall>msg. Reported msg \<notin> set acts) \<longleftrightarrow> cw_exits w \<and> cw_eof w \<and>
       (dm_childPID d \<noteq> 0 \<longrightarrow> (\<exists>i. cw_signal w i = Some ESRCH \<and> (\<forall>j < i. \<not> cw_late w j))))"
proof -
  let ?gone = "\<exists>i. cw_signal w i = Some ESRCH \<and> (\<forall>j < i. \<not> cw_late w j)"
  let ?poll = "Poll (\<lambda>i. Inr (\<not> pidExists (cw_signal w i))) (cw_late w)"
  have gone: "?poll = Some None \<longleftrightarrow> ?gone"
  proof -
    have "?poll = Some None \<longleftrightarrow> (\<exists>i. (\<forall>j < i. pidExists (cw_signal w j) \<and> \<not> cw_late w j) \<and> \<not> pidExists (cw_signal w i))"
      unfolding Poll_iff poll_ends_iff poll_goes_on_def by auto
    also have "\<dots> \<longleftrightarrow> ?gone"
    proof
      assume ?gone
      then obtain k where k: "cw_signal w k = Some ESRCH" "\<forall>j < k. \<not> cw_late w j" by blast
      have dead: "\<not> pidExists (cw_signal w k)" using k(1) by (simp add: pidExists_def)
      then have "\<exists>i. \<not> pidExists (cw_signal w i)" ..
      from this obtain i where i: "\<not> pidExists (cw_signal w i)" "\<forall>j < i. pidExists (cw_signal w j)" by (rule first_index)
      then have "i \<le> k" using dead leI by blast
      with i show "\<exists>i. (\<forall>j < i. pidExists (cw_signal w j) \<and> \<not> cw_late w j) \<and> \<not> pidExists (cw_signal w i)"
        using k(2) by (intro exI [of _ i]) auto
    qed (auto simp: pidExists_def)
    finally show ?thesis .
  qed
  have d': "d' = d\<lparr>dm_cleaned := True\<rparr>" and acts: "acts = [ClosedStdin] @ forceExit w (dm_childPID d) @ [ClosedStdout] @
      (if \<not> cw_eof w then [Reported ''daemon stdout capture did not reach EOF''] else []) @
      (if dm_childPID d = 0 \<or> ?gone then [] else [Reported (''process PID '' @ itoa (dm_childPID d) @ '' did not disappear: '' @ the (the ?poll))])"
    using assms gone by (auto simp: Cleanup_def FinishStdout_def AssertPIDGone_def Let_def split: if_splits option.splits)
  show ?thesis unfolding acts using d' by (auto simp: Cleanup_def forceExit_def)
qed

text \<open>The harness sees every byte that the daemon writes to its standard output, up to the end of the stream, whatever
  happens to the client of the pipe; the client gets a prefix of it, and all of it as long as no write
  to the client has failed.\<close>

theorem captureProcessStdout_complete:
  "(let s = captureProcessStdout capture_start rounds in
    so_captured s = delivered rounds \<and> prefix (so_forwarded s) (delivered rounds) \<and>
    (so_forwarding s \<longrightarrow> so_forwarded s = delivered rounds) \<and> (so_done s \<longleftrightarrow> (\<exists>r \<in> set rounds. rr_end r)))"
proof -
  have "capture_inv (captureProcessStdout capture_start rounds)"
    by (rule captureProcessStdout_inv) (simp add: capture_inv_def capture_start_def)
  then show ?thesis using captureProcessStdout_all [of capture_start rounds]
    by (simp add: capture_inv_def capture_start_def Let_def)
qed

section \<open>Witnesses\<close>

definition sample_world :: "nat \<Rightarrow> glimpse" where
  "sample_world i = \<lparr>gl_exists = (2 \<le> i), gl_exit = None, gl_dials = False\<rparr>"

theorem Poll_first_witness:
  "WaitForFile sample_world (\<lambda>i. 5 \<le> i) = Some None \<and> WaitForSocket sample_world (\<lambda>i. 5 \<le> i) \<noteq> None"
proof -
  have rounds: "fileCondition (sample_world 0) = Inr False" "fileCondition (sample_world 1) = Inr False" "fileCondition (sample_world 2) = Inr True"
    by (simp_all add: fileCondition_def sample_world_def)
  have "\<forall>j < 2. fileCondition (sample_world j) = Inr False \<and> \<not> 5 \<le> j" using rounds by (auto simp: less_2_cases_iff)
  then have "Poll (\<lambda>i. fileCondition (sample_world i)) (\<lambda>i. 5 \<le> i) = Some None"
    using Poll_first [of "\<lambda>i. fileCondition (sample_world i)" "\<lambda>i. 5 \<le> i" None] rounds(3) by blast
  moreover have "Poll (\<lambda>i. socketCondition (sample_world i)) (\<lambda>i. 5 \<le> i) \<noteq> None"
    using Poll_first [of "\<lambda>i. socketCondition (sample_world i)" "\<lambda>i. 5 \<le> i" None] by blast
  ultimately show ?thesis by (simp add: WaitForFile_def WaitForSocket_def)
qed

text \<open>A daemon that has to be killed; its analyzer is gone in the second round.\<close>

definition stuck_world :: cleanup_world where
  "stuck_world = \<lparr>cw_exits = False, cw_eof = True, cw_signal = (\<lambda>i. if i = 0 then None else Some ESRCH), cw_late = (\<lambda>i. 3 \<le> i)\<rparr>"

definition stuck_acts :: "cleanup_act list" where
  "stuck_acts = [ClosedStdin, Reported ''daemon did not exit during cleanup; forcing termination'', KilledDaemon, KilledChild 7, ClosedStdout]"

lemma stuck_cleanup:
  "Cleanup stuck_world \<lparr>dm_childPID = 7, dm_cleaned = False\<rparr> = Some (\<lparr>dm_childPID = 7, dm_cleaned = True\<rparr>, stuck_acts)"
proof -
  have "Poll (\<lambda>i. Inr (\<not> pidExists (cw_signal stuck_world i))) (cw_late stuck_world) = Some None"
    by (rule Poll_ends [of 1]) (simp_all add: poll_goes_on_def poll_ends_def stuck_world_def pidExists_def)
  then show ?thesis by (simp add: Cleanup_def AssertPIDGone_def forceExit_def FinishStdout_def stuck_acts_def) (simp add: stuck_world_def)
qed

theorem Cleanup_thorough_witness:
  "KilledChild 7 \<in> set stuck_acts \<and> Cleanup stuck_world \<lparr>dm_childPID = 7, dm_cleaned = True\<rparr> = Some (\<lparr>dm_childPID = 7, dm_cleaned = True\<rparr>, [])"
proof -
  have "\<not> dm_cleaned \<lparr>dm_childPID = 7, dm_cleaned = False\<rparr>" by simp
  from Cleanup_thorough [OF this stuck_cleanup, of stuck_world] show ?thesis by (simp add: stuck_world_def)
qed

definition sample_rounds :: "read_round list" where
  "sample_rounds = [\<lparr>rr_data = ''ab'', rr_end = False, rr_failed = None\<rparr>, \<lparr>rr_data = ''cd'', rr_end = True, rr_failed = None\<rparr>]"

theorem captureProcessStdout_complete_witness:
  "so_forwarded (captureProcessStdout capture_start sample_rounds) = ''abcd'' \<and> so_done (captureProcessStdout capture_start sample_rounds)"
proof -
  have "so_forwarding (captureProcessStdout capture_start sample_rounds)" "delivered sample_rounds = ''abcd''" by code_simp+
  then show ?thesis using captureProcessStdout_complete [of sample_rounds] by (simp add: Let_def sample_rounds_def)
qed

end
