(* ===== verification/Eval_Daemon.thy ===== *)
theory Eval_Daemon
  imports Daemon_Main Telemetry_Tee Eval_Process "HOL-Library.AList"
begin

text \<open>
  How the harness launches the real daemon (\<^verbatim>\<open>src/eval/testinfra/daemon.go\<close>): the environment and the arguments
  it gives the daemon, composed with the daemon's own parser and with the choice of its telemetry sinks,
  and the order of the checks before the start. Which system calls fail is a parameter.
\<close>

section \<open>The environment of the daemon\<close>

definition entryKey :: "string \<Rightarrow> string" where
  "entryKey entry = (case cut_byte (CHR ''='') entry of Some (key, _) \<Rightarrow> key | None \<Rightarrow> entry)"

definition removedKey :: "(string \<times> string) list \<Rightarrow> string list \<Rightarrow> string \<Rightarrow> bool" where
  "removedKey overrides omitted key \<longleftrightarrow> key \<in> set (map fst overrides) \<or> key \<in> set omitted \<or>
     has_prefix key ''OTEL_EXPORTER_OTLP_'' \<or> has_prefix key ''OTEL_BSP_'' \<or> key = ''OTEL_SDK_DISABLED''"

text \<open>The map of overrides is a list with different keys, in the order in which the loop visits it.\<close>

definition controlledDaemonEnv :: "string list \<Rightarrow> (string \<times> string) list \<Rightarrow> string list \<Rightarrow> string list" where
  "controlledDaemonEnv environ overrides omitted =
     filter (\<lambda>entry. \<not> removedKey overrides omitted (entryKey entry)) environ @ map (\<lambda>(key, v). key @ ''='' @ v) overrides"

text \<open>
  The value that a process started with an environment finds: \<^verbatim>\<open>os/exec\<close> keeps the last entry of a key,
  and an entry without an equals sign is no variable.
\<close>

definition envLookup :: "string list \<Rightarrow> string \<Rightarrow> string option" where
  "envLookup env key = (if key = [] then None else map_of (rev (List.map_filter (cut_byte (CHR ''='')) env)) key)"

definition getenv :: "string list \<Rightarrow> string \<Rightarrow> string" where
  "getenv env key = (case envLookup env key of Some v \<Rightarrow> v | None \<Rightarrow> [])"

section \<open>The command\<close>

record harness =
  hc_ProjectRoot :: string
  hc_Telemetry :: string
  hc_SessionID :: string
  hc_GraphMode :: string
  hc_MaxResults :: int
  hc_ControlSocket :: string
  hc_Env :: "(string \<times> string) list"

text \<open>\<^verbatim>\<open>filepath.Join\<close>: the elements from the first non-empty one on, cleaned.\<close>

definition pathJoin :: "string list \<Rightarrow> string" where
  "pathJoin elems = (case dropWhile (\<lambda>e. e = []) elems of [] \<Rightarrow> [] | es \<Rightarrow> path_clean (join [slash] es))"

definition FixtureRoot :: "string \<Rightarrow> string" where
  "FixtureRoot moduleRoot = pathJoin [moduleRoot, ''eval'', ''tiera'', ''fixtures'']"

definition projectRootOf :: "string \<Rightarrow> harness \<Rightarrow> string" where
  "projectRootOf moduleRoot h = (if hc_ProjectRoot h = [] then FixtureRoot moduleRoot else hc_ProjectRoot h)"

definition telemetryOf :: "string \<Rightarrow> harness \<Rightarrow> string" where
  "telemetryOf dir h = (if hc_Telemetry h = [] then pathJoin [dir, ''telemetry.jsonl''] else hc_Telemetry h)"

definition wrapperOf :: "string \<Rightarrow> string" where
  "wrapperOf dir = pathJoin [dir, ''tsgo-wrapper.sh'']"

definition pidFileOf :: "string \<Rightarrow> string" where
  "pidFileOf dir = pathJoin [dir, ''tsgo.pid'']"

definition daemonArgs :: "string \<Rightarrow> string \<Rightarrow> harness \<Rightarrow> string list" where
  "daemonArgs moduleRoot dir h =
     [''--project-root'', projectRootOf moduleRoot h, ''--jsonl'', telemetryOf dir h, ''--session-id'', hc_SessionID h,
      ''--graph-mode'', hc_GraphMode h, ''--tsgo'', wrapperOf dir] @
     (if 0 < hc_MaxResults h then [''--max-results'', itoa (hc_MaxResults h)] else []) @
     (if hc_ControlSocket h \<noteq> [] then [''--control-socket'', hc_ControlSocket h] else [])"

definition setKey :: "string \<Rightarrow> string \<Rightarrow> (string \<times> string) list \<Rightarrow> (string \<times> string) list" where
  "setKey key v kvs = AList.update key v kvs"

definition daemonEnv :: "string list \<Rightarrow> string \<Rightarrow> string \<Rightarrow> harness \<Rightarrow> string list" where
  "daemonEnv environ realTsgo dir h =
     controlledDaemonEnv environ
       (setKey ''PORTOLAN_TSGO_PID_FILE'' (pidFileOf dir) (setKey ''PORTOLAN_REAL_TSGO'' realTsgo (hc_Env h))) []"

section \<open>The start\<close>

datatype launch_failure =
    NotSupported string
  | AnalyzerUnavailable tsgo_error
  | SetupFailed string

datatype verdict = SkipTest launch_failure | FatalTest launch_failure

definition RequireTsgoEnv :: string where
  "RequireTsgoEnv = ''PORTOLAN_REQUIRE_TSGO''"

text \<open>What the start meets: the platform, the analyzer, and the errors of the system calls in their order.\<close>

record launch_world =
  lw_windows :: bool
  lw_listen :: "string option"
  lw_lookPath :: "string \<Rightarrow> string + string"
  lw_runVersion :: "string \<Rightarrow> command_end"
  lw_writeWrapper :: "string option"
  lw_pipe :: "string option"
  lw_stdin :: "string option"
  lw_start :: "string option"

definition RequireSupport :: "launch_world \<Rightarrow> verdict option" where
  "RequireSupport w =
     (if lw_windows w then Some (SkipTest (NotSupported ''daemon eval tests require Unix sockets and signals''))
      else case lw_listen w of
        Some err \<Rightarrow> Some (SkipTest (NotSupported (''Unix sockets unavailable: '' @ err)))
      | None \<Rightarrow> None)"

definition setupStep :: "string \<Rightarrow> string option \<Rightarrow> verdict + 'a \<Rightarrow> verdict + 'a" where
  "setupStep what outcome continue =
     (case outcome of Some err \<Rightarrow> Inl (FatalTest (SetupFailed (what @ err))) | None \<Rightarrow> continue)"

text \<open>A verdict of the test, or the arguments, the environment and the handle of a daemon that runs.\<close>

definition NewDaemon :: "launch_world \<Rightarrow> string \<Rightarrow> string \<Rightarrow> string list \<Rightarrow> harness \<Rightarrow> verdict + string list \<times> string list \<times> daemon" where
  "NewDaemon w moduleRoot dir environ h =
     (case RequireSupport w of
        Some v \<Rightarrow> Inl v
      | None \<Rightarrow>
     (case resolveTsgo (lw_lookPath w) (lw_runVersion w) of
        Inl err \<Rightarrow> Inl ((if getenv environ RequireTsgoEnv = ''1'' then FatalTest else SkipTest) (AnalyzerUnavailable err))
      | Inr realTsgo \<Rightarrow>
          setupStep ''writing tsgo wrapper: '' (lw_writeWrapper w)
          (setupStep ''opening daemon stdout pipe: '' (lw_pipe w)
          (setupStep ''opening daemon stdin: '' (lw_stdin w)
          (setupStep ''starting daemon: '' (lw_start w)
            (Inr (daemonArgs moduleRoot dir h, daemonEnv environ realTsgo dir h, \<lparr>dm_childPID = 0, dm_cleaned = False\<rparr>)))))))"

section \<open>Lemmas about the environment\<close>

lemma cut_byte_Some: "cut_byte c s = Some (a, b) \<Longrightarrow> s = a @ c # b \<and> c \<notin> set a"
  by (induction c s arbitrary: a rule: cut_byte.induct) (auto split: if_splits)

lemma entryKey_cut: "cut_byte (CHR ''='') entry = Some (key, v) \<Longrightarrow> entryKey entry = key"
  by (simp add: entryKey_def)

lemma map_filter_cut_kept:
  "map_of (rev (List.map_filter (cut_byte (CHR ''='')) (filter (\<lambda>entry. \<not> P (entryKey entry)) env))) key =
   (if P key then None else map_of (rev (List.map_filter (cut_byte (CHR ''='')) env)) key)"
  by (induction env rule: rev_induct)
    (auto simp: List.map_filter_def entryKey_def split: option.splits)

lemma map_filter_cut_overrides:
  assumes "\<forall>key \<in> set (map fst overrides). CHR ''='' \<notin> set key"
  shows "List.map_filter (cut_byte (CHR ''='')) (map (\<lambda>(key, v). key @ ''='' @ v) overrides) = overrides"
  using assms by (induction overrides) (auto simp: List.map_filter_simps cut_at_first)

lemma map_of_rev_distinct: "distinct (map fst kvs) \<Longrightarrow> map_of (rev kvs) = map_of kvs"
  by (rule map_of_eqI) (auto simp: rev_map [symmetric] map_of_eq_Some_iff)

definition proper_env :: "(string \<times> string) list \<Rightarrow> bool" where
  "proper_env overrides \<longleftrightarrow> distinct (map fst overrides) \<and> (\<forall>key \<in> set (map fst overrides). key \<noteq> [] \<and> CHR ''='' \<notin> set key)"

lemma envLookup_controlled:
  assumes "proper_env overrides"
  shows "envLookup (controlledDaemonEnv environ overrides omitted) key =
    (case map_of overrides key of
       Some v \<Rightarrow> Some v
     | None \<Rightarrow> if removedKey overrides omitted key then None else envLookup environ key)"
proof (cases "key = []")
  case True
  then have "map_of overrides key = None" using assms by (auto simp: proper_env_def map_of_eq_None_iff)
  then show ?thesis using True by (simp add: envLookup_def)
next
  case False
  have "List.map_filter (cut_byte (CHR ''='')) (controlledDaemonEnv environ overrides omitted) =
      List.map_filter (cut_byte (CHR ''='')) (filter (\<lambda>entry. \<not> removedKey overrides omitted (entryKey entry)) environ) @ overrides"
    using map_filter_cut_overrides [of overrides] assms
    by (auto simp: controlledDaemonEnv_def proper_env_def List.map_filter_def)
  then show ?thesis using False assms
    by (auto simp: envLookup_def map_filter_cut_kept map_of_rev_distinct proper_env_def map_add_def split: option.splits)
qed

text \<open>The wrapper of the analyzer finds its two variables whatever the test sets.\<close>

lemma proper_env_setKey: "proper_env kvs \<Longrightarrow> key \<noteq> [] \<Longrightarrow> CHR ''='' \<notin> set key \<Longrightarrow> proper_env (setKey key v kvs)"
  by (auto simp: proper_env_def setKey_def update_keys simp del: set_map)

lemma daemonEnv_wrapper:
  assumes "proper_env (hc_Env h)"
  shows "envLookup (daemonEnv environ realTsgo dir h) ''PORTOLAN_REAL_TSGO'' = Some realTsgo"
    and "envLookup (daemonEnv environ realTsgo dir h) ''PORTOLAN_TSGO_PID_FILE'' = Some (pidFileOf dir)"
proof -
  have "proper_env (setKey ''PORTOLAN_TSGO_PID_FILE'' (pidFileOf dir) (setKey ''PORTOLAN_REAL_TSGO'' realTsgo (hc_Env h)))"
    using assms by (simp add: proper_env_setKey)
  from envLookup_controlled [OF this]
  show "envLookup (daemonEnv environ realTsgo dir h) ''PORTOLAN_REAL_TSGO'' = Some realTsgo"
    and "envLookup (daemonEnv environ realTsgo dir h) ''PORTOLAN_TSGO_PID_FILE'' = Some (pidFileOf dir)"
    by (simp_all add: daemonEnv_def setKey_def update_conv)
qed

text \<open>A daemon is only ever started over the pinned analyzer, and its wrapper is pointed at that analyzer.\<close>

lemma NewDaemon_started:
  assumes "NewDaemon w moduleRoot dir environ h = Inr (args, env, d)" "proper_env (hc_Env h)"
  shows "args = daemonArgs moduleRoot dir h \<and> \<not> dm_cleaned d \<and> dm_childPID d = 0 \<and>
    (\<exists>realTsgo. envLookup env ''PORTOLAN_REAL_TSGO'' = Some realTsgo \<and> lw_lookPath w ''tsgo'' = Inr realTsgo \<and>
       trim_space (ce_output (lw_runVersion w realTsgo)) = RequiredTsgoVersion)"
proof -
  obtain realTsgo where "resolveTsgo (lw_lookPath w) (lw_runVersion w) = Inr realTsgo" "args = daemonArgs moduleRoot dir h"
      "env = daemonEnv environ realTsgo dir h" "d = \<lparr>dm_childPID = 0, dm_cleaned = False\<rparr>"
    using assms(1) by (auto simp: NewDaemon_def setupStep_def split: option.splits sum.splits)
  then show ?thesis using daemonEnv_wrapper(1) [OF assms(2)] by (simp add: resolveTsgo_ok)
qed

lemma NewDaemon_missing_analyzer:
  assumes "RequireSupport w = None" "resolveTsgo (lw_lookPath w) (lw_runVersion w) = Inl err"
  shows "NewDaemon w moduleRoot dir environ h =
    Inl (if getenv environ RequireTsgoEnv = ''1'' then FatalTest (AnalyzerUnavailable err) else SkipTest (AnalyzerUnavailable err))"
  using assms by (simp add: NewDaemon_def)

section \<open>Lemmas about the arguments\<close>

lemma parseFlags_two:
  assumes "definedFlag name" "acceptsValue name v"
  shows "parseFlags flags ((''--'' @ name) # v # args) = parseFlags ((name, v) # flags) args"
  using defined_name [OF assms(1)] assms cutFlag_defined [OF assms(1)]
  by (cases name) (auto simp: setFlag_def flagName_def)

lemma digitsValue_append:
  "digitsValue base acc (s @ t) = (case digitsValue base acc s of None \<Rightarrow> None | Some n \<Rightarrow> digitsValue base n t)"
  by (induction s arbitrary: acc) (auto split: option.splits)

lemma digit_underscore: "\<not> isASCIIDigit (CHR ''_'')"
  by (simp add: isASCIIDigit_def)

lemma digitValue_digit:
  assumes "d < 10"
  shows "digitValue (char_of (48 + d)) = Some (int d)" and "char_of (48 + d) \<noteq> CHR ''_''"
proof -
  show "digitValue (char_of (48 + d)) = Some (int d)" using assms by (simp add: digitValue_def)
  show "char_of (48 + d) \<noteq> CHR ''_''" using digit_char(1) [OF assms] by (metis digit_underscore)
qed

lemma digit_zero: "(d :: nat) < 10 \<Longrightarrow> char_of (48 + d) = CHR ''0'' \<Longrightarrow> d = 0"
  using digit_char(2) [of d] by auto

lemma digitsValue_digits: "digitsValue 10 0 (digits_nat n) = Some (int n)"
proof (induction n rule: digits_nat.induct)
  case (1 n)
  show ?case
  proof (cases "n < 10")
    case True
    then show ?thesis using digitValue_digit [of n] by (subst digits_nat.simps) simp
  next
    case False
    have "int (n div 10) * 10 + int (n mod 10) = int n" by (metis div_mult_mod_eq of_nat_add of_nat_mult of_nat_numeral)
    with False 1 show ?thesis
      using digitValue_digit [of "n mod 10"] by (subst digits_nat.simps) (auto simp: digitsValue_append)
  qed
qed

lemma digits_no_zero_first: "0 < n \<Longrightarrow> hd (digits_nat n) \<noteq> CHR ''0''"
proof (induction n rule: digits_nat.induct)
  case (1 n)
  show ?case
  proof (cases "n < 10")
    case True
    then show ?thesis using 1 digit_zero [of n] by (subst digits_nat.simps) auto
  next
    case False
    with 1 show ?thesis by (subst digits_nat.simps) simp
  qed
qed

lemma parseInt0_itoa:
  assumes "0 < n" "n < 2 ^ 63"
  shows "parseInt0 (itoa n) = Some n"
proof -
  have digits: "CHR ''_'' \<notin> set (digits_nat (nat n))" using digits_nat_digits by (force simp: isASCIIDigit_def)
  have "parseUint0 (digits_nat (nat n)) = Some n"
    using digits_no_zero_first [of "nat n"] digitsValue_digits [of "nat n"] digits assms
    by (simp add: parseUint0_def basePrefix_def)
  then show ?thesis using assms digits_nat_first [of "nat n"] by (simp add: parseInt0_def itoa_def)
qed

definition daemonFlags :: "string \<Rightarrow> string \<Rightarrow> harness \<Rightarrow> (string \<times> string) list" where
  "daemonFlags moduleRoot dir h =
     rev ([(''project-root'', projectRootOf moduleRoot h), (''jsonl'', telemetryOf dir h), (''session-id'', hc_SessionID h),
       (''graph-mode'', hc_GraphMode h), (''tsgo'', wrapperOf dir)] @
       (if 0 < hc_MaxResults h then [(''max-results'', itoa (hc_MaxResults h))] else []) @
       (if hc_ControlSocket h \<noteq> [] then [(''control-socket'', hc_ControlSocket h)] else []))"

lemma parseFlags_daemonArgs:
  assumes "hc_MaxResults h < 2 ^ 63"
  shows "parseFlags [] (daemonArgs moduleRoot dir h) = Inr (daemonFlags moduleRoot dir h)"
proof -
  have two: "parseFlags flags ((''--'' @ name) # v # args) = parseFlags ((name, v) # flags) args"
    if "name \<in> set stringFlags" for name v flags args
    using that parseFlags_two [of name v] by (auto simp: definedFlag_def acceptsValue_def stringFlags_def intFlags_def)
  have tail: "parseFlags flags (if hc_ControlSocket h \<noteq> [] then [''--control-socket'', hc_ControlSocket h] else []) =
      Inr ((if hc_ControlSocket h \<noteq> [] then [(''control-socket'', hc_ControlSocket h)] else []) @ flags)" for flags
    using two [of "''control-socket''"] by (auto simp: stringFlags_def)
  have cap: "parseFlags flags ((if 0 < hc_MaxResults h then [''--max-results'', itoa (hc_MaxResults h)] else []) @ rest) =
      parseFlags ((if 0 < hc_MaxResults h then [(''max-results'', itoa (hc_MaxResults h))] else []) @ flags) rest" for flags rest
    using parseFlags_two [of "''max-results''" "itoa (hc_MaxResults h)"] parseInt0_itoa [of "hc_MaxResults h"] assms
    by (auto simp: definedFlag_def acceptsValue_def intFlags_def simp del: parseFlags.simps)
  note heads = two [of "''project-root''"] two [of "''jsonl''"] two [of "''session-id''"] two [of "''graph-mode''"] two [of "''tsgo''"]
  show ?thesis unfolding daemonArgs_def daemonFlags_def
    using heads by (simp add: stringFlags_def cap tail del: parseFlags.simps)
qed

section \<open>Properties\<close>

text \<open>C35: the environment of a daemon under the harness: an override is what the daemon finds, an omitted variable and every
  OpenTelemetry exporter setting of the caller is gone, anything else is as it was; so the daemon
  mirrors its telemetry exactly when an override names an endpoint.\<close>

theorem controlledDaemonEnv_lookup:
  assumes "proper_env overrides"
  shows "envLookup (controlledDaemonEnv environ overrides omitted) key =
      (case map_of overrides key of
         Some v \<Rightarrow> Some v
       | None \<Rightarrow> if removedKey overrides omitted key then None else envLookup environ key) \<and>
    (otlpEndpointConfigured (getenv (controlledDaemonEnv environ overrides omitted)) \<longleftrightarrow>
      (\<exists>name \<in> {''OTEL_EXPORTER_OTLP_TRACES_ENDPOINT'', ''OTEL_EXPORTER_OTLP_ENDPOINT''}. \<exists>v.
         map_of overrides name = Some v \<and> trim_space v \<noteq> []))"
proof -
  have blank: "trim_space [] = []" by (simp add: trim_space_def trim_left_space.simps trim_right_space.simps)
  have "getenv (controlledDaemonEnv environ overrides omitted) name = (case map_of overrides name of Some v \<Rightarrow> v | None \<Rightarrow> [])"
    if "has_prefix name ''OTEL_EXPORTER_OTLP_''" for name
    using that envLookup_controlled [OF assms] by (auto simp: getenv_def removedKey_def split: option.splits)
  then show ?thesis using envLookup_controlled [OF assms] blank
    by (auto simp: otlpEndpointConfigured_def split: option.splits)
qed

text \<open>C34: the daemon reads from its arguments exactly the configuration that the harness wrote: whatever the strings are,
  the flags are read back one by one, so the configuration is accepted exactly when the paths are
  host paths and the dimensions are valid, and then nothing comes from the environment.\<close>

theorem daemonArgs_roundtrip:
  assumes "hc_MaxResults h < 2 ^ 63"
  shows "parseConfig env lookupEnv getwd (daemonArgs moduleRoot dir h) = Inr cfg \<longleftrightarrow>
    Canonicalize env (projectRootOf moduleRoot h) = Inr (cfg_ProjectRoot cfg) \<and>
    canonicalOptionalFlagPath env ''jsonl'' (telemetryOf dir h) = Inr (cfg_JSONLPath cfg) \<and>
    canonicalOptionalFlagPath env ''control-socket'' (hc_ControlSocket h) = Inr (cfg_ControlSocket cfg) \<and>
    trim_space (hc_SessionID h) \<noteq> [] \<and> hc_GraphMode h \<in> {''graph'', ''no-graph''} \<and>
    cfg_SessionID cfg = hc_SessionID h \<and> cfg_GraphMode cfg = hc_GraphMode h \<and> cfg_TsgoPath cfg = wrapperOf dir \<and>
    cfg_MaxResults cfg = max 0 (hc_MaxResults h)"
proof -
  let ?flags = "daemonFlags moduleRoot dir h"
  have read: "map_of ?flags ''project-root'' = Some (projectRootOf moduleRoot h)" "flagValue ?flags ''jsonl'' [] = telemetryOf dir h"
      "flagValue ?flags ''control-socket'' [] = hc_ControlSocket h" "flagValue ?flags ''session-id'' d = hc_SessionID h"
      "flagValue ?flags ''graph-mode'' d = hc_GraphMode h" "flagValue ?flags ''tsgo'' d = wrapperOf dir"
      "(case map_of ?flags ''max-results'' of None \<Rightarrow> 0 | Some v \<Rightarrow> the (parseInt0 v)) = max 0 (hc_MaxResults h)" for d
    using parseInt0_itoa [of "hc_MaxResults h"] assms by (simp_all add: flagValue_def daemonFlags_def)
  have "parseConfig env lookupEnv getwd (daemonArgs moduleRoot dir h) = buildConfig env lookupEnv getwd ?flags"
    using parseFlags_daemonArgs [OF assms] by (simp add: parseConfig_def)
  then show ?thesis
    by (cases cfg) (auto simp: buildConfig_def read Let_def canonicalFlagPath_def ValidateTelemetryDimensions_def
        split: sum.splits if_splits)
qed

section \<open>Witnesses\<close>

definition sample_harness :: harness where
  "sample_harness = \<lparr>hc_ProjectRoot = [], hc_Telemetry = ''/t/./x'', hc_SessionID = ''--'', hc_GraphMode = ''no-graph'', hc_MaxResults = 25,
     hc_ControlSocket = ''/s/c.sock'', hc_Env = [(''OTEL_EXPORTER_OTLP_ENDPOINT'', '' '')]\<rparr>"

definition sample_environ :: "string list" where
  "sample_environ = [''OTEL_EXPORTER_OTLP_TRACES_ENDPOINT=http://c'', ''HOME=/h'', ''HOME=/g'', ''A'']"

theorem controlledDaemonEnv_lookup_witness:
  "proper_env (hc_Env sample_harness) \<and>
   envLookup (controlledDaemonEnv sample_environ (hc_Env sample_harness) [''A'']) ''HOME'' = Some ''/g'' \<and>
   \<not> otlpEndpointConfigured (getenv (controlledDaemonEnv sample_environ (hc_Env sample_harness) [''A'']))"
proof -
  have proper: "proper_env (hc_Env sample_harness)" by (simp add: proper_env_def sample_harness_def)
  have blank: "trim_space '' '' = []" by code_simp
  have "envLookup sample_environ ''HOME'' = Some ''/g''" by code_simp
  moreover have "\<not> removedKey (hc_Env sample_harness) [''A''] ''HOME''" by code_simp
  ultimately show ?thesis
    using controlledDaemonEnv_lookup [OF proper, of sample_environ "[''A'']" "''HOME''"] proper blank by (simp add: sample_harness_def)
qed

definition harness_config :: Config where
  "harness_config = \<lparr>cfg_ProjectRoot = ''/m/eval/tiera/fixtures'', cfg_SessionID = ''--'', cfg_GraphMode = ''no-graph'',
     cfg_TsgoPath = ''/t/tsgo-wrapper.sh'', cfg_JSONLPath = ''/t/x'', cfg_ControlSocket = ''/s/c.sock'', cfg_MaxResults = 25\<rparr>"

theorem daemonArgs_roundtrip_witness:
  "parseConfig plain_env sample_lookup (Inl ''gone'') (daemonArgs ''/m'' ''/t/'' sample_harness) = Inr harness_config"
proof -
  let ?h = sample_harness
  have "hc_MaxResults ?h < 2 ^ 63" by (simp add: sample_harness_def)
  from daemonArgs_roundtrip [OF this, of plain_env sample_lookup "Inl ''gone''" "''/m''" "''/t/''" harness_config]
  show ?thesis
  proof (rule iffD2, intro conjI)
    show "Canonicalize plain_env (projectRootOf ''/m'' ?h) = Inr (cfg_ProjectRoot harness_config)" by code_simp
    show "canonicalOptionalFlagPath plain_env ''jsonl'' (telemetryOf ''/t/'' ?h) = Inr (cfg_JSONLPath harness_config)" by code_simp
    show "canonicalOptionalFlagPath plain_env ''control-socket'' (hc_ControlSocket ?h) = Inr (cfg_ControlSocket harness_config)"
      by code_simp
    show "trim_space (hc_SessionID ?h) \<noteq> []" by code_simp
    show "cfg_TsgoPath harness_config = wrapperOf ''/t/''" by code_simp
  qed (simp_all add: sample_harness_def harness_config_def)
qed

end
