(* ===== verification/Telemetry_Jsonl.thy ===== *)
theory Telemetry_Jsonl
  imports Telemetry_Record Transition_Systems "HOL-Library.Multiset" "HOL-Library.Sublist"
begin

text \<open>
  The JSONL logger (\<^verbatim>\<open>src/internal/telemetry/jsonl.go\<close>, \<^verbatim>\<open>jsonl_lifecycle.go\<close>): admission of events
  to a bounded queue, the one writer, the accounting of every event and the shutdown. Callers of
  \<^verbatim>\<open>Log\<close>, the writer and \<^verbatim>\<open>Close\<close> interleave as a step relation, with one step for every atomic
  operation on the shared state and one for every critical section. A timer may fire at any
  moment; it may also give up while the writer, its loop done, syncs or closes the file, which the theory
  \<^verbatim>\<open>Jsonl_Shutdown\<close> models. Diagnostics and the counters of oversize records do not act on this state.
\<close>

section \<open>State\<close>

datatype drop_reason = QueueTimeoutDrop | CanceledDrop | PostCloseDrop | SinkFailureDrop

text \<open>
  Where a call of \<^verbatim>\<open>Log\<close> stands. From \<open>Admitting\<close> to \<open>Sending\<close> it holds the read lock of \<^verbatim>\<open>admitMu\<close>;
  from \<open>Slotted\<close> on it owns a slot.
\<close>

datatype log_pc =
    Arrived
  | Encoded
  | Admitting
  | WaitingSlot
  | Slotted
  | Checked
  | Sending
  | Accepted
  | Dropped drop_reason

record log_call =
  lc_line :: string
  lc_pc :: log_pc

datatype writer_pc = Idle | Holding string | WritingLine string | Exited

record jsonl =
  jl_capacity :: nat
  jl_closedState :: bool
  jl_closed :: bool
  jl_failed :: bool
  jl_abandoned :: bool
  jl_slots :: nat
  jl_queue :: "string list"
  jl_worker :: writer_pc
  jl_calls :: "log_call list"
  jl_accepted :: nat
  jl_written :: nat
  jl_pending :: nat
  jl_undelivered :: nat
  jl_shutdownTimeouts :: nat
  jl_drops :: "drop_reason \<Rightarrow> nat"
  jl_enqueued :: "string list"
  jl_done :: "string list"
  jl_sink :: string

text \<open>\<open>jl_enqueued\<close> and \<open>jl_done\<close> are histories: the lines sent to the queue, and those the writer is done with.\<close>

definition newJSONLLogger :: "nat \<Rightarrow> string list \<Rightarrow> jsonl" where
  "newJSONLLogger capacity lines =
     \<lparr>jl_capacity = (if capacity = 0 then 512 else capacity), jl_closedState = False, jl_closed = False, jl_failed = False,
      jl_abandoned = False, jl_slots = 0, jl_queue = [], jl_worker = Idle,
      jl_calls = map (\<lambda>line. \<lparr>lc_line = line, lc_pc = Arrived\<rparr>) lines, jl_accepted = 0, jl_written = 0, jl_pending = 0,
      jl_undelivered = 0, jl_shutdownTimeouts = 0, jl_drops = (\<lambda>_. 0), jl_enqueued = [], jl_done = [], jl_sink = []\<rparr>"

section \<open>Operations\<close>

definition set_call :: "nat \<Rightarrow> log_pc \<Rightarrow> jsonl \<Rightarrow> jsonl" where
  "set_call k pc s = s\<lparr>jl_calls := (jl_calls s)[k := (jl_calls s ! k)\<lparr>lc_pc := pc\<rparr>]\<rparr>"

definition drop_call :: "nat \<Rightarrow> drop_reason \<Rightarrow> jsonl \<Rightarrow> jsonl" where
  "drop_call k r s = set_call k (Dropped r) (s\<lparr>jl_drops := (jl_drops s)(r := jl_drops s r + 1)\<rparr>)"

definition releaseSlot :: "jsonl \<Rightarrow> jsonl" where
  "releaseSlot s = s\<lparr>jl_slots := jl_slots s - 1\<rparr>"

definition trySlot :: "nat \<Rightarrow> jsonl \<Rightarrow> jsonl" where
  "trySlot k s = set_call k Slotted (s\<lparr>jl_slots := jl_slots s + 1\<rparr>)"

definition admit :: "nat \<Rightarrow> jsonl \<Rightarrow> jsonl" where
  "admit k s = set_call k Sending (s\<lparr>jl_accepted := jl_accepted s + 1, jl_pending := jl_pending s + 1\<rparr>)"

definition send :: "nat \<Rightarrow> jsonl \<Rightarrow> jsonl" where
  "send k s = set_call k Accepted
     (s\<lparr>jl_queue := jl_queue s @ [lc_line (jl_calls s ! k)], jl_enqueued := jl_enqueued s @ [lc_line (jl_calls s ! k)]\<rparr>)"

text \<open>Both ways to finish a record return its slot; after the shutdown gave up they do not account for it.\<close>

definition finishRecord :: "bool \<Rightarrow> jsonl \<Rightarrow> jsonl" where
  "finishRecord written s =
     releaseSlot (if jl_abandoned s then s
       else if written then s\<lparr>jl_written := jl_written s + 1, jl_pending := jl_pending s - 1\<rparr>
       else s\<lparr>jl_undelivered := jl_undelivered s + 1, jl_pending := jl_pending s - 1\<rparr>)"

definition finishWrite :: "bool \<Rightarrow> jsonl \<Rightarrow> jsonl" where
  "finishWrite writeErr s =
     releaseSlot (if jl_abandoned s then s
       else if writeErr then s\<lparr>jl_failed := True, jl_undelivered := jl_undelivered s + 1, jl_pending := jl_pending s - 1\<rparr>
       else s\<lparr>jl_written := jl_written s + 1, jl_pending := jl_pending s - 1\<rparr>)"

definition worker_done :: "string \<Rightarrow> jsonl \<Rightarrow> jsonl" where
  "worker_done line s = s\<lparr>jl_worker := Idle, jl_done := jl_done s @ [line]\<rparr>"

definition abandon :: "jsonl \<Rightarrow> jsonl" where
  "abandon s = s\<lparr>jl_abandoned := True, jl_undelivered := jl_undelivered s + jl_pending s, jl_pending := 0,
     jl_shutdownTimeouts := jl_shutdownTimeouts s + 1\<rparr>"

text \<open>The count of lost events in the error that \<^verbatim>\<open>Close\<close> returns.\<close>

definition lostEvents :: "jsonl \<Rightarrow> nat" where
  "lostEvents s = jl_drops s QueueTimeoutDrop + jl_drops s CanceledDrop + jl_drops s PostCloseDrop +
     jl_drops s SinkFailureDrop + jl_undelivered s"

definition holds_lock :: "log_pc \<Rightarrow> bool" where
  "holds_lock pc \<longleftrightarrow> pc \<in> {Admitting, WaitingSlot, Slotted, Checked, Sending}"

section \<open>Steps\<close>

abbreviation (input) "call_at s k pc \<equiv> k < length (jl_calls s) \<and> lc_pc (jl_calls s ! k) = pc"

inductive jl_step :: "jsonl \<Rightarrow> jsonl \<Rightarrow> bool" where
  log_closed: "call_at s k Arrived \<Longrightarrow> jl_closedState s \<Longrightarrow> jl_step s (drop_call k PostCloseDrop s)"
| log_failed: "call_at s k Arrived \<Longrightarrow> jl_failed s \<Longrightarrow> jl_step s (drop_call k SinkFailureDrop s)"
| log_encode: "call_at s k Arrived \<Longrightarrow> \<not> jl_closedState s \<Longrightarrow> \<not> jl_failed s \<Longrightarrow> jl_step s (set_call k Encoded s)"
| lock_closed: "call_at s k Encoded \<Longrightarrow> jl_closed s \<Longrightarrow> jl_step s (drop_call k PostCloseDrop s)"
| lock_failed: "call_at s k Encoded \<Longrightarrow> \<not> jl_closed s \<Longrightarrow> jl_failed s \<Longrightarrow> jl_step s (drop_call k SinkFailureDrop s)"
| lock: "call_at s k Encoded \<Longrightarrow> \<not> jl_closed s \<Longrightarrow> \<not> jl_failed s \<Longrightarrow> jl_step s (set_call k Admitting s)"
| slot: "call_at s k Admitting \<or> call_at s k WaitingSlot \<Longrightarrow> jl_slots s < jl_capacity s \<Longrightarrow> jl_step s (trySlot k s)"
| slot_canceled: "call_at s k Admitting \<Longrightarrow> jl_slots s = jl_capacity s \<Longrightarrow> jl_step s (drop_call k CanceledDrop s)"
| slot_wait: "call_at s k Admitting \<Longrightarrow> jl_slots s = jl_capacity s \<Longrightarrow> jl_step s (set_call k WaitingSlot s)"
| wait_closed: "call_at s k WaitingSlot \<Longrightarrow> jl_closedState s \<Longrightarrow> jl_step s (drop_call k PostCloseDrop s)"
| wait_failed: "call_at s k WaitingSlot \<Longrightarrow> jl_failed s \<Longrightarrow> jl_step s (drop_call k SinkFailureDrop s)"
| wait_canceled: "call_at s k WaitingSlot \<Longrightarrow> jl_step s (drop_call k CanceledDrop s)"
| wait_timeout: "call_at s k WaitingSlot \<Longrightarrow> jl_step s (drop_call k QueueTimeoutDrop s)"
| slotted_closed: "call_at s k Slotted \<Longrightarrow> jl_closedState s \<Longrightarrow> jl_step s (drop_call k PostCloseDrop (releaseSlot s))"
| slotted_failed: "call_at s k Slotted \<Longrightarrow> jl_failed s \<Longrightarrow> jl_step s (drop_call k SinkFailureDrop (releaseSlot s))"
| slotted: "call_at s k Slotted \<Longrightarrow> \<not> jl_closedState s \<Longrightarrow> \<not> jl_failed s \<Longrightarrow> jl_step s (set_call k Checked s)"
| account: "call_at s k Checked \<Longrightarrow> jl_step s (admit k s)"
| enqueue: "call_at s k Sending \<Longrightarrow> length (jl_queue s) < jl_capacity s \<Longrightarrow> jl_step s (send k s)"
| dequeue: "jl_worker s = Idle \<Longrightarrow> jl_queue s = line # rest \<Longrightarrow>
    jl_step s (s\<lparr>jl_worker := Holding line, jl_queue := rest\<rparr>)"
| skip: "jl_worker s = Holding line \<Longrightarrow> jl_abandoned s \<or> jl_failed s \<Longrightarrow> jl_step s (worker_done line (finishRecord False s))"
| write_begin: "jl_worker s = Holding line \<Longrightarrow> \<not> jl_abandoned s \<Longrightarrow> \<not> jl_failed s \<Longrightarrow>
    jl_step s (s\<lparr>jl_worker := WritingLine line\<rparr>)"
| write_ok: "jl_worker s = WritingLine line \<Longrightarrow>
    jl_step s (worker_done line (finishWrite False (s\<lparr>jl_sink := jl_sink s @ line\<rparr>)))"
| write_err: "jl_worker s = WritingLine line \<Longrightarrow>
    jl_step s (worker_done line (finishWrite True (s\<lparr>jl_sink := jl_sink s @ take n line\<rparr>)))"
| exit: "jl_worker s = Idle \<Longrightarrow> jl_queue s = [] \<Longrightarrow> jl_closed s \<Longrightarrow> jl_step s (s\<lparr>jl_worker := Exited\<rparr>)"
| close_begin: "\<not> jl_closedState s \<Longrightarrow> jl_step s (s\<lparr>jl_closedState := True\<rparr>)"
| close_queue: "jl_closedState s \<Longrightarrow> \<not> jl_closed s \<Longrightarrow> (\<forall>c \<in> set (jl_calls s). \<not> holds_lock (lc_pc c)) \<Longrightarrow>
    jl_step s (s\<lparr>jl_closed := True\<rparr>)"
| close_timeout: "jl_closed s \<Longrightarrow> \<not> jl_abandoned s \<Longrightarrow> jl_step s (abandon s)"

section \<open>The invariant\<close>

definition calls_in :: "(log_pc \<Rightarrow> bool) \<Rightarrow> log_call list \<Rightarrow> string multiset" where
  "calls_in P cs = image_mset lc_line (filter_mset (\<lambda>c. P (lc_pc c)) (mset cs))"

abbreviation (input) "num P s \<equiv> size (calls_in P (jl_calls s))"

text \<open>How one caller's move changes the counts.\<close>

lemma calls_in_update:
  assumes "k < length cs" "lc_pc (cs ! k) = a"
  shows "calls_in P (cs[k := (cs ! k)\<lparr>lc_pc := b\<rparr>]) + (if P a then {#lc_line (cs ! k)#} else {#}) =
    calls_in P cs + (if P b then {#lc_line (cs ! k)#} else {#})"
proof -
  let ?c = "cs ! k"
  have split: "mset cs = add_mset ?c (mset cs - {#?c#})" using assms by simp
  have "mset (cs[k := ?c\<lparr>lc_pc := b\<rparr>]) = add_mset (?c\<lparr>lc_pc := b\<rparr>) (mset cs - {#?c#})"
    using assms by (simp add: mset_update)
  then show ?thesis unfolding calls_in_def using assms(2) by (subst split) (simp del: diff_single_trivial)
qed

lemma num_update:
  assumes "k < length cs" "lc_pc (cs ! k) = a"
  shows "size (calls_in P (cs[k := (cs ! k)\<lparr>lc_pc := b\<rparr>])) + (if P a then 1 else 0) = size (calls_in P cs) + (if P b then 1 else 0)"
  using arg_cong [OF calls_in_update [OF assms, of P b], of size] by (auto split: if_splits)

lemma calls_in_keep:
  assumes "k < length cs" "lc_pc (cs ! k) = a" "P a = P b"
  shows "calls_in P (cs[k := (cs ! k)\<lparr>lc_pc := b\<rparr>]) = calls_in P cs"
  using calls_in_update [OF assms(1,2), of P b] assms(3) by (simp split: if_splits)

definition held :: "writer_pc \<Rightarrow> string list" where
  "held w = (case w of Holding line \<Rightarrow> [line] | WritingLine line \<Rightarrow> [line] | _ \<Rightarrow> [])"

lemma held_simps [simp]: "held Idle = []" "held (Holding l) = [l]" "held (WritingLine l) = [l]" "held Exited = []"
  by (simp_all add: held_def)

definition owns_slot :: "log_pc \<Rightarrow> bool" where "owns_slot pc \<longleftrightarrow> pc \<in> {Slotted, Checked, Sending}"
definition was_accepted :: "log_pc \<Rightarrow> bool" where "was_accepted pc \<longleftrightarrow> pc \<in> {Sending, Accepted}"

definition slots_inv :: "jsonl \<Rightarrow> bool" where
  "slots_inv s \<longleftrightarrow> jl_slots s = length (jl_queue s) + length (held (jl_worker s)) + num owns_slot s \<and> jl_slots s \<le> jl_capacity s"

definition account_inv :: "jsonl \<Rightarrow> bool" where
  "account_inv s \<longleftrightarrow> jl_accepted s = jl_written s + jl_undelivered s + jl_pending s \<and> jl_accepted s = num was_accepted s \<and>
     (\<not> jl_abandoned s \<longrightarrow> jl_pending s = length (jl_queue s) + length (held (jl_worker s)) + num (\<lambda>pc. pc = Sending) s) \<and>
     (\<forall>r. jl_drops s r = num (\<lambda>pc. pc = Dropped r) s)"

definition close_inv :: "jsonl \<Rightarrow> bool" where
  "close_inv s \<longleftrightarrow> (jl_closed s \<longrightarrow> jl_closedState s \<and> calls_in holds_lock (jl_calls s) = {#}) \<and> (jl_abandoned s \<longrightarrow> jl_closed s \<and> jl_pending s = 0) \<and>
     (jl_worker s = Exited \<longrightarrow> jl_closed s \<and> jl_queue s = [])"

definition sink_inv :: "jsonl \<Rightarrow> bool" where
  "sink_inv s \<longleftrightarrow> jl_enqueued s = jl_done s @ held (jl_worker s) @ jl_queue s \<and> mset (jl_enqueued s) = calls_in (\<lambda>pc. pc = Accepted) (jl_calls s) \<and>
     prefix (jl_sink s) (concat (jl_enqueued s)) \<and>
     (\<forall>line. jl_worker s = WritingLine line \<longrightarrow> jl_sink s = concat (jl_done s) \<and> \<not> jl_failed s) \<and>
     (\<not> jl_failed s \<and> \<not> jl_abandoned s \<longrightarrow> jl_sink s = concat (jl_done s) \<and> jl_undelivered s = 0)"

definition jl_inv :: "jsonl \<Rightarrow> bool" where
  "jl_inv s \<longleftrightarrow> slots_inv s \<and> account_inv s \<and> close_inv s \<and> sink_inv s"

lemmas jl_inv_defs = jl_inv_def slots_inv_def account_inv_def close_inv_def sink_inv_def

lemma set_call_simps [simp]:
  "jl_calls (set_call k pc s) = (jl_calls s)[k := (jl_calls s ! k)\<lparr>lc_pc := pc\<rparr>]"
  "jl_capacity (set_call k pc s) = jl_capacity s" "jl_closedState (set_call k pc s) = jl_closedState s"
  "jl_closed (set_call k pc s) = jl_closed s" "jl_failed (set_call k pc s) = jl_failed s" "jl_abandoned (set_call k pc s) = jl_abandoned s"
  "jl_slots (set_call k pc s) = jl_slots s" "jl_queue (set_call k pc s) = jl_queue s" "jl_worker (set_call k pc s) = jl_worker s"
  "jl_accepted (set_call k pc s) = jl_accepted s" "jl_written (set_call k pc s) = jl_written s" "jl_pending (set_call k pc s) = jl_pending s"
  "jl_undelivered (set_call k pc s) = jl_undelivered s" "jl_drops (set_call k pc s) = jl_drops s" "jl_enqueued (set_call k pc s) = jl_enqueued s"
  "jl_done (set_call k pc s) = jl_done s" "jl_sink (set_call k pc s) = jl_sink s"
  by (simp_all add: set_call_def)

lemma lock_set_call:
  assumes "close_inv s" "call_at s k a" "holds_lock b \<Longrightarrow> \<not> jl_closed s"
  shows "jl_closed s \<longrightarrow> calls_in holds_lock ((jl_calls s)[k := (jl_calls s ! k)\<lparr>lc_pc := b\<rparr>]) = {#}"
proof
  assume c: "jl_closed s"
  then have none: "calls_in holds_lock (jl_calls s) = {#}" "\<not> holds_lock b" using assms by (auto simp: close_inv_def)
  then show "calls_in holds_lock ((jl_calls s)[k := (jl_calls s ! k)\<lparr>lc_pc := b\<rparr>]) = {#}"
    using calls_in_update [of k "jl_calls s" a holds_lock b] assms(2) by simp
qed

text \<open>A caller between two places that own and account for the same.\<close>

lemma jl_inv_set_call:
  assumes inv: "jl_inv s" and k: "call_at s k a"
    and same: "owns_slot a = owns_slot b" "was_accepted a = was_accepted b" "(a = Sending) = (b = Sending)" "(a = Accepted) = (b = Accepted)"
      "\<And>r. (a = Dropped r) = (b = Dropped r)"
    and lock: "holds_lock b \<Longrightarrow> \<not> jl_closed s"
  shows "jl_inv (set_call k b s)"
proof -
  have keep: "calls_in P ((jl_calls s)[k := (jl_calls s ! k)\<lparr>lc_pc := b\<rparr>]) = calls_in P (jl_calls s)" if "P a = P b" for P
    using calls_in_keep [of k "jl_calls s" a P b] k that by simp
  note keeps = keep [of owns_slot, OF same(1)] keep [of was_accepted, OF same(2)] keep [of "\<lambda>pc. pc = Sending", OF same(3)]
    keep [of "\<lambda>pc. pc = Accepted", OF same(4)] keep [of "\<lambda>pc. pc = Dropped r" for r, OF same(5)]
  show ?thesis using inv lock_set_call [of s k a b] k lock by (auto simp: jl_inv_defs keeps)
qed

lemma jl_inv_drop:
  assumes inv: "jl_inv s" and k: "call_at s k a" and a: "\<not> owns_slot a" "\<not> was_accepted a" "\<And>r. a \<noteq> Dropped r"
  shows "jl_inv (drop_call k r s)"
proof -
  let ?cs = "(jl_calls s)[k := (jl_calls s ! k)\<lparr>lc_pc := Dropped r\<rparr>]"
  have keep: "calls_in P ?cs = calls_in P (jl_calls s)" if "P a = P (Dropped r)" for P
    using calls_in_keep [of k "jl_calls s" a P "Dropped r"] k that by simp
  have keeps: "calls_in owns_slot ?cs = calls_in owns_slot (jl_calls s)" "calls_in was_accepted ?cs = calls_in was_accepted (jl_calls s)"
    "calls_in (\<lambda>pc. pc = Sending) ?cs = calls_in (\<lambda>pc. pc = Sending) (jl_calls s)"
    "calls_in (\<lambda>pc. pc = Accepted) ?cs = calls_in (\<lambda>pc. pc = Accepted) (jl_calls s)"
    by (rule keep; use a in \<open>auto simp: owns_slot_def was_accepted_def\<close>)+
  have drops: "size (calls_in (\<lambda>pc. pc = Dropped q) ?cs) = size (calls_in (\<lambda>pc. pc = Dropped q) (jl_calls s)) + (if q = r then 1 else 0)" for q
    using num_update [of k "jl_calls s" a "\<lambda>pc. pc = Dropped q" "Dropped r"] k a by (auto split: if_splits)
  show ?thesis using inv lock_set_call [of s k a "Dropped r"] k
    by (auto simp: jl_inv_defs drop_call_def keeps drops holds_lock_def)
qed

lemma jl_inv_drop_slotted:
  assumes inv: "jl_inv s" and k: "call_at s k Slotted"
  shows "jl_inv (drop_call k r (releaseSlot s))"
proof -
  let ?cs = "(jl_calls s)[k := (jl_calls s ! k)\<lparr>lc_pc := Dropped r\<rparr>]"
  have keep: "calls_in P ?cs = calls_in P (jl_calls s)" if "P Slotted = P (Dropped r)" for P
    using calls_in_keep [of k "jl_calls s" Slotted P "Dropped r"] k that by simp
  have keeps: "calls_in was_accepted ?cs = calls_in was_accepted (jl_calls s)"
    "calls_in (\<lambda>pc. pc = Sending) ?cs = calls_in (\<lambda>pc. pc = Sending) (jl_calls s)"
    "calls_in (\<lambda>pc. pc = Accepted) ?cs = calls_in (\<lambda>pc. pc = Accepted) (jl_calls s)"
    by (rule keep; auto simp: was_accepted_def)+
  have drops: "size (calls_in (\<lambda>pc. pc = Dropped q) ?cs) = size (calls_in (\<lambda>pc. pc = Dropped q) (jl_calls s)) + (if q = r then 1 else 0)" for q
    using num_update [of k "jl_calls s" Slotted "\<lambda>pc. pc = Dropped q" "Dropped r"] k by (auto split: if_splits)
  have slot: "size (calls_in owns_slot ?cs) + 1 = size (calls_in owns_slot (jl_calls s))"
    using num_update [of k "jl_calls s" Slotted owns_slot "Dropped r"] k by (simp add: owns_slot_def)
  show ?thesis using inv lock_set_call [of s k Slotted "Dropped r"] k slot
    by (auto simp: jl_inv_defs drop_call_def releaseSlot_def keeps drops holds_lock_def)
qed

lemma jl_inv_slot:
  assumes inv: "jl_inv s" and k: "call_at s k a" "a = Admitting \<or> a = WaitingSlot" and free: "jl_slots s < jl_capacity s"
  shows "jl_inv (trySlot k s)"
proof -
  let ?cs = "(jl_calls s)[k := (jl_calls s ! k)\<lparr>lc_pc := Slotted\<rparr>]"
  have keep: "calls_in P ?cs = calls_in P (jl_calls s)" if "P a = P Slotted" for P
    using calls_in_keep [of k "jl_calls s" a P Slotted] k that by simp
  have keeps: "calls_in was_accepted ?cs = calls_in was_accepted (jl_calls s)" "calls_in holds_lock ?cs = calls_in holds_lock (jl_calls s)"
    "calls_in (\<lambda>pc. pc = Sending) ?cs = calls_in (\<lambda>pc. pc = Sending) (jl_calls s)"
    "calls_in (\<lambda>pc. pc = Accepted) ?cs = calls_in (\<lambda>pc. pc = Accepted) (jl_calls s)"
    by (rule keep; use k(2) in \<open>auto simp: was_accepted_def holds_lock_def\<close>)+
  have drops: "calls_in (\<lambda>pc. pc = Dropped q) ?cs = calls_in (\<lambda>pc. pc = Dropped q) (jl_calls s)" for q
    by (rule keep) (use k(2) in auto)
  have slot: "size (calls_in owns_slot ?cs) = size (calls_in owns_slot (jl_calls s)) + 1"
    using num_update [of k "jl_calls s" a owns_slot Slotted] k by (auto simp: owns_slot_def)
  show ?thesis using inv k slot free by (auto simp: jl_inv_defs trySlot_def keeps drops)
qed

lemma jl_inv_account:
  assumes inv: "jl_inv s" and k: "call_at s k Checked"
  shows "jl_inv (admit k s)"
proof -
  let ?cs = "(jl_calls s)[k := (jl_calls s ! k)\<lparr>lc_pc := Sending\<rparr>]"
  have keep: "calls_in P ?cs = calls_in P (jl_calls s)" if "P Checked = P Sending" for P
    using calls_in_keep [of k "jl_calls s" Checked P Sending] k that by simp
  have keeps: "calls_in owns_slot ?cs = calls_in owns_slot (jl_calls s)" "calls_in holds_lock ?cs = calls_in holds_lock (jl_calls s)"
    "calls_in (\<lambda>pc. pc = Accepted) ?cs = calls_in (\<lambda>pc. pc = Accepted) (jl_calls s)"
    by (rule keep; auto simp: owns_slot_def holds_lock_def)+
  have drops: "calls_in (\<lambda>pc. pc = Dropped q) ?cs = calls_in (\<lambda>pc. pc = Dropped q) (jl_calls s)" for q
    by (rule keep) simp
  have more: "size (calls_in was_accepted ?cs) = size (calls_in was_accepted (jl_calls s)) + 1"
    "size (calls_in (\<lambda>pc. pc = Sending) ?cs) = size (calls_in (\<lambda>pc. pc = Sending) (jl_calls s)) + 1"
    using num_update [of k "jl_calls s" Checked was_accepted Sending] num_update [of k "jl_calls s" Checked "\<lambda>pc. pc = Sending" Sending] k
    by (simp_all add: was_accepted_def)
  have locked: "calls_in holds_lock (jl_calls s) \<noteq> {#}" using k by (auto simp: calls_in_def holds_lock_def filter_mset_eq_conv)
  show ?thesis using inv more locked by (auto simp: jl_inv_defs admit_def keeps drops)
qed

lemma jl_inv_send:
  assumes inv: "jl_inv s" and k: "call_at s k Sending"
  shows "jl_inv (send k s)"
proof -
  let ?cs = "(jl_calls s)[k := (jl_calls s ! k)\<lparr>lc_pc := Accepted\<rparr>]" and ?line = "lc_line (jl_calls s ! k)"
  have keep: "calls_in P ?cs = calls_in P (jl_calls s)" if "P Sending = P Accepted" for P
    using calls_in_keep [of k "jl_calls s" Sending P Accepted] k that by simp
  have keeps: "calls_in was_accepted ?cs = calls_in was_accepted (jl_calls s)" by (rule keep) (simp add: was_accepted_def)
  have drops: "calls_in (\<lambda>pc. pc = Dropped q) ?cs = calls_in (\<lambda>pc. pc = Dropped q) (jl_calls s)" for q
    by (rule keep) simp
  have less: "size (calls_in owns_slot ?cs) + 1 = size (calls_in owns_slot (jl_calls s))"
    "size (calls_in (\<lambda>pc. pc = Sending) ?cs) + 1 = size (calls_in (\<lambda>pc. pc = Sending) (jl_calls s))"
    using num_update [of k "jl_calls s" Sending owns_slot Accepted] num_update [of k "jl_calls s" Sending "\<lambda>pc. pc = Sending" Accepted] k
    by (simp_all add: owns_slot_def)
  have acc: "calls_in (\<lambda>pc. pc = Accepted) ?cs = add_mset ?line (calls_in (\<lambda>pc. pc = Accepted) (jl_calls s))"
    using calls_in_update [of k "jl_calls s" Sending "\<lambda>pc. pc = Accepted" Accepted] k by simp
  have locked: "calls_in holds_lock (jl_calls s) \<noteq> {#}" using k by (auto simp: calls_in_def holds_lock_def filter_mset_eq_conv)
  have "prefix (jl_sink s) (concat (jl_enqueued s) @ ?line)"
    by (rule prefix_prefix) (use inv in \<open>unfold jl_inv_def sink_inv_def, blast\<close>)
  then have "prefix (jl_sink s) (concat (jl_done s) @ concat (held (jl_worker s)) @ concat (jl_queue s) @ ?line)"
    using inv by (auto simp: jl_inv_def sink_inv_def)
  then show ?thesis using inv less locked
    by (auto simp: jl_inv_defs send_def keeps drops acc)
qed

lemmas writer_defs = worker_done_def finishRecord_def finishWrite_def releaseSlot_def abandon_def

lemma prefix_sink_line: "prefix (concat d @ take n line) (concat d @ line @ rest)"
  by (metis append_take_drop_id append.assoc prefixI)

lemma jl_inv_step:
  assumes inv: "jl_inv s" and step: "jl_step s s'"
  shows "jl_inv s'"
  using step
proof cases
  case (log_encode k)
  then show ?thesis using jl_inv_set_call [OF inv, of k Arrived Encoded] by (simp add: owns_slot_def was_accepted_def holds_lock_def)
next
  case (lock k)
  then show ?thesis using jl_inv_set_call [OF inv, of k Encoded Admitting] by (simp add: owns_slot_def was_accepted_def holds_lock_def)
next
  case (slot_wait k)
  then have "calls_in holds_lock (jl_calls s) \<noteq> {#}" by (auto simp: calls_in_def holds_lock_def filter_mset_eq_conv)
  then have "\<not> jl_closed s" using inv by (auto simp: jl_inv_def close_inv_def)
  then show ?thesis using slot_wait jl_inv_set_call [OF inv, of k Admitting WaitingSlot] by (simp add: owns_slot_def was_accepted_def)
next
  case (slotted k)
  then have "calls_in holds_lock (jl_calls s) \<noteq> {#}" by (auto simp: calls_in_def holds_lock_def filter_mset_eq_conv)
  then have "\<not> jl_closed s" using inv by (auto simp: jl_inv_def close_inv_def)
  then show ?thesis using slotted jl_inv_set_call [OF inv, of k Slotted Checked] by (simp add: owns_slot_def was_accepted_def)
next
  case (slot k)
  then show ?thesis using jl_inv_slot [OF inv, of k Admitting] jl_inv_slot [OF inv, of k WaitingSlot] by auto
next
  case (slotted_closed k)
  then show ?thesis using jl_inv_drop_slotted [OF inv] by blast
next
  case (slotted_failed k)
  then show ?thesis using jl_inv_drop_slotted [OF inv] by blast
next
  case (account k)
  then show ?thesis using jl_inv_account [OF inv] by blast
next
  case (enqueue k)
  then show ?thesis using jl_inv_send [OF inv] by blast
next
  case (dequeue line rest)
  then show ?thesis using inv by (auto simp: jl_inv_defs)
next
  case (skip line)
  then show ?thesis using inv by (auto simp: jl_inv_defs writer_defs)
next
  case (write_begin line)
  then show ?thesis using inv by (auto simp: jl_inv_defs)
next
  case (write_ok line)
  then show ?thesis using inv by (auto simp: jl_inv_defs writer_defs)
next
  case (write_err line n)
  then show ?thesis using inv prefix_sink_line [of "jl_done s" n line "concat (jl_queue s)"] by (auto simp: jl_inv_defs writer_defs)
next
  case exit
  then show ?thesis using inv by (auto simp: jl_inv_defs)
next
  case close_begin
  then show ?thesis using inv by (auto simp: jl_inv_defs)
next
  case close_queue
  then have "calls_in holds_lock (jl_calls s) = {#}" by (auto simp: calls_in_def)
  then show ?thesis using close_queue inv by (auto simp: jl_inv_defs)
next
  case close_timeout
  then show ?thesis using inv by (auto simp: jl_inv_defs writer_defs)
qed (use jl_inv_drop [OF inv] in \<open>auto simp: owns_slot_def was_accepted_def\<close>)

section \<open>Every call returns\<close>

fun call_size :: "log_pc \<Rightarrow> nat" where
  "call_size Arrived = 12"
| "call_size Encoded = 11"
| "call_size Admitting = 10"
| "call_size WaitingSlot = 9"
| "call_size Slotted = 8"
| "call_size Checked = 7"
| "call_size Sending = 6"
| "call_size Accepted = 0"
| "call_size (Dropped r) = 0"

fun writer_size :: "writer_pc \<Rightarrow> nat" where
  "writer_size Exited = 0"
| "writer_size Idle = 1"
| "writer_size (WritingLine line) = 2"
| "writer_size (Holding line) = 3"

definition jl_size :: "jsonl \<Rightarrow> nat" where
  "jl_size s = sum_list (map (call_size \<circ> lc_pc) (jl_calls s)) + 4 * length (jl_queue s) + writer_size (jl_worker s) +
     (if jl_closedState s then 0 else 1) + (if jl_closed s then 0 else 1) + (if jl_abandoned s then 0 else 1)"

definition jl_finished :: "jsonl \<Rightarrow> bool" where
  "jl_finished s \<longleftrightarrow> (\<forall>c \<in> set (jl_calls s). call_size (lc_pc c) = 0) \<and> jl_queue s = [] \<and> held (jl_worker s) = []"

lemma call_size_update:
  assumes "k < length cs" "call_size b < call_size (lc_pc (cs ! k))"
  shows "sum_list (map (call_size \<circ> lc_pc) (cs[k := (cs ! k)\<lparr>lc_pc := b\<rparr>])) + (call_size (lc_pc (cs ! k)) - call_size b) =
    sum_list (map (call_size \<circ> lc_pc) cs)"
proof -
  have "call_size (lc_pc (cs ! k)) \<le> sum_list (map (call_size \<circ> lc_pc) cs)"
    using assms(1) member_le_sum_list [of "call_size (lc_pc (cs ! k))" "map (call_size \<circ> lc_pc) cs"] by simp
  then show ?thesis using assms
    by (simp add: map_update sum_list_update)
qed

lemma jl_size_set_call:
  "k < length (jl_calls s) \<Longrightarrow> call_size b < call_size (lc_pc (jl_calls s ! k)) \<Longrightarrow> jl_size (set_call k b s) < jl_size s"
  using call_size_update [of k "jl_calls s" b] by (simp add: jl_size_def)

lemma jl_size_drop:
  "k < length (jl_calls s) \<Longrightarrow> 0 < call_size (lc_pc (jl_calls s ! k)) \<Longrightarrow> jl_size (drop_call k r s) < jl_size s"
  "k < length (jl_calls s) \<Longrightarrow> 0 < call_size (lc_pc (jl_calls s ! k)) \<Longrightarrow> jl_size (drop_call k r (releaseSlot s)) < jl_size s"
  using call_size_update [of k "jl_calls s" "Dropped r"] by (simp_all add: jl_size_def drop_call_def releaseSlot_def)

lemma jl_step_decreases: "jl_step s s' \<Longrightarrow> jl_size s' < jl_size s"
proof (induction rule: jl_step.induct)
  case (slot s k)
  then show ?case using call_size_update [of k "jl_calls s" Slotted] by (auto simp: jl_size_def trySlot_def)
next
  case (enqueue s k)
  then show ?case using call_size_update [of k "jl_calls s" Accepted] by (simp add: jl_size_def send_def)
next
  case (account s k)
  then show ?case using call_size_update [of k "jl_calls s" Sending] by (simp add: jl_size_def admit_def)
next
  case (dequeue s line rest)
  then show ?case by (simp add: jl_size_def writer_defs)
next
  case (skip s line)
  then show ?case by (simp add: jl_size_def writer_defs)
next
  case (write_begin s line)
  then show ?case by (simp add: jl_size_def writer_defs)
next
  case (write_ok s line)
  then show ?case by (simp add: jl_size_def writer_defs)
next
  case (write_err s line n)
  then show ?case by (simp add: jl_size_def writer_defs)
next
  case (exit s)
  then show ?case by (simp add: jl_size_def writer_defs)
next
  case (close_begin s)
  then show ?case by (simp add: jl_size_def writer_defs)
next
  case (close_queue s)
  then show ?case by (simp add: jl_size_def writer_defs)
next
  case (close_timeout s)
  then show ?case by (simp add: jl_size_def writer_defs)
qed (simp_all add: jl_size_drop jl_size_set_call)

text \<open>A slot is free when a caller that owns one sends, so the queue never blocks it.\<close>

lemma caller_progress:
  assumes inv: "jl_inv s" and k: "k < length (jl_calls s)" "call_size (lc_pc (jl_calls s ! k)) \<noteq> 0"
  shows "\<exists>s'. jl_step s s' \<and> jl_done s' = jl_done s \<and> jl_worker s' = jl_worker s \<and> jl_abandoned s' = jl_abandoned s \<and> jl_failed s' = jl_failed s"
proof -
  have full: "jl_slots s < jl_capacity s \<or> jl_slots s = jl_capacity s" using inv by (auto simp: jl_inv_def slots_inv_def)
  have drop: "\<exists>s'. jl_step s s' \<and> jl_done s' = jl_done s \<and> jl_worker s' = jl_worker s \<and> jl_abandoned s' = jl_abandoned s \<and> jl_failed s' = jl_failed s"
    if "jl_step s s' \<and> (\<exists>pc r. s' = set_call k pc s \<or> s' = drop_call k r s \<or> s' = drop_call k r (releaseSlot s) \<or>
      s' = trySlot k s \<or> s' = admit k s \<or> s' = send k s)" for s'
    using that by (auto simp: drop_call_def releaseSlot_def trySlot_def admit_def send_def intro!: exI [of _ s'])
  show ?thesis
  proof (cases "lc_pc (jl_calls s ! k)")
    case Arrived
    then show ?thesis using k log_closed log_failed log_encode drop by metis
  next
    case Encoded
    then show ?thesis using k lock_closed lock_failed lock drop by metis
  next
    case Admitting
    then show ?thesis using k full slot slot_wait drop by metis
  next
    case WaitingSlot
    then show ?thesis using k wait_timeout drop by metis
  next
    case Slotted
    then show ?thesis using k slotted_closed slotted_failed slotted drop by metis
  next
    case Checked
    then show ?thesis using k account drop by metis
  next
    case Sending
    then have "calls_in owns_slot (jl_calls s) \<noteq> {#}" using k(1) by (auto simp: calls_in_def owns_slot_def filter_mset_eq_conv)
    then have "length (jl_queue s) < jl_capacity s"
      using inv by (auto simp: jl_inv_def slots_inv_def nonempty_has_size)
    then show ?thesis using k Sending enqueue drop by metis
  qed (use k in auto)
qed

lemma jl_progress:
  assumes inv: "jl_inv s" and "\<not> jl_finished s"
  shows "\<exists>s'. jl_step s s'"
proof (cases "\<exists>k < length (jl_calls s). call_size (lc_pc (jl_calls s ! k)) \<noteq> 0")
  case True
  then show ?thesis using caller_progress [OF inv] by blast
next
  case False
  then have calls: "\<forall>c \<in> set (jl_calls s). call_size (lc_pc c) = 0" by (auto simp: in_set_conv_nth)
  show ?thesis
  proof (cases "jl_worker s")
    case Idle
    then obtain line rest where "jl_queue s = line # rest"
      using calls assms(2) by (cases "jl_queue s") (auto simp: jl_finished_def)
    then show ?thesis using Idle dequeue by blast
  next
    case (Holding line)
    then show ?thesis using skip write_begin by blast
  next
    case (WritingLine line)
    then show ?thesis using write_ok by blast
  next
    case Exited
    then show ?thesis using calls assms(2) inv by (auto simp: jl_finished_def jl_inv_def close_inv_def)
  qed
qed

lemma jl_inv_start: "jl_inv (newJSONLLogger capacity lines)"
  by (simp add: jl_inv_defs newJSONLLogger_def calls_in_def owns_slot_def was_accepted_def holds_lock_def comp_def image_mset.compositionality filter_mset_eq_conv)

interpretation jsonl_logger: finishing_system "\<lambda>s. s = newJSONLLogger capacity lines" jl_step jl_inv jl_finished jl_size
  for capacity :: nat and lines :: "string list"
  by unfold_locales (auto intro: jl_inv_start jl_inv_step jl_progress jl_step_decreases)

section \<open>Properties\<close>

lemma returned_calls:
  assumes "\<forall>c \<in> set cs. call_size (lc_pc c) = 0"
  shows "length cs = size (calls_in was_accepted cs) + size (calls_in (\<lambda>pc. pc = Dropped QueueTimeoutDrop) cs) +
    size (calls_in (\<lambda>pc. pc = Dropped CanceledDrop) cs) + size (calls_in (\<lambda>pc. pc = Dropped PostCloseDrop) cs) +
    size (calls_in (\<lambda>pc. pc = Dropped SinkFailureDrop) cs)"
  using assms
proof (induction cs)
  case (Cons c cs)
  then show ?case
  proof (cases "lc_pc c")
    case (Dropped r)
    then show ?thesis using Cons by (cases r) (simp_all add: calls_in_def was_accepted_def)
  qed (simp_all add: calls_in_def was_accepted_def)
qed (simp add: calls_in_def)

text \<open>C18: no event is lost without being counted: at every moment of every run the accepted events are
  the written, the undelivered and the pending ones, the queue and its slots stay within the
  capacity, and once all calls of \<^verbatim>\<open>Log\<close> have returned each of them is counted exactly once, as
  accepted or under the one reason for which it was dropped; with nothing pending the loss that
  \<^verbatim>\<open>Close\<close> reports is then exactly the calls whose line was not written.\<close>

theorem jsonl_accounting:
  assumes "jl_step\<^sup>*\<^sup>* (newJSONLLogger capacity lines) s"
  shows "jl_accepted s = jl_written s + jl_undelivered s + jl_pending s \<and>
    jl_slots s \<le> jl_capacity s \<and> length (jl_queue s) \<le> jl_slots s \<and>
    ((\<forall>c \<in> set (jl_calls s). call_size (lc_pc c) = 0) \<longrightarrow>
      length (jl_calls s) = jl_accepted s + jl_drops s QueueTimeoutDrop + jl_drops s CanceledDrop +
        jl_drops s PostCloseDrop + jl_drops s SinkFailureDrop \<and>
      (jl_pending s = 0 \<longrightarrow> jl_written s + lostEvents s = length (jl_calls s)))"
proof -
  have inv: "jl_inv s" by (rule jsonl_logger.inv_reachable [OF refl assms])
  then show ?thesis using returned_calls [of "jl_calls s"]
    by (auto simp: jl_inv_def slots_inv_def account_inv_def lostEvents_def)
qed

text \<open>The file holds the accepted lines in the order of their admission, never interleaved: its
  bytes are always a prefix of them, and when the logger closed without a sink failure and
  without giving up it holds all of them and every accepted event counts as written.\<close>

theorem jsonl_order:
  assumes "jl_step\<^sup>*\<^sup>* (newJSONLLogger capacity lines) s"
  shows "prefix (jl_sink s) (concat (jl_enqueued s)) \<and> mset (jl_enqueued s) = calls_in (\<lambda>pc. pc = Accepted) (jl_calls s) \<and>
    (jl_worker s = Exited \<and> \<not> jl_failed s \<and> \<not> jl_abandoned s \<longrightarrow>
      jl_sink s = concat (jl_enqueued s) \<and> jl_written s = jl_accepted s)"
proof -
  have inv: "jl_inv s" by (rule jsonl_logger.inv_reachable [OF refl assms])
  have none: "calls_in (\<lambda>pc. pc = Sending) (jl_calls s) = {#}" if "calls_in holds_lock (jl_calls s) = {#}"
    using that by (auto simp: calls_in_def holds_lock_def filter_mset_eq_conv)
  show ?thesis using inv none by (auto simp: jl_inv_defs)
qed

text \<open>Telemetry never blocks a tool call for good: from every state the logger can reach, all calls
  return and the queue is drained, and no run goes on forever.\<close>

theorem jsonl_terminates:
  assumes "jl_step\<^sup>*\<^sup>* (newJSONLLogger capacity lines) s"
  shows "(\<exists>s'. jl_step\<^sup>*\<^sup>* s s' \<and> jl_finished s') \<and> \<not> (\<exists>f. f 0 = s \<and> (\<forall>i. jl_step (f i) (f (Suc i))))"
proof -
  have inv: "jl_inv s" by (rule jsonl_logger.inv_reachable [OF refl assms])
  then show ?thesis using jsonl_logger.finishes [OF inv] jsonl_logger.no_infinite_run by blast
qed

subsection \<open>Witnesses\<close>

theorem jsonl_accounting_witness:
  "\<exists>s. jl_step\<^sup>*\<^sup>* (newJSONLLogger 1 [''a'', ''b'']) s \<and> jl_finished s \<and>
     length (jl_calls s) = jl_accepted s + jl_drops s QueueTimeoutDrop + jl_drops s CanceledDrop +
        jl_drops s PostCloseDrop + jl_drops s SinkFailureDrop"
proof -
  obtain s where s: "jl_step\<^sup>*\<^sup>* (newJSONLLogger 1 [''a'', ''b'']) s" "jl_finished s"
    using jsonl_logger.finishes [OF jl_inv_start] by blast
  then show ?thesis using jsonl_accounting [OF s(1)] by (auto simp: jl_finished_def)
qed

theorem jsonl_terminates_witness:
  "\<exists>s'. jl_step\<^sup>*\<^sup>* (newJSONLLogger 1 [''a'', ''b'']) s' \<and> jl_finished s'"
  using jsonl_terminates [OF rtranclp.rtrancl_refl] by blast

text \<open>One event, logged and written, and a clean close.\<close>

definition logged_state :: "string \<Rightarrow> jsonl" where
  "logged_state line = (newJSONLLogger 1 [line])\<lparr>jl_closedState := True, jl_closed := True, jl_worker := Exited,
     jl_calls := [\<lparr>lc_line = line, lc_pc = Accepted\<rparr>], jl_accepted := 1, jl_written := 1, jl_enqueued := [line],
     jl_done := [line], jl_sink := line\<rparr>"

lemma jl_run_step: "jl_step s t \<Longrightarrow> jl_step\<^sup>*\<^sup>* t u \<Longrightarrow> jl_step\<^sup>*\<^sup>* s u"
  by (rule converse_rtranclp_into_rtranclp)

lemma logged_run: "jl_step\<^sup>*\<^sup>* (newJSONLLogger 1 [line]) (logged_state line)"
proof -
  let ?a = "newJSONLLogger 1 [line]"
  let ?b = "set_call 0 Encoded ?a" let ?c = "set_call 0 Admitting ?b" let ?d = "trySlot 0 ?c"
  let ?e = "set_call 0 Checked ?d" let ?f = "admit 0 ?e" let ?g = "send 0 ?f"
  let ?h = "?g\<lparr>jl_worker := Holding line, jl_queue := []\<rparr>" let ?i = "?h\<lparr>jl_worker := WritingLine line\<rparr>"
  let ?j = "worker_done line (finishWrite False (?i\<lparr>jl_sink := jl_sink ?i @ line\<rparr>))"
  let ?k = "?j\<lparr>jl_closedState := True\<rparr>" let ?l = "?k\<lparr>jl_closed := True\<rparr>" let ?m = "?l\<lparr>jl_worker := Exited\<rparr>"
  note run = newJSONLLogger_def trySlot_def admit_def send_def writer_defs holds_lock_def
  have s1: "jl_step ?a ?b" by (rule log_encode) (simp_all add: run)
  have s2: "jl_step ?b ?c" by (rule lock) (simp_all add: run)
  have s3: "jl_step ?c ?d" by (rule slot) (simp_all add: run)
  have s4: "jl_step ?d ?e" by (rule slotted) (simp_all add: run)
  have s5: "jl_step ?e ?f" by (rule account) (simp_all add: run)
  have s6: "jl_step ?f ?g" by (rule enqueue) (simp_all add: run)
  have s7: "jl_step ?g ?h" by (rule dequeue) (simp_all add: run)
  have s8: "jl_step ?h ?i" by (rule write_begin) (simp_all add: run)
  have s9: "jl_step ?i ?j" by (rule write_ok) simp
  have s10: "jl_step ?j ?k" by (rule close_begin) (simp add: run)
  have s11: "jl_step ?k ?l" by (rule close_queue) (simp_all add: run)
  have s12: "jl_step ?l ?m" by (rule exit) (simp_all add: run)
  have "jl_step\<^sup>*\<^sup>* ?a ?m"
    by (rule jl_run_step [OF s1],
      rule jl_run_step [OF s2],
      rule jl_run_step [OF s3],
      rule jl_run_step [OF s4],
      rule jl_run_step [OF s5],
      rule jl_run_step [OF s6],
      rule jl_run_step [OF s7],
      rule jl_run_step [OF s8],
      rule jl_run_step [OF s9],
      rule jl_run_step [OF s10],
      rule jl_run_step [OF s11],
      rule jl_run_step [OF s12],
      rule rtranclp.rtrancl_refl)
  moreover have "?m = logged_state line" by (simp add: logged_state_def run set_call_def)
  ultimately show ?thesis by simp
qed

theorem jsonl_order_witness:
  "jl_step\<^sup>*\<^sup>* (newJSONLLogger 1 [''a'']) (logged_state ''a'') \<and> jl_sink (logged_state ''a'') = concat (jl_enqueued (logged_state ''a''))"
proof -
  have "jl_worker (logged_state ''a'') = Exited" "\<not> jl_failed (logged_state ''a'')" "\<not> jl_abandoned (logged_state ''a'')"
    by (simp_all add: logged_state_def newJSONLLogger_def)
  then show ?thesis using logged_run jsonl_order [OF logged_run] by blast
qed

end
