(* ===== verification/Jsonl_Shutdown.thy ===== *)
theory Jsonl_Shutdown
  imports Telemetry_Jsonl
begin

text \<open>
  The life of the JSONL file (\<^verbatim>\<open>src/internal/telemetry/jsonl.go\<close>, \<^verbatim>\<open>jsonl_lifecycle.go\<close>): opening it, writing a
  line whole, and the shutdown around the logger of \<^verbatim>\<open>Telemetry_Jsonl\<close>: the writer syncs and closes the
  file after its loop, \<^verbatim>\<open>closeBy\<close> waits for it or gives up and leaves the closing to a goroutine, and the
  result of \<^verbatim>\<open>Close\<close> is built from the errors and counters. The sink may fail, or never return from
  a call.
\<close>

section \<open>Opening the file\<close>

text \<open>\<^verbatim>\<open>filepath.Dir\<close> on a Unix host.\<close>

definition filepath_Dir :: "string \<Rightarrow> string" where
  "filepath_Dir p = path_clean (rev (dropWhile (\<lambda>c. c \<noteq> slash) (rev p)))"

datatype open_error = MkdirFailed string string | OpenFailed string string

text \<open>The results of \<^verbatim>\<open>os.MkdirAll\<close> and \<^verbatim>\<open>os.OpenFile\<close> are parameters; an opened file starts with what it holds.\<close>

definition newJSONL :: "(string \<Rightarrow> string option) \<Rightarrow> (string \<Rightarrow> string option) \<Rightarrow> string \<Rightarrow> open_error + string list" where
  "newJSONL mkdirAll openFile path =
     (let dir = filepath_Dir path;
          made = (if dir \<noteq> [] \<and> dir \<noteq> ''.'' then mkdirAll dir else None)
      in case made of
           Some e \<Rightarrow> Inl (MkdirFailed dir e)
         | None \<Rightarrow> (case openFile path of Some e \<Rightarrow> Inl (OpenFailed path e) | None \<Rightarrow> Inr [dir, path]))"

section \<open>Writing one line\<close>

datatype write_all_error = InvalidWriteCount int nat | WriteFailure string | ErrNoProgress

function writeAll :: "('w \<Rightarrow> string \<Rightarrow> (int \<times> string option) \<times> 'w) \<Rightarrow> string \<Rightarrow> 'w \<Rightarrow> write_all_error option \<times> 'w" where
  "writeAll wr p w =
     (if p = [] then (None, w)
      else
        (case wr w p of
           ((n, err), w') \<Rightarrow>
             if n < 0 \<or> int (length p) < n then (Some (InvalidWriteCount n (length p)), w')
             else
               (case err of
                  Some e \<Rightarrow> (Some (WriteFailure e), w')
                | None \<Rightarrow> if n = 0 then (Some ErrNoProgress, w') else writeAll wr (drop (nat n) p) w')))"
  by pat_completeness auto
termination
  by (relation "measure (\<lambda>(wr, p, w). length p)") (auto simp: not_less)

declare writeAll.simps [simp del]

text \<open>What an \<^verbatim>\<open>io.Writer\<close> promises: the bytes it counts are those it appended.\<close>

definition appends :: "('w \<Rightarrow> string) \<Rightarrow> ('w \<Rightarrow> string \<Rightarrow> (int \<times> string option) \<times> 'w) \<Rightarrow> bool" where
  "appends bytes wr \<longleftrightarrow> (\<forall>w p n err w'. wr w p = ((n, err), w') \<longrightarrow> 0 \<le> n \<and> n \<le> int (length p) \<and> bytes w' = bytes w @ take (nat n) p)"

text \<open>These are the two ways in which the writer of \<open>jl_step\<close> leaves a line: all of it, or an initial part and an error.\<close>

lemma writeAll_line:
  "appends bytes wr \<Longrightarrow> writeAll wr p w = (err, w') \<Longrightarrow> \<exists>k. bytes w' = bytes w @ take k p \<and> (err = None \<longrightarrow> take k p = p)"
proof (induction wr p w rule: writeAll.induct)
  case (1 wr p w)
  show ?case
  proof (cases "p = []")
    case True
    then show ?thesis using "1.prems" by (simp add: writeAll.simps)
  next
    case False
    obtain n e w1 where w1: "wr w p = ((n, e), w1)" by (metis prod.collapse)
    then have n: "0 \<le> n" "n \<le> int (length p)" "bytes w1 = bytes w @ take (nat n) p" using "1.prems"(1) by (auto simp: appends_def)
    show ?thesis
    proof (cases "e = None \<and> n \<noteq> 0")
      case False
      then have "w' = w1" "err \<noteq> None" using "1.prems"(2) \<open>p \<noteq> []\<close> w1 n by (auto simp: writeAll.simps [of wr p] split: option.splits if_splits)
      then show ?thesis using n by blast
    next
      case True
      then have "writeAll wr (drop (nat n) p) w1 = (err, w')" using "1.prems"(2) \<open>p \<noteq> []\<close> w1 n by (simp add: writeAll.simps [of wr p])
      from "1.IH" [OF False w1 [symmetric] refl _ _ _ "1.prems"(1) this] True n
      obtain k where "bytes w' = bytes w1 @ take k (drop (nat n) p)" "err = None \<longrightarrow> take k (drop (nat n) p) = drop (nat n) p" by auto
      then have "bytes w' = bytes w @ take (nat n + k) p \<and> (err = None \<longrightarrow> take (nat n + k) p = p)" using n(3) by (auto simp: take_add)
      then show ?thesis by blast
    qed
  qed
qed

section \<open>State of the shutdown\<close>

text \<open>Where the writer stands after its loop, the file, and where \<^verbatim>\<open>closeBy\<close> stands.\<close>

datatype writer_tail = InLoop | Syncing | Synced | ClosingFile | WriterDone

datatype file_state = FileOpen | FileClosing | FileClosed

datatype close_pc = AwaitingWriter | BuildingError | CloseReturned "string list"

record file_life =
  lf_log :: jsonl
  lf_tail :: writer_tail
  lf_file :: file_state
  lf_closes :: nat
  lf_synced :: bool
  lf_background :: bool
  lf_writeErr :: "string option"
  lf_syncErr :: "string option"
  lf_closeErr :: "string option"
  lf_close :: close_pc

definition newFileLife :: "nat \<Rightarrow> string list \<Rightarrow> file_life" where
  "newFileLife capacity lines =
     \<lparr>lf_log = newJSONLLogger capacity lines, lf_tail = InLoop, lf_file = FileOpen, lf_closes = 0, lf_synced = False, lf_background = False,
      lf_writeErr = None, lf_syncErr = None, lf_closeErr = None, lf_close = AwaitingWriter\<rparr>"

section \<open>Operations\<close>

definition prefixed :: "string \<Rightarrow> string option \<Rightarrow> string option" where
  "prefixed message err = map_option (\<lambda>e. message @ e) err"

text \<open>The first write error is kept; the logger fails only once.\<close>

definition latchWrite :: "string \<Rightarrow> jsonl \<Rightarrow> file_life \<Rightarrow> file_life" where
  "latchWrite e l s =
     (if jl_failed l \<and> \<not> jl_failed (lf_log s) \<and> lf_writeErr s = None
      then s\<lparr>lf_log := l, lf_writeErr := Some (''telemetry: JSONL write: '' @ e)\<rparr> else s\<lparr>lf_log := l\<rparr>)"

definition syncEnds :: "string option \<Rightarrow> file_life \<Rightarrow> file_life" where
  "syncEnds err s = s\<lparr>lf_tail := Synced, lf_synced := (err = None), lf_syncErr := prefixed ''telemetry: JSONL sync: '' err\<rparr>"

text \<open>\<^verbatim>\<open>closeSink\<close>: the first caller closes the file, every caller waits until it is closed.\<close>

definition closeSink :: "file_life \<Rightarrow> file_life" where
  "closeSink s = s\<lparr>lf_file := FileClosing, lf_closes := lf_closes s + 1\<rparr>"

definition sinkClosed :: "string option \<Rightarrow> file_life \<Rightarrow> file_life" where
  "sinkClosed err s = s\<lparr>lf_file := FileClosed,
     lf_closeErr := (if lf_closeErr s = None then prefixed ''telemetry: JSONL close: '' err else lf_closeErr s)\<rparr>"

definition giveUp :: "file_life \<Rightarrow> file_life" where
  "giveUp s = s\<lparr>lf_log := abandon (lf_log s), lf_background := True, lf_close := BuildingError\<rparr>"

definition lossMessage :: "jsonl \<Rightarrow> string" where
  "lossMessage l = ''telemetry: '' @ itoa (int (lostEvents l)) @ '' events lost (queue='' @ itoa (int (jl_drops l QueueTimeoutDrop)) @
     '' canceled='' @ itoa (int (jl_drops l CanceledDrop)) @ '' post_close='' @ itoa (int (jl_drops l PostCloseDrop)) @
     '' sink_failure='' @ itoa (int (jl_drops l SinkFailureDrop)) @ '' undelivered_accepted='' @ itoa (int (jl_undelivered l)) @ '')''"

definition buildCloseError :: "string option \<Rightarrow> file_life \<Rightarrow> string list" where
  "buildCloseError diagnosticErr s =
     List.map_filter id
       [lf_writeErr s, lf_syncErr s, lf_closeErr s,
        if 0 < lostEvents (lf_log s) then Some (lossMessage (lf_log s)) else None,
        if 0 < jl_shutdownTimeouts (lf_log s) then Some ''telemetry: JSONL shutdown timeout'' else None,
        diagnosticErr]"

section \<open>Steps\<close>

text \<open>
  The logger's own steps but for its giving up, the end of the writer, and \<^verbatim>\<open>closeBy\<close>. The writer
  is done with its loop when the logger's writer has exited.
\<close>

abbreviation (input) "loop_done s \<equiv> jl_worker (lf_log s) = Exited"
abbreviation (input) "gave_up s \<equiv> jl_abandoned (lf_log s)"

inductive lf_step :: "file_life \<Rightarrow> file_life \<Rightarrow> bool" where
  logging: "jl_step (lf_log s) l \<Longrightarrow> jl_abandoned l = gave_up s \<Longrightarrow> lf_step s (latchWrite e l s)"
| tail_abandoned: "loop_done s \<Longrightarrow> lf_tail s = InLoop \<Longrightarrow> gave_up s \<Longrightarrow> lf_step s (s\<lparr>lf_tail := WriterDone\<rparr>)"
| tail_sync: "loop_done s \<Longrightarrow> lf_tail s = InLoop \<Longrightarrow> \<not> gave_up s \<Longrightarrow> lf_step s (s\<lparr>lf_tail := Syncing\<rparr>)"
| sync_ends: "lf_tail s = Syncing \<Longrightarrow> lf_step s (syncEnds err s)"
| synced_abandoned: "lf_tail s = Synced \<Longrightarrow> gave_up s \<Longrightarrow> lf_step s (s\<lparr>lf_tail := WriterDone\<rparr>)"
| synced_close: "lf_tail s = Synced \<Longrightarrow> \<not> gave_up s \<Longrightarrow> lf_step s (s\<lparr>lf_tail := ClosingFile\<rparr>)"
| file_close: "lf_tail s = ClosingFile \<or> lf_background s \<Longrightarrow> lf_file s = FileOpen \<Longrightarrow> lf_step s (closeSink s)"
| file_closed: "lf_file s = FileClosing \<Longrightarrow> lf_step s (sinkClosed err s)"
| writer_returns: "lf_tail s = ClosingFile \<Longrightarrow> lf_file s = FileClosed \<Longrightarrow> lf_step s (s\<lparr>lf_tail := WriterDone\<rparr>)"
| close_done: "lf_close s = AwaitingWriter \<Longrightarrow> jl_closed (lf_log s) \<Longrightarrow> lf_tail s = WriterDone \<Longrightarrow> lf_step s (s\<lparr>lf_close := BuildingError\<rparr>)"
| close_late: "lf_close s = AwaitingWriter \<Longrightarrow> jl_closed (lf_log s) \<Longrightarrow> lf_tail s \<noteq> WriterDone \<Longrightarrow> lf_step s (giveUp s)"
| close_returns: "lf_close s = BuildingError \<Longrightarrow> lf_step s (s\<lparr>lf_close := CloseReturned (buildCloseError diagnosticErr s)\<rparr>)"

text \<open>The sink hangs: no write, sync or close of the file returns.\<close>

inductive hung_life :: "file_life \<Rightarrow> file_life \<Rightarrow> bool" where
  "lf_step s s' \<Longrightarrow> jl_done (lf_log s') = jl_done (lf_log s) \<Longrightarrow> lf_tail s' = lf_tail s \<Longrightarrow> lf_file s' = lf_file s \<Longrightarrow> hung_life s s'"

section \<open>The invariant\<close>

text \<open>Once the writer's loop is done nothing but late calls changes the logger.\<close>

definition quiet :: "jsonl \<Rightarrow> bool" where
  "quiet l \<longleftrightarrow> jl_worker l = Exited \<and> \<not> jl_failed l \<and> \<not> jl_abandoned l \<and>
     jl_drops l QueueTimeoutDrop = 0 \<and> jl_drops l CanceledDrop = 0 \<and> jl_drops l SinkFailureDrop = 0"

definition clean :: "file_life \<Rightarrow> bool" where
  "clean s \<longleftrightarrow> quiet (lf_log s) \<and> lf_tail s = WriterDone \<and> lf_file s = FileClosed \<and> lf_synced s \<and>
     lf_writeErr s = None \<and> lf_syncErr s = None \<and> lf_closeErr s = None"

definition lf_inv :: "file_life \<Rightarrow> bool" where
  "lf_inv s \<longleftrightarrow> jl_inv (lf_log s) \<and>
     lf_closes s = (if lf_file s = FileOpen then 0 else 1) \<and>
     (lf_tail s \<noteq> InLoop \<longrightarrow> loop_done s) \<and>
     (jl_failed (lf_log s) \<longrightarrow> lf_writeErr s \<noteq> None) \<and>
     (lf_background s \<longleftrightarrow> gave_up s) \<and> (gave_up s \<longrightarrow> 0 < jl_shutdownTimeouts (lf_log s)) \<and>
     (lf_close s = AwaitingWriter \<longrightarrow> \<not> gave_up s) \<and> (lf_close s \<noteq> AwaitingWriter \<longrightarrow> jl_closed (lf_log s)) \<and>
     (lf_close s \<noteq> AwaitingWriter \<and> \<not> gave_up s \<longrightarrow> lf_tail s = WriterDone) \<and>
     (lf_tail s \<in> {Synced, ClosingFile, WriterDone} \<and> \<not> gave_up s \<longrightarrow> (lf_syncErr s = None \<longleftrightarrow> lf_synced s)) \<and>
     (lf_tail s = WriterDone \<and> \<not> gave_up s \<longrightarrow> lf_file s = FileClosed) \<and>
     (lf_close s = CloseReturned [] \<longrightarrow> clean s)"

lemmas op_defs = set_call_def drop_call_def releaseSlot_def trySlot_def admit_def send_def writer_defs

lemma jl_step_frame:
  assumes "jl_step l l'"
  shows "jl_closed l \<Longrightarrow> jl_closed l'" "jl_failed l \<Longrightarrow> jl_failed l'"
    "jl_abandoned l' = jl_abandoned l \<Longrightarrow> jl_shutdownTimeouts l' = jl_shutdownTimeouts l"
    "jl_worker l = Exited \<Longrightarrow> jl_worker l' = Exited \<and> jl_failed l' = jl_failed l"
    "jl_abandoned l \<Longrightarrow> jl_abandoned l'"
  using assms by (induction rule: jl_step.induct) (auto simp: op_defs)

lemma no_lock_holder:
  assumes "jl_inv l" "jl_closed l" "k < length (jl_calls l)"
  shows "\<not> holds_lock (lc_pc (jl_calls l ! k))"
proof
  assume "holds_lock (lc_pc (jl_calls l ! k))"
  then have "calls_in holds_lock (jl_calls l) \<noteq> {#}" using assms(3) by (auto simp: calls_in_def filter_mset_eq_conv)
  then show False using assms(1,2) by (auto simp: jl_inv_def close_inv_def)
qed

lemma quiet_step:
  assumes "jl_step l l'" "jl_inv l" "quiet l" "jl_abandoned l' = jl_abandoned l"
  shows "quiet l'"
proof -
  have closed: "jl_closed l" using assms(2,3) by (auto simp: quiet_def jl_inv_def close_inv_def)
  note free = no_lock_holder [OF assms(2) closed]
  show ?thesis using assms(1,3,4) free
    by (cases rule: jl_step.cases) (auto simp: quiet_def op_defs holds_lock_def)
qed

lemma lf_inv_start: "lf_inv (newFileLife capacity lines)"
  using jl_inv_start [of capacity lines] by (simp add: lf_inv_def newFileLife_def newJSONLLogger_def)

lemma latchWrite_simps [simp]:
  "lf_log (latchWrite e l s) = l" "lf_tail (latchWrite e l s) = lf_tail s" "lf_file (latchWrite e l s) = lf_file s"
  "lf_closes (latchWrite e l s) = lf_closes s" "lf_synced (latchWrite e l s) = lf_synced s"
  "lf_background (latchWrite e l s) = lf_background s" "lf_syncErr (latchWrite e l s) = lf_syncErr s"
  "lf_closeErr (latchWrite e l s) = lf_closeErr s" "lf_close (latchWrite e l s) = lf_close s"
  by (simp_all add: latchWrite_def)

lemma latchWrite_err:
  "jl_failed l = jl_failed (lf_log s) \<Longrightarrow> lf_writeErr (latchWrite e l s) = lf_writeErr s"
  "jl_failed (lf_log s) \<longrightarrow> lf_writeErr s \<noteq> None \<Longrightarrow> jl_failed l \<Longrightarrow> lf_writeErr (latchWrite e l s) \<noteq> None"
  by (auto simp: latchWrite_def)

lemma abandon_inv: "jl_inv l \<Longrightarrow> jl_closed l \<Longrightarrow> \<not> jl_abandoned l \<Longrightarrow> jl_inv (abandon l)"
  by (rule jl_inv_step [OF _ jl_step.close_timeout])

lemma close_error_clean:
  assumes "lf_inv s" "lf_close s = BuildingError" "buildCloseError d s = []"
  shows "clean s"
proof -
  have none: "lf_writeErr s = None" "lf_syncErr s = None" "lf_closeErr s = None" "lostEvents (lf_log s) = 0"
      "jl_shutdownTimeouts (lf_log s) = 0"
    using assms(3) by (auto simp: buildCloseError_def List.map_filter_simps split: if_splits option.splits)
  then have "\<not> gave_up s" "\<not> jl_failed (lf_log s)" using assms(1) by (auto simp: lf_inv_def)
  then show ?thesis using assms(1,2) none by (auto simp: lf_inv_def clean_def quiet_def lostEvents_def)
qed

lemma lf_inv_logging:
  assumes inv: "lf_inv s" and step: "jl_step (lf_log s) l" "jl_abandoned l = gave_up s"
  shows "lf_inv (latchWrite e l s)"
proof -
  note frame = jl_step_frame [OF step(1)]
  have "jl_inv l" using jl_inv_step [OF _ step(1)] inv by (simp add: lf_inv_def)
  moreover have "clean (latchWrite e l s)" if "clean s"
  proof -
    have "quiet l" using quiet_step [OF step(1)] that inv step(2) by (simp add: clean_def lf_inv_def)
    moreover have "jl_failed l = jl_failed (lf_log s)" using frame(4) that by (simp add: clean_def quiet_def)
    ultimately show ?thesis using that by (simp add: clean_def latchWrite_err)
  qed
  moreover have "jl_failed l \<longrightarrow> lf_writeErr (latchWrite e l s) \<noteq> None" using latchWrite_err(2) [of s l e] inv by (simp add: lf_inv_def)
  ultimately show ?thesis using inv frame step(2) unfolding lf_inv_def by simp
qed

lemma lf_inv_step:
  assumes step: "lf_step s s'" and inv: "lf_inv s"
  shows "lf_inv s'"
  using step
proof cases
  case (logging l e)
  then show ?thesis using lf_inv_logging [OF inv] by simp
next
  case close_late
  then show ?thesis using inv abandon_inv [of "lf_log s"] by (auto simp: lf_inv_def giveUp_def writer_defs)
next
  case (close_returns d)
  then show ?thesis using inv close_error_clean [OF inv, of d] by (auto simp: lf_inv_def clean_def)
next
  case (file_closed err)
  then show ?thesis using inv by (auto simp: lf_inv_def sinkClosed_def clean_def)
next
  case (sync_ends err)
  then show ?thesis using inv by (auto simp: lf_inv_def syncEnds_def prefixed_def clean_def)
next
  case file_close
  then show ?thesis using inv by (auto simp: lf_inv_def closeSink_def clean_def)
qed (use inv in \<open>auto simp: lf_inv_def clean_def\<close>)

section \<open>Progress\<close>

definition lf_size :: "file_life \<Rightarrow> nat" where
  "lf_size s = jl_size (lf_log s) +
     (case lf_tail s of InLoop \<Rightarrow> 4 | Syncing \<Rightarrow> 3 | Synced \<Rightarrow> 2 | ClosingFile \<Rightarrow> 1 | WriterDone \<Rightarrow> 0) +
     (case lf_file s of FileOpen \<Rightarrow> 2 | FileClosing \<Rightarrow> 1 | FileClosed \<Rightarrow> 0) +
     (case lf_close s of AwaitingWriter \<Rightarrow> 2 | BuildingError \<Rightarrow> 1 | CloseReturned _ \<Rightarrow> 0)"

lemma lf_step_decreases:
  assumes "lf_step s s'"
  shows "lf_inv s \<Longrightarrow> lf_size s' < lf_size s"
  using assms
proof cases
  case (logging l e)
  then show ?thesis using jl_step_decreases by (simp add: lf_size_def)
next
  case close_late
  then show "lf_inv s \<Longrightarrow> ?thesis"
    using jl_step_decreases [OF jl_step.close_timeout [of "lf_log s"]] by (simp add: lf_size_def giveUp_def lf_inv_def)
qed (auto simp: lf_size_def syncEnds_def closeSink_def sinkClosed_def)

definition close_returned :: "file_life \<Rightarrow> bool" where
  "close_returned s \<longleftrightarrow> (\<exists>errs. lf_close s = CloseReturned errs)"

text \<open>A hanging sink does not keep \<^verbatim>\<open>Close\<close> from returning.\<close>

lemma hung_logging:
  assumes "jl_step (lf_log s) l" "jl_abandoned l = gave_up s" "jl_done l = jl_done (lf_log s)"
  shows "\<exists>s'. hung_life s s'"
proof -
  have "lf_step s (latchWrite [] l s)" by (rule lf_step.logging [OF assms(1,2)])
  then show ?thesis using assms(3) by (intro exI [of _ "latchWrite [] l s"] hung_life.intros) simp_all
qed

lemma hung_life_progress:
  assumes inv: "lf_inv s" and "\<not> close_returned s"
  shows "\<exists>s'. hung_life s s'"
proof (cases "jl_closed (lf_log s)")
  case True
  show ?thesis
  proof (cases "lf_close s")
    case AwaitingWriter
    then show ?thesis
      using hung_life.intros [OF lf_step.close_done [OF AwaitingWriter True]] hung_life.intros [OF lf_step.close_late [OF AwaitingWriter True]]
      by (cases "lf_tail s = WriterDone") (auto simp: giveUp_def abandon_def)
  next
    case BuildingError
    from hung_life.intros [OF lf_step.close_returns [OF this, of None]] show ?thesis by auto
  qed (use assms in \<open>auto simp: close_returned_def\<close>)
next
  case open1: False
  let ?l = "lf_log s"
  have jl: "jl_inv ?l" using inv by (simp add: lf_inv_def)
  consider "\<not> jl_closedState ?l" | "jl_closedState ?l" "\<forall>c \<in> set (jl_calls ?l). \<not> holds_lock (lc_pc c)"
    | k where "k < length (jl_calls ?l)" "holds_lock (lc_pc (jl_calls ?l ! k))"
    by (metis in_set_conv_nth)
  then show ?thesis
  proof cases
    case 1
    from hung_logging [OF jl_step.close_begin [OF this]] show ?thesis by simp
  next
    case 2
    from hung_logging [OF jl_step.close_queue [OF 2(1) open1 2(2)]] show ?thesis by simp
  next
    case 3
    then have "call_size (lc_pc (jl_calls ?l ! k)) \<noteq> 0" by (auto simp: holds_lock_def)
    from caller_progress [OF jl 3(1) this] show ?thesis using hung_logging by auto
  qed
qed

interpretation file_life: inductive_invariant "\<lambda>s. s = newFileLife capacity lines" lf_step lf_inv
  for capacity :: nat and lines :: "string list"
  by unfold_locales (auto intro: lf_inv_start lf_inv_step)

interpretation hung_file: finishing_system "\<lambda>s. s = newFileLife capacity lines" hung_life lf_inv close_returned lf_size
  for capacity :: nat and lines :: "string list"
proof unfold_locales
  fix s s' :: file_life
  show "s = newFileLife capacity lines \<Longrightarrow> lf_inv s" by (simp add: lf_inv_start)
  show "lf_inv s \<Longrightarrow> hung_life s s' \<Longrightarrow> lf_inv s'" by (auto elim!: hung_life.cases intro: lf_inv_step)
  show "lf_inv s \<Longrightarrow> \<not> close_returned s \<Longrightarrow> \<exists>s'. hung_life s s'" by (rule hung_life_progress)
  show "lf_inv s \<Longrightarrow> hung_life s s' \<Longrightarrow> lf_size s' < lf_size s" by (auto elim!: hung_life.cases intro: lf_step_decreases)
qed

section \<open>Properties\<close>

text \<open>C19: a \<^verbatim>\<open>Close\<close> that returns no error lost nothing: every accepted line is in the file, in order and whole,
  the file was synced and closed once, no write failed, and no call of \<^verbatim>\<open>Log\<close> was dropped but those
  that came after the close.\<close>

theorem jsonl_close_honest:
  assumes "lf_step\<^sup>*\<^sup>* (newFileLife capacity lines) s" "lf_close s = CloseReturned []"
  shows "jl_sink (lf_log s) = concat (jl_enqueued (lf_log s)) \<and>
    mset (jl_enqueued (lf_log s)) = calls_in (\<lambda>pc. pc = Accepted) (jl_calls (lf_log s)) \<and>
    jl_written (lf_log s) = jl_accepted (lf_log s) \<and> lf_synced s \<and> lf_file s = FileClosed \<and> lf_closes s = 1 \<and>
    (\<forall>c \<in> set (jl_calls (lf_log s)). \<forall>r. lc_pc c = Dropped r \<longrightarrow> r = PostCloseDrop)"
proof -
  let ?l = "lf_log s"
  have inv: "lf_inv s" by (rule file_life.inv_reachable [OF refl assms(1)])
  then have c: "clean s" using assms(2) by (simp add: lf_inv_def)
  then have q: "quiet ?l" by (simp add: clean_def)
  have jl: "jl_inv ?l" using inv by (simp add: lf_inv_def)
  have "jl_pending ?l = 0"
    using jl q no_lock_holder [OF jl] by (auto simp: quiet_def jl_inv_defs calls_in_def holds_lock_def filter_mset_eq_conv)
  then have written: "jl_sink ?l = concat (jl_enqueued ?l)" "jl_written ?l = jl_accepted ?l"
    using jl q by (auto simp: quiet_def jl_inv_defs)
  have "r = PostCloseDrop" if "x \<in> set (jl_calls ?l)" "lc_pc x = Dropped r" for x r
  proof -
    have "calls_in (\<lambda>pc. pc = Dropped r) (jl_calls ?l) \<noteq> {#}" using that by (auto simp: calls_in_def filter_mset_eq_conv)
    then have "jl_drops ?l r \<noteq> 0" using jl by (auto simp: jl_inv_def account_inv_def nonempty_has_size)
    then show ?thesis using q by (cases r) (auto simp: quiet_def)
  qed
  then show ?thesis using written jl inv c by (auto simp: jl_inv_def sink_inv_def lf_inv_def clean_def)
qed

text \<open>C20: \<^verbatim>\<open>Close\<close> returns although the sink hangs in a write, in the sync or in its own close; the file is closed at most
  once, by the writer or by the goroutine that a timeout leaves behind; a write error is never
  forgotten; and no run goes on forever.\<close>

theorem jsonl_close_returns:
  assumes "lf_step\<^sup>*\<^sup>* (newFileLife capacity lines) s"
  shows "lf_closes s \<le> 1 \<and> (jl_failed (lf_log s) \<longrightarrow> lf_writeErr s \<noteq> None) \<and>
    (\<exists>s'. hung_life\<^sup>*\<^sup>* s s' \<and> close_returned s') \<and> \<not> (\<exists>f. f 0 = s \<and> (\<forall>i. lf_step (f i) (f (Suc i))))"
proof -
  have inv: "lf_inv s" by (rule file_life.inv_reachable [OF refl assms])
  have "\<not> (\<forall>i. lf_step (f i) (f (Suc i)))" if "f 0 = s" for f
  proof
    assume run: "\<forall>i. lf_step (f i) (f (Suc i))"
    have inv_all: "lf_inv (f i)" for i using run that inv lf_inv_step by (induction i) auto
    have "wf (measure lf_size)" by simp
    moreover have "(f (Suc i), f i) \<in> measure lf_size" for i using run inv_all lf_step_decreases by simp
    ultimately show False using wf_no_infinite_down_chainE by blast
  qed
  then show ?thesis using inv hung_file.finishes [OF inv] by (auto simp: lf_inv_def)
qed

section \<open>Witnesses\<close>

theorem jsonl_close_returns_witness:
  "\<exists>s. hung_life\<^sup>*\<^sup>* (newFileLife 1 [''a'', ''b'']) s \<and> close_returned s"
  using jsonl_close_returns [OF rtranclp.rtrancl_refl] by blast

text \<open>A run of the logger without a failure is a run of the file.\<close>

lemma lift_run:
  assumes "jl_step\<^sup>*\<^sup>* l l'" "\<not> jl_failed l'" "\<not> jl_abandoned l'" "lf_log s = l"
  shows "lf_step\<^sup>*\<^sup>* s (s\<lparr>lf_log := l'\<rparr>)"
  using assms
proof (induction rule: rtranclp_induct)
  case base
  then have "s\<lparr>lf_log := l\<rparr> = s" by (metis file_life.surjective file_life.update_convs(1) file_life.select_convs(1))
  then show ?case by simp
next
  case (step u v)
  have "\<not> jl_failed u" "\<not> jl_abandoned u" using jl_step_frame(2,5) [OF step(2)] step(4,5) by blast+
  then have "lf_step\<^sup>*\<^sup>* s (s\<lparr>lf_log := u\<rparr>)" using step by simp
  moreover have "lf_step (s\<lparr>lf_log := u\<rparr>) (latchWrite [] v (s\<lparr>lf_log := u\<rparr>))"
    by (rule lf_step.logging) (use step \<open>\<not> jl_abandoned u\<close> in simp_all)
  ultimately show ?case using step(4) by (simp add: latchWrite_def)
qed

definition closed_life :: "string \<Rightarrow> file_life" where
  "closed_life line = (newFileLife 1 [line])\<lparr>lf_log := logged_state line, lf_tail := WriterDone, lf_file := FileClosed, lf_closes := 1, lf_synced := True,
     lf_close := CloseReturned []\<rparr>"

lemma lf_run_step: "lf_step s t \<Longrightarrow> lf_step\<^sup>*\<^sup>* t u \<Longrightarrow> lf_step\<^sup>*\<^sup>* s u"
  by (rule converse_rtranclp_into_rtranclp)

lemma closed_run: "lf_step\<^sup>*\<^sup>* (newFileLife 1 [line]) (closed_life line)"
proof -
  let ?a = "(newFileLife 1 [line])\<lparr>lf_log := logged_state line\<rparr>"
  let ?b = "?a\<lparr>lf_tail := Syncing\<rparr>" let ?c = "syncEnds None ?b" let ?d = "?c\<lparr>lf_tail := ClosingFile\<rparr>"
  let ?e = "closeSink ?d" let ?f = "sinkClosed None ?e" let ?g = "?f\<lparr>lf_tail := WriterDone\<rparr>"
  let ?h = "?g\<lparr>lf_close := BuildingError\<rparr>" let ?i = "?h\<lparr>lf_close := CloseReturned (buildCloseError None ?h)\<rparr>"
  note run = newFileLife_def logged_state_def newJSONLLogger_def syncEnds_def closeSink_def sinkClosed_def prefixed_def
    buildCloseError_def lostEvents_def List.map_filter_simps
  have ab: "lf_step ?a ?b" by (rule tail_sync) (simp_all add: run)
  have bc: "lf_step ?b ?c" by (rule sync_ends) (simp add: run)
  have cd: "lf_step ?c ?d" by (rule synced_close) (simp_all add: run)
  have de: "lf_step ?d ?e" by (rule file_close) (simp_all add: run)
  have ef: "lf_step ?e ?f" by (rule file_closed) (simp add: run)
  have fg: "lf_step ?f ?g" by (rule writer_returns) (simp_all add: run)
  have gh: "lf_step ?g ?h" by (rule close_done) (simp_all add: run)
  have hi: "lf_step ?h ?i" by (rule close_returns) simp
  have "lf_step\<^sup>*\<^sup>* ?a ?i"
    by (rule lf_run_step [OF ab], rule lf_run_step [OF bc], rule lf_run_step [OF cd], rule lf_run_step [OF de], rule lf_run_step [OF ef],
      rule lf_run_step [OF fg], rule lf_run_step [OF gh], rule lf_run_step [OF hi], rule rtranclp.rtrancl_refl)
  moreover have "?i = closed_life line" by (simp add: closed_life_def run)
  moreover have "lf_step\<^sup>*\<^sup>* (newFileLife 1 [line]) ?a"
    by (rule lift_run [OF logged_run]) (simp_all add: logged_state_def newJSONLLogger_def newFileLife_def)
  ultimately show ?thesis by simp
qed

theorem jsonl_close_honest_witness:
  "lf_close (closed_life ''a'') = CloseReturned [] \<and> jl_sink (lf_log (closed_life ''a'')) = concat (jl_enqueued (lf_log (closed_life ''a'')))"
proof -
  have c: "lf_close (closed_life ''a'') = CloseReturned []" by (simp add: closed_life_def)
  from jsonl_close_honest [OF closed_run c] c show ?thesis by blast
qed

end
