(* ===== verification/Eval_Jsonl.thy ===== *)
theory Eval_Jsonl
  imports Jsonl_Shutdown
begin

text \<open>
  Reading the telemetry file from outside (\<^verbatim>\<open>src/eval/testinfra/jsonl.go\<close>): the parser of a snapshot of the
  file and the loop that waits until a given number of records stays unchanged. Decoding one line
  with \<^verbatim>\<open>encoding/json\<close> is the parameter \<open>decode\<close>; what each round of the loop sees of the file and of the
  clock is the parameter \<open>obs\<close>.
\<close>

section \<open>One snapshot\<close>

text \<open>What a decoder makes of a line: an error, or a value and what follows it.\<close>

datatype trailing = NoTrailing | TrailingValue | TrailingData string

datatype decoded = DecodeFailed string | Decoded json trailing

datatype record_error =
    EmptyRecord nat
  | BadRecord nat string
  | TrailingJSON nat
  | TrailingGarbage nat string
  | NotAnObject nat

fun parseRecords :: "(string \<Rightarrow> decoded) \<Rightarrow> nat \<Rightarrow> string list \<Rightarrow> record_error + (string \<times> json) list list" where
  "parseRecords decode i [] = Inr []"
| "parseRecords decode i (line # parts) =
     (if line = [] then Inl (EmptyRecord (i + 1))
      else
        (case decode line of
           DecodeFailed e \<Rightarrow> Inl (BadRecord (i + 1) e)
         | Decoded v (TrailingValue) \<Rightarrow> Inl (TrailingJSON (i + 1))
         | Decoded v (TrailingData e) \<Rightarrow> Inl (TrailingGarbage (i + 1) e)
         | Decoded (JObject record) NoTrailing \<Rightarrow> rbind (parseRecords decode (i + 1) parts) (\<lambda>records. Inr (record # records))
         | Decoded v NoTrailing \<Rightarrow> Inl (NotAnObject (i + 1))))"

definition parseJSONLSnapshot :: "(string \<Rightarrow> decoded) \<Rightarrow> string \<Rightarrow> (record_error + (string \<times> json) list list) \<times> bool" where
  "parseJSONLSnapshot decode data =
     (parseRecords decode 0 (butlast (split_byte newline data)), data = [] \<or> last data = newline)"

section \<open>Waiting for quiescence\<close>

datatype file_read = FileMissing | ReadFailed string | FileData string

record observation =
  ob_read :: file_read
  ob_stamp :: int
  ob_late :: bool

record quiescence =
  qs_stable :: string
  qs_since :: int
  qs_observed :: bool
  qs_state :: string

datatype wait_error =
    ReadingFailed string
  | ParsingFailed record_error
  | TooManyRecords nat nat
  | WaitTimedOut string

definition quiescence_start :: quiescence where
  "quiescence_start = \<lparr>qs_stable = [], qs_since = 0, qs_observed = False, qs_state = ''file not created''\<rparr>"

text \<open>The body of the loop: it returns, or goes on with a new state.\<close>

definition examine :: "(string \<Rightarrow> decoded) \<Rightarrow> nat \<Rightarrow> int \<Rightarrow> int \<Rightarrow> string \<Rightarrow> quiescence \<Rightarrow>
    (wait_error + (string \<times> json) list list) + quiescence" where
  "examine decode expected quietFor now data q =
     (case parseJSONLSnapshot decode data of
        (Inl e, _) \<Rightarrow> Inl (Inl (ParsingFailed e))
      | (Inr records, complete) \<Rightarrow>
          if \<not> complete then Inr (q\<lparr>qs_state := ''unterminated final record'', qs_observed := False, qs_stable := []\<rparr>)
          else if expected < length records then Inl (Inl (TooManyRecords (length records) expected))
          else if length records < expected
          then Inr (q\<lparr>qs_state := itoa (int (length records)) @ '' records, want exactly '' @ itoa (int expected),
                qs_observed := False, qs_stable := []\<rparr>)
          else if \<not> qs_observed q \<or> qs_stable q \<noteq> data
          then Inr (q\<lparr>qs_stable := data, qs_since := now, qs_observed := True, qs_state := ''valid records not yet quiescent''\<rparr>)
          else if quietFor \<le> now - qs_since q then Inl (Inr records)
          else Inr (q\<lparr>qs_state := ''valid records not yet quiescent''\<rparr>))"

definition observe :: "(string \<Rightarrow> decoded) \<Rightarrow> nat \<Rightarrow> int \<Rightarrow> observation \<Rightarrow> quiescence \<Rightarrow>
    (wait_error + (string \<times> json) list list) + quiescence" where
  "observe decode expected quietFor ob q =
     (case (case ob_read ob of
              ReadFailed e \<Rightarrow> Inl (Inl (ReadingFailed e))
            | FileMissing \<Rightarrow> Inr q
            | FileData data \<Rightarrow> examine decode expected quietFor (ob_stamp ob) data q) of
        Inl result \<Rightarrow> Inl result
      | Inr q' \<Rightarrow> if ob_late ob then Inl (Inl (WaitTimedOut (qs_state q'))) else Inr q')"

text \<open>The loop from its \<open>i\<close>-th round on; a clock that never reaches the deadline may keep it going forever.\<close>

partial_function (option) waitFrom :: "(string \<Rightarrow> decoded) \<Rightarrow> nat \<Rightarrow> int \<Rightarrow> (nat \<Rightarrow> observation) \<Rightarrow> nat \<Rightarrow> quiescence \<Rightarrow>
    (wait_error + (string \<times> json) list list) option" where
  "waitFrom decode expected quietFor obs i q =
     (case observe decode expected quietFor (obs i) q of
        Inl result \<Rightarrow> Some result
      | Inr q' \<Rightarrow> waitFrom decode expected quietFor obs (Suc i) q')"

definition WaitForQuiescentJSONL :: "(string \<Rightarrow> decoded) \<Rightarrow> nat \<Rightarrow> int \<Rightarrow> (nat \<Rightarrow> observation) \<Rightarrow>
    (wait_error + (string \<times> json) list list) option" where
  "WaitForQuiescentJSONL decode expected quietFor obs = waitFrom decode expected quietFor obs 0 quiescence_start"

section \<open>Snapshots of a file of lines\<close>

text \<open>A line as the logger writes it.\<close>

definition is_line :: "string \<Rightarrow> bool" where
  "is_line line \<longleftrightarrow> (\<exists>body. line = body @ [newline] \<and> body \<noteq> [] \<and> newline \<notin> set body)"

lemma split_line: "newline \<notin> set body \<Longrightarrow> split_byte newline (body @ newline # rest) = body # split_byte newline rest"
  by (induction body) auto

lemma split_nonempty: "split_byte c s \<noteq> []"
  by (induction c s rule: split_byte.induct) (auto split: list.splits)

lemma split_rest: "newline \<notin> set s \<Longrightarrow> split_byte newline s = [s]"
  by (induction s) auto

text \<open>Whatever part of a file of lines was read, its split is the complete lines and one rest.\<close>

lemma split_lines:
  assumes "list_all is_line lines" "newline \<notin> set rest"
  shows "split_byte newline (concat lines @ rest) = map butlast lines @ [rest]"
  using assms(1)
proof (induction lines)
  case (Cons line lines)
  then obtain body where "line = body @ [newline]" "newline \<notin> set body" by (auto simp: is_line_def)
  then show ?case using Cons split_line [of body "concat lines @ rest"] by simp
qed (simp add: split_rest [OF assms(2)])

lemma prefix_of_lines:
  assumes "list_all is_line lines" "prefix data (concat lines)"
  shows "\<exists>k rest. data = concat (take k lines) @ rest \<and> newline \<notin> set rest"
  using assms
proof (induction lines arbitrary: data)
  case (Cons line lines)
  then obtain body where l: "line = body @ [newline]" "newline \<notin> set body" by (auto simp: is_line_def)
  show ?case
  proof (cases "length data < length line")
    case True
    then have "prefix data line" using Cons.prems(2) by (auto simp: prefix_def append_eq_append_conv2)
    then have "prefix data body" using True l by (auto simp: prefix_snoc)
    then have "newline \<notin> set data" using l(2) by (auto simp: prefix_def)
    then show ?thesis by (intro exI [of _ 0] exI [of _ data]) auto
  next
    case False
    then obtain data' where d: "data = line @ data'" "prefix data' (concat lines)"
      using Cons.prems(2) by (auto simp: prefix_def append_eq_append_conv2)
    from Cons.IH [OF _ d(2)] Cons.prems(1) obtain k rest where
      "data' = concat (take k lines) @ rest" "newline \<notin> set rest" by auto
    then show ?thesis using d(1) l(1) by (intro exI [of _ "Suc k"] exI [of _ rest]) auto
  qed
qed auto

definition decodes :: "(string \<Rightarrow> decoded) \<Rightarrow> string list \<Rightarrow> (string \<times> json) list list \<Rightarrow> bool" where
  "decodes decode lines records \<longleftrightarrow> list_all2 (\<lambda>line record. decode (butlast line) = Decoded (JObject record) NoTrailing) lines records"

lemma parseRecords_lines:
  "decodes decode lines records \<Longrightarrow> list_all is_line lines \<Longrightarrow> parseRecords decode i (map butlast lines) = Inr records"
  unfolding decodes_def
  by (induction lines records arbitrary: i rule: list_all2_induct) (auto simp: is_line_def)

lemma last_concat_lines: "list_all is_line lines \<Longrightarrow> lines \<noteq> [] \<Longrightarrow> last (concat lines) = newline"
  by (induction lines rule: rev_induct) (auto simp: is_line_def)

lemma parse_prefix:
  assumes "list_all is_line lines" "decodes decode lines records" "prefix data (concat lines)"
  shows "\<exists>k. k \<le> length lines \<and> parseJSONLSnapshot decode data = (Inr (take k records), data = concat (take k lines)) \<and>
    prefix (concat (take k lines)) data"
proof -
  obtain k0 rest where d: "data = concat (take k0 lines) @ rest" "newline \<notin> set rest" using prefix_of_lines [OF assms(1,3)] by blast
  define k where "k = min k0 (length lines)"
  have take: "take k0 lines = take k lines" by (simp add: k_def min_def)
  have lines: "list_all is_line (take k lines)" using assms(1) by (auto simp: list_all_iff dest: in_set_takeD)
  have "decodes decode (take k lines) (take k records)" using assms(2) by (simp add: decodes_def list_all2_takeI)
  then have "parseRecords decode 0 (butlast (split_byte newline data)) = Inr (take k records)"
    using parseRecords_lines lines split_lines [OF lines d(2)] d(1) take by (simp add: butlast_append)
  moreover have "(data = [] \<or> last data = newline) = (data = concat (take k lines))"
  proof (cases "rest = []")
    case True
    show ?thesis using last_concat_lines [OF lines] True d(1) take by (cases "take k lines = []") auto
  next
    case False
    then have "last rest \<noteq> newline" using d(2) last_in_set by metis
    then show ?thesis using False d(1) take by simp
  qed
  ultimately show ?thesis using d(1) take by (intro exI [of _ k]) (auto simp: parseJSONLSnapshot_def k_def)
qed

section \<open>The waiting loop\<close>

text \<open>A round that can go on keeps a candidate only while every later round sees the same bytes or no file.\<close>

definition sees :: "observation \<Rightarrow> string \<Rightarrow> bool" where
  "sees ob data \<longleftrightarrow> ob_read ob = FileData data \<or> ob_read ob = FileMissing"

definition candidate :: "(string \<Rightarrow> decoded) \<Rightarrow> nat \<Rightarrow> (nat \<Rightarrow> observation) \<Rightarrow> nat \<Rightarrow> quiescence \<Rightarrow> bool" where
  "candidate decode expected obs i q \<longleftrightarrow> (qs_observed q \<longrightarrow>
     (\<exists>j < i. ob_read (obs j) = FileData (qs_stable q) \<and> qs_since q = ob_stamp (obs j) \<and>
        (\<forall>k. j \<le> k \<and> k < i \<longrightarrow> sees (obs k) (qs_stable q))))"

lemma candidate_next:
  assumes "candidate decode expected obs i q" "observe decode expected quietFor (obs i) q = Inr q'"
  shows "candidate decode expected obs (Suc i) q'"
proof -
  have old: "\<exists>j < Suc i. ob_read (obs j) = FileData (qs_stable q) \<and> qs_since q = ob_stamp (obs j) \<and>
      (\<forall>k. j \<le> k \<and> k < Suc i \<longrightarrow> sees (obs k) (qs_stable q))"
    if was: "qs_observed q" and now: "sees (obs i) (qs_stable q)"
  proof -
    obtain j where "j < i" "ob_read (obs j) = FileData (qs_stable q)" "qs_since q = ob_stamp (obs j)"
        "\<forall>k. j \<le> k \<and> k < i \<longrightarrow> sees (obs k) (qs_stable q)"
      using assms(1) was by (auto simp: candidate_def)
    then show ?thesis using now by (intro exI [of _ j]) (auto simp: less_Suc_eq)
  qed
  have new: "\<exists>j < Suc i. ob_read (obs j) = FileData data \<and> ob_stamp (obs i) = ob_stamp (obs j) \<and> (\<forall>k. j \<le> k \<and> k < Suc i \<longrightarrow> sees (obs k) data)"
    if "ob_read (obs i) = FileData data" for data
    using that by (intro exI [of _ i]) (auto simp: sees_def less_Suc_eq)
  show ?thesis
  proof (cases "ob_read (obs i)")
    case FileMissing
    then have "q' = q" using assms(2) by (auto simp: observe_def split: if_splits)
    then show ?thesis using old FileMissing by (auto simp: candidate_def sees_def)
  next
    case (FileData data)
    then have "examine decode expected quietFor (ob_stamp (obs i)) data q = Inr q'"
      using assms(2) by (auto simp: observe_def split: sum.splits if_splits)
    then have "\<not> qs_observed q' \<or> (qs_stable q' = data \<and> qs_since q' = ob_stamp (obs i)) \<or>
        (qs_observed q \<and> qs_stable q = data \<and> qs_stable q' = data \<and> qs_since q' = qs_since q)"
      by (auto simp: examine_def split: prod.splits sum.splits if_splits)
    then show ?thesis using old new [OF FileData] FileData by (auto simp: candidate_def sees_def)
  qed (use assms(2) in \<open>simp add: observe_def\<close>)
qed

definition quiescent :: "(string \<Rightarrow> decoded) \<Rightarrow> nat \<Rightarrow> int \<Rightarrow> (nat \<Rightarrow> observation) \<Rightarrow> (string \<times> json) list list \<Rightarrow> bool" where
  "quiescent decode expected quietFor obs records \<longleftrightarrow> length records = expected \<and>
     (\<exists>data j i. j < i \<and> ob_read (obs j) = FileData data \<and> ob_read (obs i) = FileData data \<and>
        quietFor \<le> ob_stamp (obs i) - ob_stamp (obs j) \<and> (\<forall>k. j \<le> k \<and> k \<le> i \<longrightarrow> sees (obs k) data) \<and>
        parseJSONLSnapshot decode data = (Inr records, True))"

lemma observe_records:
  assumes "candidate decode expected obs i q" "observe decode expected quietFor (obs i) q = Inl (Inr records)"
  shows "quiescent decode expected quietFor obs records"
proof -
  obtain data where data: "ob_read (obs i) = FileData data" "examine decode expected quietFor (ob_stamp (obs i)) data q = Inl (Inr records)"
    using assms(2) by (auto simp: observe_def split: file_read.splits sum.splits if_splits)
  then have e: "parseJSONLSnapshot decode data = (Inr records, True)" "length records = expected" "qs_observed q" "qs_stable q = data"
      "quietFor \<le> ob_stamp (obs i) - qs_since q"
    by (auto simp: examine_def split: prod.splits sum.splits if_splits)
  then obtain j where "j < i" "ob_read (obs j) = FileData data" "qs_since q = ob_stamp (obs j)" "\<forall>k. j \<le> k \<and> k < i \<longrightarrow> sees (obs k) data"
    using assms(1) by (auto simp: candidate_def)
  then show ?thesis using e data(1) unfolding quiescent_def
    by (intro conjI exI [of _ data] exI [of _ j] exI [of _ i]) (auto simp: le_less sees_def)
qed

lemma waitFrom_sound:
  assumes "waitFrom decode expected quietFor obs i q = Some result"
  shows "\<forall>records. result = Inr records \<longrightarrow> candidate decode expected obs i q \<longrightarrow> quiescent decode expected quietFor obs records"
proof (rule waitFrom.raw_induct [where P = "\<lambda>decode expected quietFor obs i q result. \<forall>records. result = Inr records \<longrightarrow>
    candidate decode expected obs i q \<longrightarrow> quiescent decode expected quietFor obs records", OF _ assms], goal_cases)
  case (1 again decode expected quietFor obs i q result)
  show ?case
  proof (cases "observe decode expected quietFor (obs i) q")
    case (Inl a)
    then show ?thesis using 1 observe_records by auto
  next
    case (Inr q')
    then show ?thesis using 1 candidate_next by auto
  qed
qed

text \<open>The loop returns when the clock reaches the deadline in some round.\<close>

lemma waitFrom_returns:
  "ob_late (obs (i + d)) \<Longrightarrow> \<exists>result. waitFrom decode expected quietFor obs i q = Some result"
proof (induction d arbitrary: i q)
  case 0
  then show ?case by (subst waitFrom.simps) (auto simp: observe_def split: sum.splits file_read.splits)
next
  case (Suc d)
  show ?case
  proof (cases "observe decode expected quietFor (obs i) q")
    case (Inl a)
    then show ?thesis by (subst waitFrom.simps) simp
  next
    case (Inr q')
    then show ?thesis using Suc.IH [of "Suc i" q'] Suc.prems by (subst waitFrom.simps) simp
  qed
qed

section \<open>The file of the logger\<close>

text \<open>The line that \<^verbatim>\<open>logSnapshot\<close> admits.\<close>

definition record_line :: "(string \<Rightarrow> string) \<Rightarrow> nat \<Rightarrow> eventSnapshot \<Rightarrow> string" where
  "record_line sha maxBytes snapshot = (case encodeJSONLRecord sha snapshot maxBytes of Some (line, _, _) \<Rightarrow> line | None \<Rightarrow> [])"

definition snapshot_valid :: "eventSnapshot \<Rightarrow> bool" where
  "snapshot_valid snapshot \<longleftrightarrow> event_widths (es_event snapshot) \<and> snapshot_ok snapshot"

lemma record_line_is_line:
  assumes "sha_ok sha" "snapshot_valid snapshot" "minimumRecordBytes \<le> maxBytes"
  shows "is_line (record_line sha maxBytes snapshot)"
  using encodeJSONLRecord_line [of sha snapshot maxBytes] assms by (auto simp: snapshot_valid_def record_line_def is_line_def)

text \<open>\<^verbatim>\<open>encoding/json\<close> reads back what it wrote: the line of an event decodes to an object.\<close>

definition decodes_events :: "(string \<Rightarrow> decoded) \<Rightarrow> string list \<Rightarrow> bool" where
  "decodes_events decode lines \<longleftrightarrow> (\<forall>line \<in> set lines. \<exists>record. decode (butlast line) = Decoded (JObject record) NoTrailing)"

definition object_of :: "(string \<Rightarrow> decoded) \<Rightarrow> string \<Rightarrow> (string \<times> json) list" where
  "object_of decode line = (case decode (butlast line) of Decoded (JObject record) _ \<Rightarrow> record | _ \<Rightarrow> [])"

lemma decodes_objects: "decodes_events decode lines \<Longrightarrow> decodes decode lines (map (object_of decode) lines)"
  unfolding decodes_def decodes_events_def by (induction lines) (auto simp: object_of_def)

lemma jl_step_lines: "jl_step l l' \<Longrightarrow> map lc_line (jl_calls l') = map lc_line (jl_calls l)"
  by (induction rule: jl_step.induct) (auto simp: op_defs map_update list_update_same_conv)

lemma lf_lines:
  assumes "lf_step\<^sup>*\<^sup>* (newFileLife capacity lines) s"
  shows "map lc_line (jl_calls (lf_log s)) = lines"
  using assms
proof (induction rule: rtranclp_induct)
  case base
  then show ?case by (simp add: newFileLife_def newJSONLLogger_def comp_def)
next
  case (step s u)
  from step(2) have "map lc_line (jl_calls (lf_log u)) = map lc_line (jl_calls (lf_log s))"
    by cases (auto simp: jl_step_lines giveUp_def abandon_def syncEnds_def closeSink_def sinkClosed_def)
  then show ?case using step.IH by simp
qed

lemma enqueued_lines:
  assumes "lf_step\<^sup>*\<^sup>* (newFileLife capacity lines) s"
  shows "set (jl_enqueued (lf_log s)) \<subseteq> set lines"
proof -
  have "jl_inv (lf_log s)" using file_life.inv_reachable [OF refl assms] by (simp add: lf_inv_def)
  then have "set (jl_enqueued (lf_log s)) = set_mset (calls_in (\<lambda>pc. pc = Accepted) (jl_calls (lf_log s)))"
    by (metis jl_inv_def sink_inv_def set_mset_mset)
  also have "\<dots> \<subseteq> set (map lc_line (jl_calls (lf_log s)))" by (auto simp: calls_in_def)
  finally show ?thesis using lf_lines [OF assms] by simp
qed

lemma lf_sink_prefix:
  assumes "lf_step\<^sup>*\<^sup>* (newFileLife capacity lines) s"
  shows "prefix (jl_sink (lf_log s)) (concat (jl_enqueued (lf_log s)))"
    and "lf_close s = CloseReturned [] \<Longrightarrow> jl_sink (lf_log s) = concat (jl_enqueued (lf_log s))"
proof -
  have inv: "lf_inv s" by (rule file_life.inv_reachable [OF refl assms])
  then show "prefix (jl_sink (lf_log s)) (concat (jl_enqueued (lf_log s)))" unfolding lf_inv_def jl_inv_def sink_inv_def by blast
  assume "lf_close s = CloseReturned []"
  then have "quiet (lf_log s)" "jl_inv (lf_log s)" using inv by (simp_all add: lf_inv_def clean_def)
  then show "jl_sink (lf_log s) = concat (jl_enqueued (lf_log s))" by (auto simp: quiet_def jl_inv_defs)
qed

section \<open>Properties\<close>

text \<open>C21: whoever reads the telemetry file while the daemon runs reads only whole events: at every moment of every run
  the parser accepts the bytes that are there, returns the records of the first complete lines
  in the order of admission, and calls the snapshot complete exactly when it ends with a whole line;
  after a close without error it returns every accepted event.\<close>

theorem logger_file_readable:
  assumes "sha_ok sha" "list_all snapshot_valid snapshots" "minimumRecordBytes \<le> maxBytes"
    and "decodes_events decode (map (record_line sha maxBytes) snapshots)"
    and "lf_step\<^sup>*\<^sup>* (newFileLife capacity (map (record_line sha maxBytes) snapshots)) s"
  shows "(\<exists>k \<le> length (jl_enqueued (lf_log s)).
      parseJSONLSnapshot decode (jl_sink (lf_log s)) =
        (Inr (map (object_of decode) (take k (jl_enqueued (lf_log s)))),
         jl_sink (lf_log s) = concat (take k (jl_enqueued (lf_log s))))) \<and>
    (lf_close s = CloseReturned [] \<longrightarrow>
      parseJSONLSnapshot decode (jl_sink (lf_log s)) = (Inr (map (object_of decode) (jl_enqueued (lf_log s))), True))"
proof -
  let ?q = "jl_enqueued (lf_log s)"
  have sub: "set ?q \<subseteq> set (map (record_line sha maxBytes) snapshots)" by (rule enqueued_lines [OF assms(5)])
  have lines: "list_all is_line ?q"
    using sub record_line_is_line [OF assms(1) _ assms(3)] assms(2) by (auto simp: list_all_iff)
  have "decodes_events decode ?q" using sub assms(4) unfolding decodes_events_def by blast
  note parse = parse_prefix [OF lines decodes_objects [OF this]]
  obtain k where k: "k \<le> length ?q" "parseJSONLSnapshot decode (jl_sink (lf_log s)) =
      (Inr (take k (map (object_of decode) ?q)), jl_sink (lf_log s) = concat (take k ?q))"
    using parse [OF lf_sink_prefix(1) [OF assms(5)]] by blast
  have "parseJSONLSnapshot decode (concat ?q) = (Inr (map (object_of decode) ?q), True)"
    using split_lines [OF lines, of "[]"] parseRecords_lines [OF decodes_objects lines] \<open>decodes_events decode ?q\<close>
      last_concat_lines [OF lines]
    by (cases "?q = []") (auto simp: parseJSONLSnapshot_def)
  then show ?thesis using k lf_sink_prefix(2) [OF assms(5)] by (auto simp: take_map)
qed

text \<open>When the wait for a quiescent file returns records, two of its rounds at least the quiet time apart saw the same
  complete snapshot with exactly the expected number of records, and no round between them saw another
  one; and the wait returns as soon as the clock reaches its deadline.\<close>

theorem WaitForQuiescentJSONL_sound:
  "(WaitForQuiescentJSONL decode expected quietFor obs = Some (Inr records) \<longrightarrow> quiescent decode expected quietFor obs records) \<and>
   (ob_late (obs i) \<longrightarrow> WaitForQuiescentJSONL decode expected quietFor obs \<noteq> None)"
proof (intro conjI impI)
  have "candidate decode expected obs 0 quiescence_start" by (simp add: candidate_def quiescence_start_def)
  then show "WaitForQuiescentJSONL decode expected quietFor obs = Some (Inr records) \<Longrightarrow> quiescent decode expected quietFor obs records"
    using waitFrom_sound unfolding WaitForQuiescentJSONL_def by blast
  show "ob_late (obs i) \<Longrightarrow> WaitForQuiescentJSONL decode expected quietFor obs \<noteq> None"
    using waitFrom_returns [of obs 0 i] unfolding WaitForQuiescentJSONL_def by fastforce
qed

section \<open>Witnesses\<close>

definition sample_decode :: "string \<Rightarrow> decoded" where
  "sample_decode line = Decoded (JObject [(''line'', JString line)]) NoTrailing"

text \<open>A file that gets its one line in the second round and then rests; the deadline is in the fourth.\<close>

definition sample_obs :: "nat \<Rightarrow> observation" where
  "sample_obs i = \<lparr>ob_read = (if i = 0 then FileMissing else FileData (''a'' @ [newline])), ob_stamp = 10 * int i, ob_late = (3 \<le> i)\<rparr>"

lemma sample_wait: "WaitForQuiescentJSONL sample_decode 1 10 sample_obs = Some (Inr [[(''line'', JString ''a'')]])"
proof -
  let ?q = "\<lparr>qs_stable = ''a'' @ [newline], qs_since = 10, qs_observed = True, qs_state = ''valid records not yet quiescent''\<rparr>"
  note run = observe_def examine_def parseJSONLSnapshot_def sample_obs_def sample_decode_def quiescence_start_def
  have r0: "observe sample_decode 1 10 (sample_obs 0) quiescence_start = Inr quiescence_start" by (simp add: run)
  have r1: "observe sample_decode 1 10 (sample_obs 1) quiescence_start = Inr ?q" by (simp add: run)
  have r2: "observe sample_decode 1 10 (sample_obs 2) ?q = Inl (Inr [[(''line'', JString ''a'')]])" by (simp add: run)
  show ?thesis unfolding WaitForQuiescentJSONL_def
    by (subst waitFrom.simps, simp only: r0 sum.case, subst waitFrom.simps, simp only: r1 One_nat_def [symmetric] sum.case,
        subst waitFrom.simps, simp only: Suc_1 r2 sum.case)
qed

theorem WaitForQuiescentJSONL_sound_witness:
  "quiescent sample_decode 1 10 sample_obs [[(''line'', JString ''a'')]]"
  using WaitForQuiescentJSONL_sound [of sample_decode 1 10 sample_obs "[[(''line'', JString ''a'')]]" 0] sample_wait by blast

definition sample_event :: eventSnapshot where
  "sample_event = \<lparr>es_event = huge_event, es_extra = None\<rparr>"

theorem logger_file_readable_witness:
  "parseJSONLSnapshot sample_decode (jl_sink (lf_log (closed_life (record_line (\<lambda>_. replicate 64 (CHR ''0'')) 512 sample_event)))) =
     (Inr [object_of sample_decode (record_line (\<lambda>_. replicate 64 (CHR ''0'')) 512 sample_event)], True)"
proof -
  let ?sha = "\<lambda>_ :: string. replicate 64 (CHR ''0'')"
  let ?line = "record_line ?sha 512 sample_event"
  have h: "sha_ok ?sha" "list_all snapshot_valid [sample_event]" "minimumRecordBytes \<le> 512"
      "decodes_events sample_decode (map (record_line ?sha 512) [sample_event])"
    by (simp_all add: sha_ok_def snapshot_valid_def sample_event_def event_widths_def snapshot_ok_def minimumRecordBytes_def huge_event_def
        decodes_events_def sample_decode_def)
  have run: "lf_step\<^sup>*\<^sup>* (newFileLife 1 (map (record_line ?sha 512) [sample_event])) (closed_life ?line)" using closed_run by simp
  have "lf_close (closed_life ?line) = CloseReturned []" "jl_enqueued (lf_log (closed_life ?line)) = [?line]"
    by (simp_all add: closed_life_def logged_state_def)
  with logger_file_readable [OF h run] show ?thesis by simp
qed

end
