(* ===== verification/Telemetry_Otel.thy ===== *)
theory Telemetry_Otel
  imports Telemetry_Record Transition_Systems
begin

text \<open>
  The OpenTelemetry mirror (\<^verbatim>\<open>src/internal/telemetry/otel.go\<close>): the span of an event, the token layer that
  bounds spans not yet adjudicated, the accounting of exports and the shutdown. The SDK's batch
  processor is what its documentation says: it queues ended spans, drops one when its queue is
  full, and exports them once, in batches; the deadline of the shutdown may pass at any moment.
\<close>

section \<open>Spans\<close>

datatype attribute = AString string | AInt int | ABool bool

record span =
  sp_name :: string
  sp_status :: "string option"
  sp_attributes :: "(string \<times> attribute) list"

text \<open>\<^verbatim>\<open>toString\<close>; \<^verbatim>\<open>fmt.Sprintf("%v")\<close> of a value that is no string is a parameter.\<close>

definition otel_toString :: "(json \<Rightarrow> string) \<Rightarrow> json \<Rightarrow> string" where
  "otel_toString sprint v = (case v of JString s \<Rightarrow> s | _ \<Rightarrow> sprint v)"

definition extraAttribute :: "(json \<Rightarrow> string) \<Rightarrow> string \<times> (string + json) \<Rightarrow> string \<times> attribute" where
  "extraAttribute sprint entry =
     (case entry of (key, e) \<Rightarrow> (''extra.'' @ key, AString (case e of
        Inl failure \<Rightarrow> ''snapshot_error: '' @ failure
      | Inr v \<Rightarrow> otel_toString sprint v)))"

definition eventSpan :: "(json \<Rightarrow> string) \<Rightarrow> eventSnapshot \<Rightarrow> span" where
  "eventSpan sprint snapshot =
     (let ev = es_event snapshot;
          name = (if ev_Tool ev = [] then ''unknown_tool'' else ev_Tool ev)
      in \<lparr>sp_name = name,
          sp_status = (if ev_Err ev = [] then None else Some (ev_Err ev)),
          sp_attributes =
            [(''session_id'', AString (ev_SessionID ev)), (''graph_mode'', AString (ev_GraphMode ev)), (''tool'', AString name),
             (''duration_ms'', AInt (ev_DurationMs ev)), (''result_size'', AInt (ev_ResultSize ev)),
             (''truncated'', ABool (ev_Truncated ev)), (''stale'', ABool (ev_Stale ev)),
             (''generation'', AString (itoa (uint (ev_Generation ev))))] @
            (if ev_Timestamp ev = [] then [] else [(''ts'', AString (ev_Timestamp ev))]) @
            (if ev_Err ev = [] then [] else [(''err'', AString (ev_Err ev))]) @
            (case es_extra snapshot of None \<Rightarrow> [] | Some entries \<Rightarrow> map (extraAttribute sprint) (sort_key fst entries))\<rparr>)"

section \<open>State\<close>

datatype mirror_pc = Reached | Locked | Spanning | Mirrored | Saturated | AfterClose

datatype otel_close = CloseIdle | CloseStored | CloseLocked | CloseAccounted

record otel =
  ot_capacity :: nat
  ot_batchSize :: nat
  ot_closedState :: bool
  ot_closed :: bool
  ot_abandoned :: bool
  ot_close :: otel_close
  ot_tokens :: nat
  ot_events :: "eventSnapshot list"
  ot_calls :: "mirror_pc list"
  ot_queue :: "span list"
  ot_exporting :: "span list"
  ot_accepted :: nat
  ot_exported :: nat
  ot_pending :: nat
  ot_saturationDrops :: nat
  ot_postCloseDrops :: nat
  ot_exportFailures :: nat
  ot_undelivered :: nat
  ot_shutdownTimeouts :: nat
  ot_sdkDrops :: nat
  ot_delivered :: "span list"

text \<open>\<open>ot_sdkDrops\<close> counts spans that the SDK's own queue would drop; \<open>ot_delivered\<close> is what the exporter took.\<close>

definition newOTELLogger :: "nat \<Rightarrow> nat \<Rightarrow> eventSnapshot list \<Rightarrow> otel" where
  "newOTELLogger queueCapacity batchSize events =
     (let capacity = (if queueCapacity = 0 then 2048 else queueCapacity) in
      \<lparr>ot_capacity = capacity,
       ot_batchSize = (if batchSize = 0 \<or> capacity < batchSize then min 512 capacity else batchSize),
       ot_closedState = False, ot_closed = False, ot_abandoned = False, ot_close = CloseIdle, ot_tokens = 0,
       ot_events = events, ot_calls = map (\<lambda>_. Reached) events, ot_queue = [], ot_exporting = [],
       ot_accepted = 0, ot_exported = 0, ot_pending = 0, ot_saturationDrops = 0, ot_postCloseDrops = 0, ot_exportFailures = 0,
       ot_undelivered = 0, ot_shutdownTimeouts = 0, ot_sdkDrops = 0, ot_delivered = []\<rparr>)"

section \<open>Operations\<close>

definition move_call :: "nat \<Rightarrow> mirror_pc \<Rightarrow> otel \<Rightarrow> otel" where
  "move_call k pc s = s\<lparr>ot_calls := (ot_calls s)[k := pc]\<rparr>"

definition dropAfterClose :: "nat \<Rightarrow> otel \<Rightarrow> otel" where
  "dropAfterClose k s = move_call k AfterClose (s\<lparr>ot_postCloseDrops := ot_postCloseDrops s + 1\<rparr>)"

text \<open>The non-blocking send on \<^verbatim>\<open>tokens\<close> under the read lock.\<close>

definition takeToken :: "nat \<Rightarrow> otel \<Rightarrow> otel" where
  "takeToken k s =
     (if ot_tokens s < ot_capacity s
      then move_call k Spanning (s\<lparr>ot_tokens := ot_tokens s + 1, ot_accepted := ot_accepted s + 1, ot_pending := ot_pending s + 1\<rparr>)
      else move_call k Saturated (s\<lparr>ot_saturationDrops := ot_saturationDrops s + 1\<rparr>))"

definition endSpan :: "span \<Rightarrow> nat \<Rightarrow> otel \<Rightarrow> otel" where
  "endSpan sp k s = move_call k Mirrored
     (if length (ot_queue s) < ot_capacity s then s\<lparr>ot_queue := ot_queue s @ [sp]\<rparr> else s\<lparr>ot_sdkDrops := ot_sdkDrops s + 1\<rparr>)"

definition releaseTokens :: "nat \<Rightarrow> otel \<Rightarrow> otel" where
  "releaseTokens count s = s\<lparr>ot_tokens := ot_tokens s - count\<rparr>"

definition finishExport :: "nat \<Rightarrow> bool \<Rightarrow> otel \<Rightarrow> otel" where
  "finishExport count exportErr s =
     releaseTokens count
       (if ot_abandoned s then s
        else if exportErr
        then s\<lparr>ot_exportFailures := ot_exportFailures s + 1, ot_undelivered := ot_undelivered s + count, ot_pending := ot_pending s - count\<rparr>
        else s\<lparr>ot_exported := ot_exported s + count, ot_pending := ot_pending s - count\<rparr>)"

definition exportSpans :: "bool \<Rightarrow> otel \<Rightarrow> otel" where
  "exportSpans exportErr s =
     (let batch = ot_exporting s in
      (finishExport (length batch) exportErr s)
        \<lparr>ot_exporting := [], ot_delivered := ot_delivered s @ (if exportErr then [] else batch)\<rparr>)"

text \<open>The accounting of \<^verbatim>\<open>closeBy\<close> after the flush and the shutdown of the processor.\<close>

definition accountClose :: "bool \<Rightarrow> otel \<Rightarrow> otel" where
  "accountClose late s =
     (let s1 = (if 0 < ot_pending s
        then s\<lparr>ot_abandoned := True, ot_undelivered := ot_undelivered s + ot_pending s, ot_pending := 0\<rparr> else s)
      in s1\<lparr>ot_close := CloseAccounted, ot_shutdownTimeouts := ot_shutdownTimeouts s1 + (if late then 1 else 0)\<rparr>)"

definition lostSpans :: "otel \<Rightarrow> nat" where
  "lostSpans s = ot_saturationDrops s + ot_postCloseDrops s + ot_undelivered s"

definition has_lock :: "mirror_pc \<Rightarrow> bool" where
  "has_lock pc \<longleftrightarrow> pc = Locked \<or> pc = Spanning"

section \<open>Steps\<close>

abbreviation (input) "mirror_at s k pc \<equiv> k < length (ot_calls s) \<and> ot_calls s ! k = pc"

inductive ot_step :: "(json \<Rightarrow> string) \<Rightarrow> otel \<Rightarrow> otel \<Rightarrow> bool" for sprint :: "json \<Rightarrow> string" where
  log_closed: "mirror_at s k Reached \<Longrightarrow> ot_closedState s \<Longrightarrow> ot_step sprint s (dropAfterClose k s)"
| lock_closed: "mirror_at s k Reached \<Longrightarrow> ot_closed s \<Longrightarrow> ot_step sprint s (dropAfterClose k s)"
| lock: "mirror_at s k Reached \<Longrightarrow> \<not> ot_closed s \<Longrightarrow> ot_step sprint s (move_call k Locked s)"
| token: "mirror_at s k Locked \<Longrightarrow> ot_step sprint s (takeToken k s)"
| end_span: "mirror_at s k Spanning \<Longrightarrow> ot_step sprint s (endSpan (eventSpan sprint (ot_events s ! k)) k s)"
| export_begin: "ot_exporting s = [] \<Longrightarrow> ot_queue s = batch @ rest \<Longrightarrow> batch \<noteq> [] \<Longrightarrow> length batch \<le> ot_batchSize s \<Longrightarrow>
    ot_step sprint s (s\<lparr>ot_exporting := batch, ot_queue := rest\<rparr>)"
| export_end: "ot_exporting s \<noteq> [] \<Longrightarrow> ot_step sprint s (exportSpans exportErr s)"
| close_store: "ot_close s = CloseIdle \<Longrightarrow> ot_step sprint s (s\<lparr>ot_closedState := True, ot_close := CloseStored\<rparr>)"
| close_lock: "ot_close s = CloseStored \<Longrightarrow> (\<forall>pc \<in> set (ot_calls s). \<not> has_lock pc) \<Longrightarrow>
    ot_step sprint s (s\<lparr>ot_closed := True, ot_close := CloseLocked\<rparr>)"
| close_flushed: "ot_close s = CloseLocked \<Longrightarrow> ot_queue s = [] \<Longrightarrow> ot_exporting s = [] \<Longrightarrow> ot_step sprint s (accountClose late s)"
| close_late: "ot_close s = CloseLocked \<Longrightarrow> ot_step sprint s (accountClose True s)"

section \<open>The invariant\<close>

definition num_pc :: "(mirror_pc \<Rightarrow> bool) \<Rightarrow> mirror_pc list \<Rightarrow> nat" where
  "num_pc P cs = length (filter P cs)"

lemma num_pc_update:
  assumes "k < length cs" "cs ! k = a"
  shows "num_pc P (cs[k := b]) + (if P a then 1 else 0) = num_pc P cs + (if P b then 1 else 0)"
  using assms by (induction cs arbitrary: k) (auto simp: num_pc_def nth_Cons split: nat.splits)

definition taken :: "otel \<Rightarrow> nat" where
  "taken s = length (ot_queue s) + length (ot_exporting s) + num_pc (\<lambda>pc. pc = Spanning) (ot_calls s)"

definition ot_inv :: "otel \<Rightarrow> bool" where
  "ot_inv s \<longleftrightarrow> ot_tokens s = taken s \<and> ot_tokens s \<le> ot_capacity s \<and> 0 < ot_batchSize s \<and> ot_sdkDrops s = 0 \<and>
     length (ot_events s) = length (ot_calls s) \<and>
     ot_accepted s = ot_exported s + ot_undelivered s + ot_pending s \<and>
     ot_accepted s = num_pc (\<lambda>pc. pc = Spanning \<or> pc = Mirrored) (ot_calls s) \<and>
     ot_saturationDrops s = num_pc (\<lambda>pc. pc = Saturated) (ot_calls s) \<and>
     ot_postCloseDrops s = num_pc (\<lambda>pc. pc = AfterClose) (ot_calls s) \<and>
     (\<not> ot_abandoned s \<longrightarrow> ot_pending s = taken s \<and> ot_exported s = length (ot_delivered s)) \<and>
     (ot_abandoned s \<longrightarrow> ot_pending s = 0 \<and> ot_close s = CloseAccounted) \<and>
     (ot_closedState s \<longleftrightarrow> ot_close s \<noteq> CloseIdle) \<and> (ot_closed s \<longleftrightarrow> ot_close s = CloseLocked \<or> ot_close s = CloseAccounted) \<and>
     (ot_closed s \<longrightarrow> num_pc has_lock (ot_calls s) = 0) \<and> (ot_close s = CloseAccounted \<longrightarrow> ot_pending s = 0)"

lemma ot_inv_start: "ot_inv (newOTELLogger queueCapacity batchSize events)"
  by (simp add: ot_inv_def newOTELLogger_def Let_def taken_def num_pc_def)

lemma num_pc_0: "num_pc P cs = 0 \<longleftrightarrow> (\<forall>pc \<in> set cs. \<not> P pc)"
  by (simp add: num_pc_def filter_empty_conv)

lemmas call_counts = num_pc_update [where P = "\<lambda>pc. pc = Spanning"] num_pc_update [where P = "\<lambda>pc. pc = Spanning \<or> pc = Mirrored"]
  num_pc_update [where P = "\<lambda>pc. pc = Saturated"] num_pc_update [where P = "\<lambda>pc. pc = AfterClose"] num_pc_update [where P = has_lock]

lemmas otel_ops = taken_def move_call_def has_lock_def dropAfterClose_def takeToken_def endSpan_def

lemma ot_inv_dropAfterClose:
  assumes "ot_inv s" "mirror_at s k Reached"
  shows "ot_inv (dropAfterClose k s)"
  using assms call_counts [of k "ot_calls s" Reached AfterClose] by (simp add: ot_inv_def otel_ops)

lemma has_lock_open: "ot_inv s \<Longrightarrow> mirror_at s k pc \<Longrightarrow> has_lock pc \<Longrightarrow> \<not> ot_closed s"
  by (auto simp: ot_inv_def num_pc_0)

lemma ot_inv_step:
  assumes "ot_step sprint s s'" "ot_inv s"
  shows "ot_inv s'"
  using assms
proof (induction rule: ot_step.induct)
  case (lock s k)
  then show ?case using call_counts(1-4) [of k "ot_calls s" Reached Locked] by (auto simp: ot_inv_def otel_ops)
next
  case (token s k)
  then have "\<not> ot_closed s" using has_lock_open [of s k Locked] by (simp add: has_lock_def)
  then show ?case
    using token call_counts(1-4) [of k "ot_calls s" Locked Spanning] call_counts(1-4) [of k "ot_calls s" Locked Saturated]
    by (auto simp: ot_inv_def otel_ops)
next
  case (end_span s k)
  then have "\<not> ot_closed s" using has_lock_open [of s k Spanning] by (simp add: has_lock_def)
  moreover have "length (ot_queue s) < ot_capacity s"
    using end_span call_counts(1) [of k "ot_calls s" Spanning Mirrored] by (auto simp: ot_inv_def taken_def)
  ultimately show ?case
    using end_span call_counts(1-4) [of k "ot_calls s" Spanning Mirrored] by (auto simp: ot_inv_def otel_ops)
next
  case (export_begin s batch rest)
  then show ?case by (auto simp: ot_inv_def taken_def)
next
  case (export_end s exportErr)
  then show ?case by (auto simp: ot_inv_def taken_def exportSpans_def finishExport_def releaseTokens_def Let_def)
next
  case (close_lock s)
  then show ?case by (auto simp: ot_inv_def taken_def num_pc_0)
next
  case (close_flushed s late)
  then show ?case by (auto simp: ot_inv_def taken_def accountClose_def Let_def)
next
  case (close_late s)
  then show ?case by (auto simp: ot_inv_def taken_def accountClose_def Let_def)
next
  case (close_store s)
  then show ?case by (auto simp: ot_inv_def taken_def)
qed (simp_all add: ot_inv_dropAfterClose)

section \<open>Progress\<close>

fun pc_size :: "mirror_pc \<Rightarrow> nat" where
  "pc_size Reached = 5" | "pc_size Locked = 4" | "pc_size Spanning = 3"
| "pc_size Mirrored = 0" | "pc_size Saturated = 0" | "pc_size AfterClose = 0"

definition ot_size :: "otel \<Rightarrow> nat" where
  "ot_size s = (\<Sum>pc \<leftarrow> ot_calls s. pc_size pc) + 2 * length (ot_queue s) + length (ot_exporting s) +
     (case ot_close s of CloseIdle \<Rightarrow> 3 | CloseStored \<Rightarrow> 2 | CloseLocked \<Rightarrow> 1 | CloseAccounted \<Rightarrow> 0)"

definition mirror_finished :: "otel \<Rightarrow> bool" where
  "mirror_finished s \<longleftrightarrow> (\<forall>pc \<in> set (ot_calls s). pc_size pc = 0) \<and> ot_queue s = [] \<and> ot_exporting s = [] \<and> ot_close s = CloseAccounted"

lemma pcs_update:
  assumes "k < length cs" "cs ! k = a"
  shows "(\<Sum>pc \<leftarrow> cs[k := b]. pc_size pc) + pc_size a = (\<Sum>pc \<leftarrow> cs. pc_size pc) + pc_size b"
  using assms by (induction cs arbitrary: k) (auto simp: nth_Cons split: nat.splits)

lemma ot_step_decreases: "ot_step sprint s s' \<Longrightarrow> ot_size s' < ot_size s"
proof (induction rule: ot_step.induct)
  case (token s k)
  then show ?case using pcs_update [of k "ot_calls s" Locked Spanning] pcs_update [of k "ot_calls s" Locked Saturated]
    by (auto simp: ot_size_def otel_ops)
next
  case (end_span s k)
  then show ?case using pcs_update [of k "ot_calls s" Spanning Mirrored] by (auto simp: ot_size_def otel_ops)
next
  case (lock s k)
  then show ?case using pcs_update [of k "ot_calls s" Reached Locked] by (auto simp: ot_size_def otel_ops)
next
  case (log_closed s k)
  then show ?case using pcs_update [of k "ot_calls s" Reached AfterClose] by (auto simp: ot_size_def otel_ops)
next
  case (lock_closed s k)
  then show ?case using pcs_update [of k "ot_calls s" Reached AfterClose] by (auto simp: ot_size_def otel_ops)
qed (auto simp: ot_size_def exportSpans_def finishExport_def releaseTokens_def accountClose_def Let_def)

lemma unfinished_call_moves:
  assumes "k < length (ot_calls s)" "pc_size (ot_calls s ! k) \<noteq> 0"
  shows "\<exists>s'. ot_step sprint s s'"
  using assms by (cases "ot_calls s ! k"; cases "ot_closed s") (auto intro: ot_step.intros)

lemma ot_progress:
  assumes inv: "ot_inv s" and todo: "\<not> mirror_finished s"
  shows "\<exists>s'. ot_step sprint s s'"
proof (cases "\<forall>pc \<in> set (ot_calls s). pc_size pc = 0")
  case False
  then show ?thesis using unfinished_call_moves by (auto simp: in_set_conv_nth)
next
  case True
  then have free: "\<forall>pc \<in> set (ot_calls s). \<not> has_lock pc" by (auto simp: has_lock_def)
  show ?thesis
  proof (cases "ot_exporting s = []")
    case e: True
    show ?thesis
    proof (cases "ot_queue s")
      case Nil
      then show ?thesis using True todo free e
        by (cases "ot_close s") (auto simp: mirror_finished_def intro: ot_step.intros)
    next
      case (Cons sp rest)
      then show ?thesis using inv ot_step.export_begin [OF e, of "[sp]" rest] by (auto simp: ot_inv_def)
    qed
  qed (blast intro: ot_step.export_end)
qed

interpretation otel_mirror: finishing_system "\<lambda>s. s = newOTELLogger queueCapacity batchSize events" "ot_step sprint" ot_inv mirror_finished ot_size
  for queueCapacity batchSize :: nat and events :: "eventSnapshot list" and sprint :: "json \<Rightarrow> string"
  by unfold_locales (auto intro: ot_inv_start ot_inv_step ot_progress ot_step_decreases)

section \<open>Properties\<close>

text \<open>C28: the mirror accounts for every span exactly once and never loses one silently: the tokens bound all spans in
  flight, so the queue of the SDK never overflows; accepted spans are exported, undelivered or
  pending; when all calls have returned every event was accepted or dropped for one counted
  reason, and with nothing pending the loss that \<^verbatim>\<open>Close\<close> reports is exactly what was not exported.
  Every run ends with all calls returned and \<^verbatim>\<open>Close\<close> done.\<close>

theorem otel_accounting:
  assumes "(ot_step sprint)\<^sup>*\<^sup>* (newOTELLogger queueCapacity batchSize events) s"
  shows "ot_sdkDrops s = 0 \<and> length (ot_queue s) + length (ot_exporting s) \<le> ot_capacity s \<and>
    ot_accepted s = ot_exported s + ot_undelivered s + ot_pending s \<and>
    ((\<forall>pc \<in> set (ot_calls s). pc_size pc = 0) \<longrightarrow>
      length (ot_calls s) = ot_accepted s + ot_saturationDrops s + ot_postCloseDrops s \<and>
      (ot_pending s = 0 \<longrightarrow> length (ot_calls s) = ot_exported s + lostSpans s)) \<and>
    (ot_close s = CloseAccounted \<longrightarrow> ot_pending s = 0) \<and>
    (\<exists>s'. (ot_step sprint)\<^sup>*\<^sup>* s s' \<and> mirror_finished s') \<and> \<not> (\<exists>f. f 0 = s \<and> (\<forall>i. ot_step sprint (f i) (f (Suc i))))"
proof -
  have inv: "ot_inv s" by (rule otel_mirror.inv_reachable [OF refl assms])
  have "length cs = num_pc (\<lambda>pc. pc = Spanning \<or> pc = Mirrored) cs + num_pc (\<lambda>pc. pc = Saturated) cs + num_pc (\<lambda>pc. pc = AfterClose) cs"
    if "\<forall>pc \<in> set cs. pc_size pc = 0" for cs
    using that
  proof (induction cs)
    case (Cons pc cs)
    then show ?case by (cases pc) (auto simp: num_pc_def)
  qed (simp add: num_pc_def)
  then have "(\<forall>pc \<in> set (ot_calls s). pc_size pc = 0) \<longrightarrow>
      length (ot_calls s) = ot_accepted s + ot_saturationDrops s + ot_postCloseDrops s" using inv by (simp add: ot_inv_def)
  then show ?thesis using inv otel_mirror.finishes [OF inv] otel_mirror.no_infinite_run [of _ sprint]
    unfolding ot_inv_def taken_def lostSpans_def by auto
qed

section \<open>Witnesses\<close>

definition sample_snapshot :: eventSnapshot where
  "sample_snapshot = \<lparr>es_event = \<lparr>ev_SessionID = ''s'', ev_GraphMode = ''graph'', ev_Tool = ''get_outline'', ev_DurationMs = 3,
     ev_ResultSize = 1, ev_Truncated = False, ev_Stale = False, ev_Generation = 7, ev_Err = [], ev_Timestamp = ''t'', ev_Extra = None\<rparr>,
     es_extra = None\<rparr>"

theorem otel_accounting_witness:
  "\<exists>s. (ot_step json_text)\<^sup>*\<^sup>* (newOTELLogger 1 1 [sample_snapshot, sample_snapshot]) s \<and> mirror_finished s"
  using otel_accounting [OF rtranclp.rtrancl_refl] by blast

end
