(* ===== verification/Otel_Shutdown.thy ===== *)
theory Otel_Shutdown
  imports Telemetry_Otel "HOL-Library.Multiset"
begin

text \<open>
  The options of the OpenTelemetry mirror and its \<^verbatim>\<open>Close\<close> (\<^verbatim>\<open>src/internal/telemetry/otel.go\<close>): the latched errors of
  the exporter, the flush and the shutdown of the SDK's processor under one deadline, and the error that is
  joined from all of them. The processor does what the SDK documents: a flush without error has exported
  every queued span, and a shutdown without error has shut the exporter down without error.
\<close>

section \<open>Options\<close>

text \<open>Durations are nanoseconds.\<close>

record otelOptions =
  oo_queueCapacity :: int
  oo_batchSize :: int
  oo_batchTimeout :: int
  oo_exportTimeout :: int
  oo_shutdownTimeout :: int
  oo_diagnosticCapacity :: int

definition otel_seconds :: "int \<Rightarrow> int" where
  "otel_seconds n = n * 1000000000"

text \<open>The shutdown timeout and the capacity of the diagnostics are the package's defaults.\<close>

definition defaultOTELOptions :: "int \<Rightarrow> int \<Rightarrow> otelOptions" where
  "defaultOTELOptions defaultTelemetryCloseTimeout defaultDiagnosticCapacity =
     \<lparr>oo_queueCapacity = 2048, oo_batchSize = 512, oo_batchTimeout = otel_seconds 5, oo_exportTimeout = otel_seconds 1,
      oo_shutdownTimeout = defaultTelemetryCloseTimeout, oo_diagnosticCapacity = defaultDiagnosticCapacity\<rparr>"

definition orDefault :: "int \<Rightarrow> int \<Rightarrow> int" where
  "orDefault v fallback = (if v \<le> 0 then fallback else v)"

definition effectiveOTELOptions :: "otelOptions \<Rightarrow> otelOptions \<Rightarrow> otelOptions" where
  "effectiveOTELOptions defaults opts =
     (let queueCapacity = orDefault (oo_queueCapacity opts) (oo_queueCapacity defaults) in
      \<lparr>oo_queueCapacity = queueCapacity,
       oo_batchSize = (if oo_batchSize opts \<le> 0 \<or> queueCapacity < oo_batchSize opts
         then min (oo_batchSize defaults) queueCapacity else oo_batchSize opts),
       oo_batchTimeout = orDefault (oo_batchTimeout opts) (oo_batchTimeout defaults),
       oo_exportTimeout = orDefault (oo_exportTimeout opts) (oo_exportTimeout defaults),
       oo_shutdownTimeout = orDefault (oo_shutdownTimeout opts) (oo_shutdownTimeout defaults),
       oo_diagnosticCapacity = orDefault (oo_diagnosticCapacity opts) (oo_diagnosticCapacity defaults)\<rparr>)"

lemma effectiveOTELOptions_sane:
  assumes "0 < close" "0 < diagnostic"
  shows "let o1 = effectiveOTELOptions (defaultOTELOptions close diagnostic) opts in
    0 < oo_queueCapacity o1 \<and> 0 < oo_batchSize o1 \<and> oo_batchSize o1 \<le> oo_queueCapacity o1 \<and>
    0 < oo_batchTimeout o1 \<and> 0 < oo_exportTimeout o1 \<and> 0 < oo_shutdownTimeout o1 \<and> 0 < oo_diagnosticCapacity o1"
  using assms by (auto simp: effectiveOTELOptions_def defaultOTELOptions_def orDefault_def otel_seconds_def Let_def)

section \<open>State\<close>

datatype sdk_error = DeadlineExceeded | SdkError string

datatype mirror_close = MirrorClosing | MirrorReturned "string list"

text \<open>\<open>ml_down\<close>: the exporter's own shutdown has returned.\<close>

record mirror_life =
  ml_mirror :: otel
  ml_exportErr :: "string option"
  ml_shutdownErr :: "string option"
  ml_down :: bool
  ml_flushErr :: "sdk_error option"
  ml_procErr :: "sdk_error option"
  ml_close :: mirror_close

definition newMirrorLife :: "nat \<Rightarrow> nat \<Rightarrow> eventSnapshot list \<Rightarrow> mirror_life" where
  "newMirrorLife queueCapacity batchSize events =
     \<lparr>ml_mirror = newOTELLogger queueCapacity batchSize events, ml_exportErr = None, ml_shutdownErr = None, ml_down = False,
      ml_flushErr = None, ml_procErr = None, ml_close = MirrorClosing\<rparr>"

section \<open>Operations\<close>

definition latch :: "string \<Rightarrow> string option \<Rightarrow> string option \<Rightarrow> string option" where
  "latch message err latched = (case latched of Some e \<Rightarrow> Some e | None \<Rightarrow> map_option (\<lambda>e. message @ e) err)"

text \<open>\<^verbatim>\<open>ExportSpans\<close> and \<^verbatim>\<open>finishExport\<close>: the first export error is kept, unless the mirror has been abandoned.\<close>

definition exportEnds :: "string option \<Rightarrow> mirror_life \<Rightarrow> mirror_life" where
  "exportEnds err s =
     (if ot_abandoned (ml_mirror s) then s\<lparr>ml_mirror := exportSpans (err \<noteq> None) (ml_mirror s)\<rparr>
      else s\<lparr>ml_mirror := exportSpans (err \<noteq> None) (ml_mirror s), ml_exportErr := latch ''telemetry: OTEL export: '' err (ml_exportErr s)\<rparr>)"

definition exporterShutdown :: "string option \<Rightarrow> mirror_life \<Rightarrow> mirror_life" where
  "exporterShutdown err s = s\<lparr>ml_down := True, ml_shutdownErr := latch ''telemetry: OTEL exporter shutdown: '' err (ml_shutdownErr s)\<rparr>"

definition accountShutdown :: "sdk_error option \<Rightarrow> sdk_error option \<Rightarrow> bool \<Rightarrow> mirror_life \<Rightarrow> mirror_life" where
  "accountShutdown flushErr procErr after_deadline s =
     s\<lparr>ml_mirror := accountClose (flushErr = Some DeadlineExceeded \<or> procErr = Some DeadlineExceeded \<or> after_deadline) (ml_mirror s),
       ml_flushErr := flushErr, ml_procErr := procErr\<rparr>"

fun sdkText :: "sdk_error \<Rightarrow> string" where
  "sdkText DeadlineExceeded = ''context deadline exceeded''"
| "sdkText (SdkError e) = e"

definition spanLossMessage :: "otel \<Rightarrow> string" where
  "spanLossMessage m = ''telemetry: OTEL mirror lost '' @ itoa (int (lostSpans m)) @ '' spans (saturation='' @
     itoa (int (ot_saturationDrops m)) @ '' post_close='' @ itoa (int (ot_postCloseDrops m)) @ '' undelivered='' @
     itoa (int (ot_undelivered m)) @ '')''"

definition mirrorCloseError :: "string option \<Rightarrow> mirror_life \<Rightarrow> string list" where
  "mirrorCloseError diagnosticErr s =
     List.map_filter id
       [ml_exportErr s, ml_shutdownErr s, map_option sdkText (ml_flushErr s), map_option sdkText (ml_procErr s),
        if 0 < lostSpans (ml_mirror s) then Some (spanLossMessage (ml_mirror s)) else None,
        if 0 < ot_shutdownTimeouts (ml_mirror s) then Some ''telemetry: OTEL shutdown timeout'' else None,
        diagnosticErr]"

section \<open>Steps\<close>

text \<open>A step of the mirror that is neither the end of an export nor the accounting of the shutdown.\<close>

definition ordinary :: "otel \<Rightarrow> otel \<Rightarrow> bool" where
  "ordinary m m' \<longleftrightarrow> (ot_close m' = CloseAccounted \<longrightarrow> ot_close m = CloseAccounted) \<and> (ot_exporting m' = [] \<longrightarrow> ot_exporting m = [])"

inductive ml_step :: "(json \<Rightarrow> string) \<Rightarrow> mirror_life \<Rightarrow> mirror_life \<Rightarrow> bool" for sprint :: "json \<Rightarrow> string" where
  mirroring: "ot_step sprint (ml_mirror s) m \<Longrightarrow> ordinary (ml_mirror s) m \<Longrightarrow> ml_step sprint s (s\<lparr>ml_mirror := m\<rparr>)"
| exported: "ot_exporting (ml_mirror s) \<noteq> [] \<Longrightarrow> ml_step sprint s (exportEnds err s)"
| exporter_down: "ot_closed (ml_mirror s) \<Longrightarrow> \<not> ml_down s \<Longrightarrow> ml_step sprint s (exporterShutdown err s)"
| accounted: "ot_close (ml_mirror s) = CloseLocked \<Longrightarrow>
    (flushErr = None \<longrightarrow> ot_queue (ml_mirror s) = [] \<and> ot_exporting (ml_mirror s) = []) \<Longrightarrow>
    (procErr = None \<longrightarrow> ml_down s \<and> ml_shutdownErr s = None) \<Longrightarrow> ml_step sprint s (accountShutdown flushErr procErr after_deadline s)"
| returns: "ot_close (ml_mirror s) = CloseAccounted \<Longrightarrow> ml_close s = MirrorClosing \<Longrightarrow>
    ml_step sprint s (s\<lparr>ml_close := MirrorReturned (mirrorCloseError diagnosticErr s)\<rparr>)"

section \<open>The spans of the calls that were admitted\<close>

definition mirrored :: "(json \<Rightarrow> string) \<Rightarrow> mirror_pc list \<Rightarrow> eventSnapshot list \<Rightarrow> span multiset" where
  "mirrored sprint cs evs = mset (map (\<lambda>p. eventSpan sprint (snd p)) (filter (\<lambda>p. fst p = Mirrored) (zip cs evs)))"

lemma mirrored_update:
  assumes "k < length cs" "length evs = length cs" "cs ! k \<noteq> Mirrored"
  shows "mirrored sprint (cs[k := pc]) evs = mirrored sprint cs evs + (if pc = Mirrored then {#eventSpan sprint (evs ! k)#} else {#})"
  using assms
proof (induction cs arbitrary: k evs)
  case (Cons c cs)
  then obtain e evs' where evs: "evs = e # evs'" by (cases evs) auto
  then show ?case using Cons by (cases k) (auto simp: mirrored_def)
qed simp

definition spans_inv :: "(json \<Rightarrow> string) \<Rightarrow> otel \<Rightarrow> bool" where
  "spans_inv sprint m \<longleftrightarrow> (ot_abandoned m \<longrightarrow> 0 < ot_undelivered m) \<and> (ot_undelivered m = 0 \<longrightarrow>
     mset (ot_queue m) + mset (ot_exporting m) + mset (ot_delivered m) = mirrored sprint (ot_calls m) (ot_events m))"

lemma spans_inv_step:
  assumes "ot_step sprint m m'" "ot_inv m" "spans_inv sprint m"
  shows "spans_inv sprint m'"
  using assms
proof (induction rule: ot_step.induct)
  case (end_span s k)
  have "length (ot_queue s) < ot_capacity s"
    using end_span call_counts(1) [of k "ot_calls s" Spanning Mirrored] by (auto simp: ot_inv_def taken_def)
  then show ?case using end_span mirrored_update [of k "ot_calls s" "ot_events s" sprint Mirrored]
    by (auto simp: spans_inv_def ot_inv_def endSpan_def move_call_def)
next
  case (token s k)
  then show ?case using mirrored_update [of k "ot_calls s" "ot_events s" sprint]
    by (auto simp: spans_inv_def ot_inv_def takeToken_def move_call_def)
next
  case (export_end s exportErr)
  then show ?case
    by (auto simp: spans_inv_def exportSpans_def finishExport_def releaseTokens_def Let_def ac_simps)
next
  case (log_closed s k)
  then show ?case using mirrored_update [of k "ot_calls s" "ot_events s" sprint]
    by (auto simp: spans_inv_def ot_inv_def dropAfterClose_def move_call_def)
next
  case (lock_closed s k)
  then show ?case using mirrored_update [of k "ot_calls s" "ot_events s" sprint]
    by (auto simp: spans_inv_def ot_inv_def dropAfterClose_def move_call_def)
next
  case (lock s k)
  then show ?case using mirrored_update [of k "ot_calls s" "ot_events s" sprint]
    by (auto simp: spans_inv_def ot_inv_def move_call_def)
next
  case (export_begin s batch rest)
  then show ?case by (auto simp: spans_inv_def ac_simps)
next
  case (close_flushed s late)
  then show ?case by (auto simp: spans_inv_def accountClose_def Let_def)
next
  case (close_late s)
  then show ?case by (auto simp: spans_inv_def accountClose_def Let_def)
qed (auto simp: spans_inv_def)

section \<open>The invariant\<close>

text \<open>Nothing has been lost, and nothing can be lost any more.\<close>

definition intact :: "mirror_life \<Rightarrow> bool" where
  "intact s \<longleftrightarrow> ot_close (ml_mirror s) = CloseAccounted \<and> ot_undelivered (ml_mirror s) = 0 \<and> ot_saturationDrops (ml_mirror s) = 0 \<and>
     ml_exportErr s = None \<and> ml_down s \<and> ml_shutdownErr s = None \<and> ot_shutdownTimeouts (ml_mirror s) = 0"

definition ml_inv :: "(json \<Rightarrow> string) \<Rightarrow> mirror_life \<Rightarrow> bool" where
  "ml_inv sprint s \<longleftrightarrow> ot_inv (ml_mirror s) \<and> spans_inv sprint (ml_mirror s) \<and>
     (ot_close (ml_mirror s) = CloseAccounted \<and> ml_procErr s = None \<longrightarrow> ml_down s \<and> ml_shutdownErr s = None) \<and>
     (ml_close s \<noteq> MirrorClosing \<longrightarrow> ot_close (ml_mirror s) = CloseAccounted) \<and>
     (ml_close s = MirrorReturned [] \<longrightarrow> intact s)"

lemma ml_inv_start: "ml_inv sprint (newMirrorLife queueCapacity batchSize events)"
  using ot_inv_start [of queueCapacity batchSize events]
  by (auto simp: ml_inv_def newMirrorLife_def newOTELLogger_def spans_inv_def mirrored_def Let_def zip_map1 filter_empty_conv)

lemma intact_idle:
  assumes "ot_inv m" "spans_inv sprint m" "ot_close m = CloseAccounted" "ot_undelivered m = 0"
  shows "ot_queue m = [] \<and> ot_exporting m = [] \<and> num_pc (\<lambda>pc. pc = Spanning) (ot_calls m) = 0 \<and> num_pc has_lock (ot_calls m) = 0 \<and> \<not> ot_abandoned m"
proof -
  have open_end: "\<not> ot_abandoned m" using assms(2,4) by (auto simp: spans_inv_def)
  then have "taken m = 0" "ot_closed m" using assms(1,3) by (auto simp: ot_inv_def)
  then show ?thesis using assms(1) open_end by (auto simp: taken_def ot_inv_def)
qed

text \<open>After the accounting the counters of lost admitted spans change only when an abandoned export ends.\<close>

lemma ot_step_accounted:
  assumes "ot_step sprint m m'" "ot_inv m" "ot_close m = CloseAccounted"
  shows "ot_close m' = CloseAccounted \<and> ot_saturationDrops m' = ot_saturationDrops m \<and> ot_shutdownTimeouts m' = ot_shutdownTimeouts m \<and>
    (ot_exporting m = [] \<longrightarrow> ot_undelivered m' = ot_undelivered m)"
  using assms
proof (induction rule: ot_step.induct)
  case (token s k)
  then have "ot_closed s" by (auto simp: ot_inv_def)
  then show ?case using has_lock_open [of s k Locked] token by (simp add: has_lock_def)
qed (auto simp: dropAfterClose_def move_call_def endSpan_def exportSpans_def finishExport_def releaseTokens_def Let_def)

lemma account_inv:
  assumes "ot_inv m" "spans_inv sprint m" "ot_close m = CloseLocked"
  shows "ot_inv (accountClose late m)" "spans_inv sprint (accountClose late m)"
  using assms by (auto simp: ot_inv_def taken_def spans_inv_def accountClose_def Let_def)

lemma exportEnds_mirror [simp]: "ml_mirror (exportEnds err s) = exportSpans (err \<noteq> None) (ml_mirror s)"
  "ml_down (exportEnds err s) = ml_down s" "ml_shutdownErr (exportEnds err s) = ml_shutdownErr s"
  "ml_procErr (exportEnds err s) = ml_procErr s" "ml_close (exportEnds err s) = ml_close s"
  by (simp_all add: exportEnds_def)

lemma exportSpans_close [simp]: "ot_close (exportSpans e m) = ot_close m"
  by (simp add: exportSpans_def finishExport_def releaseTokens_def Let_def)

lemma closeError_intact:
  assumes "ml_inv sprint s" "ot_close (ml_mirror s) = CloseAccounted" "mirrorCloseError d s = []"
  shows "intact s"
proof -
  have "ml_exportErr s = None" "ml_procErr s = None" "lostSpans (ml_mirror s) = 0" "ot_shutdownTimeouts (ml_mirror s) = 0"
    using assms(3) by (auto simp: mirrorCloseError_def List.map_filter_simps split: if_splits option.splits)
  then show ?thesis using assms(1,2) by (simp add: intact_def ml_inv_def lostSpans_def)
qed

lemma ml_inv_step:
  assumes step: "ml_step sprint s s'" and inv: "ml_inv sprint s"
  shows "ml_inv sprint s'"
  using step
proof cases
  case (mirroring m)
  have m: "ot_inv m" "spans_inv sprint m"
    using ot_inv_step [OF mirroring(2)] spans_inv_step [OF mirroring(2)] inv by (simp_all add: ml_inv_def)
  have "intact s'" if "intact s"
  proof -
    have acc: "ot_close (ml_mirror s) = CloseAccounted" "ot_undelivered (ml_mirror s) = 0" using that by (simp_all add: intact_def)
    have "ot_exporting (ml_mirror s) = []" using intact_idle [OF _ _ acc] inv unfolding ml_inv_def by blast
    then show ?thesis using ot_step_accounted [OF mirroring(2) _ acc(1)] that inv mirroring(1) by (auto simp: intact_def ml_inv_def)
  qed
  then show ?thesis using inv m ot_step_accounted [OF mirroring(2)] mirroring(1,3) by (auto simp: ml_inv_def ordinary_def)
next
  case (exported err)
  have m: "ot_inv (ml_mirror s')" "spans_inv sprint (ml_mirror s')"
    using ot_inv_step [OF ot_step.export_end] spans_inv_step [OF ot_step.export_end] inv exported by (simp_all add: ml_inv_def)
  have "\<not> intact s"
    using intact_idle [of "ml_mirror s" sprint] inv exported(2) by (auto simp: intact_def ml_inv_def)
  then show ?thesis using inv m exported(1) by (simp add: ml_inv_def)
next
  case (exporter_down err)
  then show ?thesis using inv by (auto simp: ml_inv_def exporterShutdown_def intact_def)
next
  case (accounted flushErr procErr after_deadline)
  have m: "ot_inv (ml_mirror s')" "spans_inv sprint (ml_mirror s')"
    using account_inv [OF _ _ accounted(2), of sprint] inv accounted(1) unfolding ml_inv_def accountShutdown_def by simp_all
  have "ml_close s = MirrorClosing" using inv accounted(2) by (auto simp: ml_inv_def)
  then show ?thesis using inv m accounted by (auto simp: ml_inv_def accountShutdown_def)
next
  case (returns d)
  then show ?thesis using inv closeError_intact [OF inv, of d] by (auto simp: ml_inv_def intact_def)
qed

section \<open>Progress\<close>

definition ml_size :: "mirror_life \<Rightarrow> nat" where
  "ml_size s = ot_size (ml_mirror s) + (if ml_down s then 0 else 1) + (if ml_close s = MirrorClosing then 1 else 0)"

definition mirror_closed :: "mirror_life \<Rightarrow> bool" where
  "mirror_closed s \<longleftrightarrow> mirror_finished (ml_mirror s) \<and> ml_down s \<and> ml_close s \<noteq> MirrorClosing"

lemma ml_step_decreases: "ml_step sprint s s' \<Longrightarrow> ml_size s' < ml_size s"
proof (induction rule: ml_step.induct)
  case (mirroring s m)
  then show ?case using ot_step_decreases by (simp add: ml_size_def)
next
  case (exported s err)
  then show ?case using ot_step_decreases [OF ot_step.export_end] by (simp add: ml_size_def)
next
  case (accounted s flushErr procErr after_deadline)
  then show ?case using ot_step_decreases [OF ot_step.close_late] by (simp add: ml_size_def accountShutdown_def ot_size_def accountClose_def Let_def)
qed (auto simp: ml_size_def exporterShutdown_def)

lemma ot_step_splits:
  assumes "ot_step sprint m m'"
  shows "ordinary m m' \<or> ot_exporting m \<noteq> [] \<or> ot_close m = CloseLocked"
  using assms
  by (cases rule: ot_step.cases) (auto simp: ordinary_def dropAfterClose_def move_call_def takeToken_def endSpan_def)

lemma ml_progress:
  assumes inv: "ml_inv sprint s" and todo: "\<not> mirror_closed s"
  shows "\<exists>s'. ml_step sprint s s'"
proof (cases "mirror_finished (ml_mirror s)")
  case True
  then have "ot_close (ml_mirror s) = CloseAccounted" "ot_closed (ml_mirror s)" using inv by (auto simp: mirror_finished_def ml_inv_def ot_inv_def)
  then show ?thesis using todo True by (auto simp: mirror_closed_def intro: ml_step.exporter_down ml_step.returns)
next
  case False
  then obtain m where m: "ot_step sprint (ml_mirror s) m" using ot_progress [of "ml_mirror s" sprint] inv by (auto simp: ml_inv_def)
  from ot_step_splits [OF m] consider "ordinary (ml_mirror s) m" | "ot_exporting (ml_mirror s) \<noteq> []" | "ot_close (ml_mirror s) = CloseLocked"
    by blast
  then show ?thesis
  proof cases
    case 3
    then show ?thesis using ml_step.accounted [of s "Some DeadlineExceeded" "Some DeadlineExceeded"] by blast
  qed (use m ml_step.mirroring ml_step.exported in blast)+
qed

interpretation mirror_life: finishing_system "\<lambda>s. s = newMirrorLife queueCapacity batchSize events" "ml_step sprint" "ml_inv sprint" mirror_closed ml_size
  for queueCapacity batchSize :: nat and events :: "eventSnapshot list" and sprint :: "json \<Rightarrow> string"
  by unfold_locales (auto intro: ml_inv_start ml_inv_step ml_progress ml_step_decreases)

text \<open>Once the lock is taken and the deadline has passed, \<^verbatim>\<open>Close\<close> returns whatever the exporter does.\<close>

lemma close_returns_late:
  assumes "ot_close (ml_mirror s) = CloseLocked" "ml_close s = MirrorClosing"
  shows "\<exists>s' errs. (ml_step sprint)\<^sup>*\<^sup>* s s' \<and> ml_close s' = MirrorReturned errs \<and> errs \<noteq> [] \<and>
    ot_exporting (ml_mirror s') = ot_exporting (ml_mirror s) \<and> ml_down s' = ml_down s"
proof -
  let ?a = "accountShutdown (Some DeadlineExceeded) (Some DeadlineExceeded) True s"
  let ?b = "?a\<lparr>ml_close := MirrorReturned (mirrorCloseError None ?a)\<rparr>"
  have "ml_step sprint s ?a" using assms(1) by (intro ml_step.accounted) auto
  moreover have "ml_step sprint ?a ?b" using assms(2) by (intro ml_step.returns) (simp_all add: accountShutdown_def accountClose_def Let_def)
  ultimately have "(ml_step sprint)\<^sup>*\<^sup>* s ?b" by simp
  moreover have "mirrorCloseError None ?a \<noteq> []"
    by (auto simp: mirrorCloseError_def accountShutdown_def accountClose_def Let_def List.map_filter_simps split: option.splits)
  ultimately show ?thesis
    by (intro exI [of _ ?b] exI [of _ "mirrorCloseError None ?a"]) (simp add: accountShutdown_def accountClose_def Let_def)
qed

section \<open>Properties\<close>


section \<open>Witnesses\<close>

text \<open>One event, exported, and a shutdown without error.\<close>

definition mirrored_state :: "(json \<Rightarrow> string) \<Rightarrow> mirror_life" where
  "mirrored_state sprint = \<lparr>ml_mirror = (newOTELLogger 1 1 [sample_snapshot])\<lparr>ot_closedState := True, ot_closed := True, ot_close := CloseAccounted,
      ot_calls := [Mirrored], ot_accepted := 1, ot_exported := 1, ot_delivered := [eventSpan sprint sample_snapshot]\<rparr>,
     ml_exportErr = None, ml_shutdownErr = None, ml_down = True, ml_flushErr = None, ml_procErr = None, ml_close = MirrorReturned []\<rparr>"

lemma mirrored_run: "(ml_step sprint)\<^sup>*\<^sup>* (newMirrorLife 1 1 [sample_snapshot]) (mirrored_state sprint)"
proof -
  let ?step = "ml_step sprint"
  let ?sp = "eventSpan sprint sample_snapshot"
  let ?a = "newMirrorLife 1 1 [sample_snapshot]"
  let ?b = "?a\<lparr>ml_mirror := move_call 0 Locked (ml_mirror ?a)\<rparr>"
  let ?c = "?b\<lparr>ml_mirror := takeToken 0 (ml_mirror ?b)\<rparr>"
  let ?d = "?c\<lparr>ml_mirror := endSpan ?sp 0 (ml_mirror ?c)\<rparr>"
  let ?e = "?d\<lparr>ml_mirror := (ml_mirror ?d)\<lparr>ot_exporting := [?sp], ot_queue := []\<rparr>\<rparr>"
  let ?f = "exportEnds None ?e"
  let ?g = "?f\<lparr>ml_mirror := (ml_mirror ?f)\<lparr>ot_closedState := True, ot_close := CloseStored\<rparr>\<rparr>"
  let ?h = "?g\<lparr>ml_mirror := (ml_mirror ?g)\<lparr>ot_closed := True, ot_close := CloseLocked\<rparr>\<rparr>"
  let ?i = "exporterShutdown None ?h"
  let ?j = "accountShutdown None None False ?i"
  let ?k = "?j\<lparr>ml_close := MirrorReturned (mirrorCloseError None ?j)\<rparr>"
  note run = newMirrorLife_def newOTELLogger_def move_call_def takeToken_def endSpan_def exportEnds_def exportSpans_def finishExport_def
    releaseTokens_def exporterShutdown_def accountShutdown_def accountClose_def latch_def ordinary_def
  have a: "?step ?a ?b" by (rule ml_step.mirroring, rule ot_step.lock) (simp_all add: run)
  have b: "?step ?b ?c" by (rule ml_step.mirroring, rule ot_step.token) (simp_all add: run)
  have c: "?step ?c ?d" using ml_step.mirroring [of sprint ?c "endSpan ?sp 0 (ml_mirror ?c)"] ot_step.end_span [of 0 "ml_mirror ?c" sprint]
    by (simp add: run)
  have d: "?step ?d ?e" by (rule ml_step.mirroring, rule ot_step.export_begin [where rest = "[]"]) (simp_all add: run)
  have e: "?step ?e ?f" by (rule ml_step.exported) (simp add: run)
  have f: "?step ?f ?g" by (rule ml_step.mirroring, rule ot_step.close_store) (simp_all add: run)
  have g: "?step ?g ?h" by (rule ml_step.mirroring, rule ot_step.close_lock) (simp_all add: run has_lock_def)
  have h: "?step ?h ?i" by (rule ml_step.exporter_down) (simp_all add: run)
  have i: "?step ?i ?j" by (rule ml_step.accounted) (simp_all add: run)
  have j: "?step ?j ?k" by (rule ml_step.returns) (simp_all add: run)
  have k: "?k = mirrored_state sprint"
    by (simp add: run mirrored_state_def mirrorCloseError_def lostSpans_def List.map_filter_simps)
  show ?thesis
    by (rule converse_rtranclp_into_rtranclp [of ?step, OF a], rule converse_rtranclp_into_rtranclp [of ?step, OF b],
        rule converse_rtranclp_into_rtranclp [of ?step, OF c], rule converse_rtranclp_into_rtranclp [of ?step, OF d],
        rule converse_rtranclp_into_rtranclp [of ?step, OF e], rule converse_rtranclp_into_rtranclp [of ?step, OF f],
        rule converse_rtranclp_into_rtranclp [of ?step, OF g], rule converse_rtranclp_into_rtranclp [of ?step, OF h],
        rule converse_rtranclp_into_rtranclp [of ?step, OF i], rule r_into_rtranclp [of ?step, OF j [unfolded k]])
qed


end
