(* ===== verification/Tools.thy ===== *)
theory Tools
  imports Tool_Render Pathnorm_Uri
begin

text \<open>
  The three tools (\<^verbatim>\<open>src/internal/tools\<close>): the call frame that stamps freshness and emits the one
  event, the resolution of a symbol name, the bounded flat outline, the three tool bodies and
  the text of an outline. A tool runs in the world of its provider; \<open>quoted\<close> is the \<^verbatim>\<open>%q\<close> of the
  messages, which depends on Unicode's table of printable characters, and \<open>duration\<close> is what
  the clock measured.
\<close>

section \<open>The call frame\<close>

definition runProviderStage :: "('s, 'a) provider_call \<Rightarrow> ('s, 'a) provider_call" where
  "runProviderStage invoke c w =
     (case invoke c w of
        (Inl e, w') \<Rightarrow> (Inl e, w')
      | (Inr result, (n, s)) \<Rightarrow>
          (case ctx_err c n of
             Some e \<Rightarrow> (Inl e, (Suc n, s))
           | None \<Rightarrow> (Inr result, (Suc n, s))))"

definition invalidFileError :: string where "invalidFileError = ''invalid file path''"
definition invalidFileMessage :: string where
  "invalidFileMessage =
     ''file must be an absolute Linux/WSL path, Windows drive path, or same-distro WSL UNC path''"

definition validateFile :: "host_env \<Rightarrow> string \<Rightarrow> (string \<times> string) + string" where
  "validateFile env input =
     (case Canonicalize env input of Inr file \<Rightarrow> Inr file | Inl _ \<Rightarrow> Inl (invalidFileError, invalidFileMessage))"

text \<open>
  \<open>runTool\<close>: the result starts as the zero value with the freshness read before the work; the
  event is logged when the work is over, with the fields of the completed result.
\<close>

definition runTool ::
  "Config \<Rightarrow> GenerationCounter \<Rightarrow> int \<Rightarrow> (Freshness \<Rightarrow> 'o \<Rightarrow> 'o) \<Rightarrow> ('o \<Rightarrow> int \<times> bool \<times> string) \<Rightarrow>
   string \<Rightarrow> 'o \<Rightarrow> ('o \<Rightarrow> 's world \<Rightarrow> 'o \<times> 's world) \<Rightarrow> 's world \<Rightarrow> ('o \<times> Event list) \<times> 's world" where
  "runTool cfg gen duration setFreshness telemetryFields tool zero execute w =
     (let fresh = Current gen;
          (out, w') = execute (setFreshness fresh zero) w;
          (resultSize, truncated, errMsg) = telemetryFields out;
          event = \<lparr>ev_SessionID = cfg_SessionID cfg, ev_GraphMode = cfg_GraphMode cfg, ev_Tool = tool,
            ev_DurationMs = duration, ev_ResultSize = resultSize, ev_Truncated = truncated,
            ev_Stale = fresh_Stale fresh, ev_Generation = fresh_Generation fresh, ev_Err = errMsg\<rparr>
      in ((out, [event]), w'))"

section \<open>Resolving a symbol name\<close>

text \<open>
  The walk keeps the first symbol with the name and the first one that is also on the line;
  its boolean says that it stopped early.
\<close>

fun resolveWalk ::
  "ctx \<Rightarrow> string \<Rightarrow> int option \<Rightarrow> nat \<Rightarrow> Symbol option \<Rightarrow> SymbolNode list \<Rightarrow>
   (string + bool \<times> Symbol option \<times> Symbol option) \<times> nat" where
  "resolveWalk c name line n first [] = (Inr (False, first, None), n)"
| "resolveWalk c name line n first (SymbolNode s cs # ns) =
     (case ctx_err c n of
        Some e \<Rightarrow> (Inl e, Suc n)
      | None \<Rightarrow>
          (let matches = (sym_Name s = name);
               first' = (if matches \<and> first = None then Some s else first)
           in if matches \<and> line = None then (Inr (True, first', None), Suc n)
              else if matches \<and> Some (Line (Start (sym_SelRange s))) = line then (Inr (True, first', Some s), Suc n)
              else (case resolveWalk c name line (Suc n) first' cs of
                 (Inl e, n1) \<Rightarrow> (Inl e, n1)
               | (Inr (True, f, m), n1) \<Rightarrow> (Inr (True, f, m), n1)
               | (Inr (False, f, m), n1) \<Rightarrow> resolveWalk c name line n1 f ns)))"

definition resolveSymbolPosition ::
  "ctx \<Rightarrow> SymbolNode list \<Rightarrow> string \<Rightarrow> int option \<Rightarrow> nat \<Rightarrow> (string + Position option) \<times> nat" where
  "resolveSymbolPosition c symbols name line n =
     (case ctx_err c n of
        Some e \<Rightarrow> (Inl e, Suc n)
      | None \<Rightarrow>
          (case resolveWalk c name line (Suc n) None symbols of
             (Inl e, n1) \<Rightarrow> (Inl e, n1)
           | (Inr (_, first, lineMatch), n1) \<Rightarrow>
               (Inr (case lineMatch of
                  Some s \<Rightarrow> Some (Start (sym_SelRange s))
                | None \<Rightarrow> map_option (\<lambda>s. Start (sym_SelRange s)) first), n1)))"

section \<open>The flat outline\<close>

record OutlineSymbol =
  os_Symbol :: Symbol
  os_Depth :: int

record flattenedSymbols =
  flat_outline :: "OutlineSymbol list"
  flat_originals :: "Symbol list"
  flat_truncated :: bool

fun flattenWalk ::
  "ctx \<Rightarrow> int \<Rightarrow> nat \<Rightarrow> int \<Rightarrow> OutlineSymbol list \<times> Symbol list \<Rightarrow> SymbolNode list \<Rightarrow>
   (string + bool \<times> OutlineSymbol list \<times> Symbol list) \<times> nat" where
  "flattenWalk c cap n depth acc [] = (Inr (False, acc), n)"
| "flattenWalk c cap n depth acc (SymbolNode s cs # ns) =
     (case ctx_err c n of
        Some e \<Rightarrow> (Inl e, Suc n)
      | None \<Rightarrow>
          if int (length (fst acc)) = cap then (Inr (True, acc), Suc n)
          else
            (case flattenWalk c cap (Suc n) (depth + 1)
                (fst acc @ [\<lparr>os_Symbol = s, os_Depth = depth\<rparr>], snd acc @ [s]) cs of
               (Inl e, n1) \<Rightarrow> (Inl e, n1)
             | (Inr (True, acc'), n1) \<Rightarrow> (Inr (True, acc'), n1)
             | (Inr (False, acc'), n1) \<Rightarrow> flattenWalk c cap n1 depth acc' ns))"

definition flattenSymbols ::
  "ctx \<Rightarrow> SymbolNode list \<Rightarrow> int \<Rightarrow> nat \<Rightarrow> (string + flattenedSymbols) \<times> nat" where
  "flattenSymbols c symbols cap n =
     (case ctx_err c n of
        Some e \<Rightarrow> (Inl e, Suc n)
      | None \<Rightarrow>
          (case flattenWalk c cap (Suc n) 0 ([], []) symbols of
             (Inl e, n1) \<Rightarrow> (Inl e, n1)
           | (Inr (truncated, outline, originals), n1) \<Rightarrow>
               (Inr \<lparr>flat_outline = outline, flat_originals = originals, flat_truncated = truncated\<rparr>, n1)))"

section \<open>The tools\<close>

record FindDefinitionOutput =
  fd_Found :: bool
  fd_Locations :: "Location list"
  fd_Truncated :: bool
  fd_Freshness :: Freshness
  fd_Message :: string
  fd_Error :: string

record FindReferencesOutput =
  fr_Found :: bool
  fr_Locations :: "Location list"
  fr_Truncated :: bool
  fr_Freshness :: Freshness
  fr_Message :: string
  fr_Error :: string

record GetOutlineOutput =
  go_Found :: bool
  go_File :: string
  go_Symbols :: "OutlineSymbol list"
  go_Truncated :: bool
  go_Freshness :: Freshness
  go_Message :: string
  go_Error :: string

abbreviation (input) no_freshness :: Freshness where
  "no_freshness \<equiv> \<lparr>fresh_Generation = 0, fresh_Stale = False\<rparr>"

definition fd_zero :: FindDefinitionOutput where
  "fd_zero = \<lparr>fd_Found = False, fd_Locations = [], fd_Truncated = False, fd_Freshness = no_freshness,
     fd_Message = [], fd_Error = []\<rparr>"

definition fr_zero :: FindReferencesOutput where
  "fr_zero = \<lparr>fr_Found = False, fr_Locations = [], fr_Truncated = False, fr_Freshness = no_freshness,
     fr_Message = [], fr_Error = []\<rparr>"

definition go_zero :: GetOutlineOutput where
  "go_zero = \<lparr>go_Found = False, go_File = [], go_Symbols = [], go_Truncated = False, go_Freshness = no_freshness,
     go_Message = [], go_Error = []\<rparr>"

definition fd_setFreshness :: "Freshness \<Rightarrow> FindDefinitionOutput \<Rightarrow> FindDefinitionOutput" where
  "fd_setFreshness fresh out = out\<lparr>fd_Freshness := fresh\<rparr>"

definition fd_telemetryFields :: "FindDefinitionOutput \<Rightarrow> int \<times> bool \<times> string" where
  "fd_telemetryFields out = (int (length (fd_Locations out)), fd_Truncated out, fd_Error out)"

definition fr_setFreshness :: "Freshness \<Rightarrow> FindReferencesOutput \<Rightarrow> FindReferencesOutput" where
  "fr_setFreshness fresh out = out\<lparr>fr_Freshness := fresh\<rparr>"

definition fr_telemetryFields :: "FindReferencesOutput \<Rightarrow> int \<times> bool \<times> string" where
  "fr_telemetryFields out = (int (length (fr_Locations out)), fr_Truncated out, fr_Error out)"

definition go_setFreshness :: "Freshness \<Rightarrow> GetOutlineOutput \<Rightarrow> GetOutlineOutput" where
  "go_setFreshness fresh out = out\<lparr>go_Freshness := fresh\<rparr>"

definition go_telemetryFields :: "GetOutlineOutput \<Rightarrow> int \<times> bool \<times> string" where
  "go_telemetryFields out = (int (length (go_Symbols out)), go_Truncated out, go_Error out)"

text \<open>The inputs of the two find tools have the same three fields.\<close>

record FindInput =
  in_File :: string
  in_Symbol :: string
  in_Line :: "int option"

definition findDefinitionBody ::
  "'s LanguageProvider \<Rightarrow> host_env \<Rightarrow> (string \<Rightarrow> string) \<Rightarrow> Config \<Rightarrow> ctx \<Rightarrow> FindInput \<Rightarrow>
   FindDefinitionOutput \<Rightarrow> 's world \<Rightarrow> FindDefinitionOutput \<times> 's world" where
  "findDefinitionBody P env quoted cfg c inp out w =
     (case validateFile env (in_File inp) of
        Inl (err, message) \<Rightarrow> (out\<lparr>fd_Error := err, fd_Message := message\<rparr>, w)
      | Inr file \<Rightarrow>
     (case runProviderStage (DocumentSymbols P file) c w of
        (Inl e, w1) \<Rightarrow> (out\<lparr>fd_Error := e, fd_Message := ''failed to load symbols for '' @ file\<rparr>, w1)
      | (Inr symbols, w1) \<Rightarrow>
     (case withPolls (resolveSymbolPosition c symbols (in_Symbol inp) (in_Line inp)) w1 of
        (Inl e, w2) \<Rightarrow> (out\<lparr>fd_Error := e,
          fd_Message := ''operation canceled while resolving symbol '' @ quoted (in_Symbol inp)\<rparr>, w2)
      | (Inr None, w2) \<Rightarrow>
          (out\<lparr>fd_Message := ''symbol '' @ quoted (in_Symbol inp) @ '' not found in '' @ file\<rparr>, w2)
      | (Inr (Some pos), w2) \<Rightarrow>
     (case runProviderStage (Definition P file pos) c w2 of
        (Inl e, w3) \<Rightarrow> (out\<lparr>fd_Error := e,
          fd_Message := ''provider error resolving definition of '' @ quoted (in_Symbol inp)\<rparr>, w3)
      | (Inr locs, w3) \<Rightarrow>
          if locs = [] then (out\<lparr>fd_Message := ''no definition found for '' @ quoted (in_Symbol inp)\<rparr>, w3)
          else if Cap cfg < int (length locs)
          then (out\<lparr>fd_Truncated := True, fd_Found := True, fd_Locations := take (nat (Cap cfg)) locs\<rparr>, w3)
          else (out\<lparr>fd_Found := True, fd_Locations := locs\<rparr>, w3)))))"

definition FindDefinition ::
  "'s LanguageProvider \<Rightarrow> host_env \<Rightarrow> (string \<Rightarrow> string) \<Rightarrow> Config \<Rightarrow> GenerationCounter \<Rightarrow> int \<Rightarrow> ctx \<Rightarrow> FindInput \<Rightarrow>
   's world \<Rightarrow> (FindDefinitionOutput \<times> Event list) \<times> 's world" where
  "FindDefinition P env quoted cfg gen duration c inp =
     runTool cfg gen duration fd_setFreshness fd_telemetryFields ''find_definition'' fd_zero
       (findDefinitionBody P env quoted cfg c inp)"

definition findReferencesBody ::
  "'s LanguageProvider \<Rightarrow> host_env \<Rightarrow> (string \<Rightarrow> string) \<Rightarrow> Config \<Rightarrow> ctx \<Rightarrow> FindInput \<Rightarrow>
   FindReferencesOutput \<Rightarrow> 's world \<Rightarrow> FindReferencesOutput \<times> 's world" where
  "findReferencesBody P env quoted cfg c inp out w =
     (case validateFile env (in_File inp) of
        Inl (err, message) \<Rightarrow> (out\<lparr>fr_Error := err, fr_Message := message\<rparr>, w)
      | Inr file \<Rightarrow>
     (case runProviderStage (DocumentSymbols P file) c w of
        (Inl e, w1) \<Rightarrow> (out\<lparr>fr_Error := e, fr_Message := ''failed to load symbols for '' @ file\<rparr>, w1)
      | (Inr symbols, w1) \<Rightarrow>
     (case withPolls (resolveSymbolPosition c symbols (in_Symbol inp) (in_Line inp)) w1 of
        (Inl e, w2) \<Rightarrow> (out\<lparr>fr_Error := e,
          fr_Message := ''operation canceled while resolving symbol '' @ quoted (in_Symbol inp)\<rparr>, w2)
      | (Inr None, w2) \<Rightarrow>
          (out\<lparr>fr_Message := ''symbol '' @ quoted (in_Symbol inp) @ '' not found in '' @ file\<rparr>, w2)
      | (Inr (Some pos), w2) \<Rightarrow>
     (case runProviderStage (References P file pos True) c w2 of
        (Inl e, w3) \<Rightarrow> (out\<lparr>fr_Error := e,
          fr_Message := ''provider error resolving references to '' @ quoted (in_Symbol inp)\<rparr>, w3)
      | (Inr locs, w3) \<Rightarrow>
          if locs = [] then (out\<lparr>fr_Message := ''no references found for '' @ quoted (in_Symbol inp)\<rparr>, w3)
          else if Cap cfg < int (length locs)
          then (out\<lparr>fr_Truncated := True, fr_Found := True, fr_Locations := take (nat (Cap cfg)) locs\<rparr>, w3)
          else (out\<lparr>fr_Found := True, fr_Locations := locs\<rparr>, w3)))))"

definition FindReferences ::
  "'s LanguageProvider \<Rightarrow> host_env \<Rightarrow> (string \<Rightarrow> string) \<Rightarrow> Config \<Rightarrow> GenerationCounter \<Rightarrow> int \<Rightarrow> ctx \<Rightarrow> FindInput \<Rightarrow>
   's world \<Rightarrow> (FindReferencesOutput \<times> Event list) \<times> 's world" where
  "FindReferences P env quoted cfg gen duration c inp =
     runTool cfg gen duration fr_setFreshness fr_telemetryFields ''find_references'' fr_zero
       (findReferencesBody P env quoted cfg c inp)"

text \<open>The loop that writes the signatures into the outline.\<close>

definition setSignatures :: "OutlineSymbol list \<Rightarrow> string list \<Rightarrow> OutlineSymbol list" where
  "setSignatures outline signatures =
     map2 (\<lambda>o1 sig. o1\<lparr>os_Symbol := (os_Symbol o1)\<lparr>sym_Signature := sig\<rparr>\<rparr>) outline signatures"

definition getOutlineBody ::
  "'s LanguageProvider \<Rightarrow> host_env \<Rightarrow> Config \<Rightarrow> ctx \<Rightarrow> string \<Rightarrow>
   GetOutlineOutput \<Rightarrow> 's world \<Rightarrow> GetOutlineOutput \<times> 's world" where
  "getOutlineBody P env cfg c input out w =
     (case validateFile env input of
        Inl (err, message) \<Rightarrow> (out\<lparr>go_Error := err, go_Message := message\<rparr>, w)
      | Inr file \<Rightarrow>
     (let out = out\<lparr>go_File := file\<rparr> in
      case runProviderStage (DocumentSymbols P file) c w of
        (Inl e, w1) \<Rightarrow> (out\<lparr>go_Error := e, go_Message := ''failed to load symbols for '' @ file\<rparr>, w1)
      | (Inr symbols, w1) \<Rightarrow>
          if symbols = [] then (out\<lparr>go_Message := ''no symbols found in '' @ file\<rparr>, w1)
          else
     (case withPolls (flattenSymbols c symbols (Cap cfg)) w1 of
        (Inl e, w2) \<Rightarrow> (out\<lparr>go_Error := e,
          go_Message := ''operation canceled while shaping outline for '' @ file\<rparr>, w2)
      | (Inr flat, w2) \<Rightarrow>
     (case runProviderStage (SymbolSignatures P file (flat_originals flat)) c w2 of
        (Inl e, w3) \<Rightarrow> (out\<lparr>go_Error := e, go_Message := ''failed to load symbol signatures for '' @ file\<rparr>, w3)
      | (Inr signatures, w3) \<Rightarrow>
          if length signatures \<noteq> length (flat_outline flat)
          then (out\<lparr>go_Error := ''provider returned '' @ itoa (int (length signatures)) @ '' signatures for '' @
                   itoa (int (length (flat_outline flat))) @ '' symbols'',
                 go_Message := ''failed to load symbol signatures for '' @ file\<rparr>, w3)
          else (out\<lparr>go_Found := True, go_Symbols := setSignatures (flat_outline flat) signatures,
                 go_Truncated := flat_truncated flat\<rparr>, w3)))))"

definition GetOutline ::
  "'s LanguageProvider \<Rightarrow> host_env \<Rightarrow> Config \<Rightarrow> GenerationCounter \<Rightarrow> int \<Rightarrow> ctx \<Rightarrow> string \<Rightarrow>
   's world \<Rightarrow> (GetOutlineOutput \<times> Event list) \<times> 's world" where
  "GetOutline P env cfg gen duration c input =
     runTool cfg gen duration go_setFreshness go_telemetryFields ''get_outline'' go_zero
       (getOutlineBody P env cfg c input)"

section \<open>The text of an outline\<close>

fun outlineLines :: "int option \<Rightarrow> OutlineSymbol list \<Rightarrow> string" where
  "outlineLines previous [] = []"
| "outlineLines previous (symbol # rest) =
     (if previous = None \<or> os_Depth symbol = 0 \<and> 0 < the previous then [newline] else []) @
     SymbolLine (os_Symbol symbol) (os_Depth symbol) @ [newline] @ outlineLines (Some (os_Depth symbol)) rest"

definition RenderOutline :: "GetOutlineOutput \<Rightarrow> string" where
  "RenderOutline out =
     (if go_Error out \<noteq> [] then render_Error (go_Message out @ '': '' @ go_Error out)
      else if \<not> go_Found out then Empty (go_Message out)
      else FileLine (go_File out) @ [newline] @ RangeConvention @ [newline] @ outlineLines None (go_Symbols out) @
        [newline] @ Footer (int (length (go_Symbols out))) ''symbol'' ''symbols'' (go_Truncated out))"

section \<open>The walks against the preorder\<close>

lemma find_append: "find P (xs @ ys) = (case find P xs of Some x \<Rightarrow> Some x | None \<Rightarrow> find P ys)"
  by (induction xs) auto

text \<open>The symbols of a forest, parents before children.\<close>

definition symbols_of :: "SymbolNode list \<Rightarrow> Symbol list" where
  "symbols_of ns = map fst (preorder 0 ns)"

lemma preorder_node_fst: "map fst (preorder_node d t) = map fst (preorder_node e t)"
proof (induction d t arbitrary: e rule: preorder_node.induct)
  case (1 d s cs)
  have "map (map fst \<circ> preorder_node (Suc d)) cs = map (map fst \<circ> preorder_node (Suc e)) cs"
  proof (rule map_cong [OF refl])
    fix t assume "t \<in> set cs"
    from 1 [OF this, of "Suc e"]
    show "(map fst \<circ> preorder_node (Suc d)) t = (map fst \<circ> preorder_node (Suc e)) t" by (simp only: comp_def)
  qed
  from arg_cong [OF this, of concat] show ?case by (simp only: preorder_node.simps map_concat list.map fst_conv map_map)
qed

lemma preorder_fst: "map fst (preorder d ns) = symbols_of ns"
proof -
  have "map (map fst \<circ> preorder_node d) ns = map (map fst \<circ> preorder_node 0) ns"
    using preorder_node_fst [of d _ 0] by (simp only: comp_def)
  from arg_cong [OF this, of concat] show ?thesis by (simp only: symbols_of_def preorder_def map_concat map_map)
qed

lemma symbols_of_simps [simp]:
  "symbols_of [] = []" "symbols_of (SymbolNode s cs # ns) = s # symbols_of cs @ symbols_of ns"
  using preorder_fst [of 1 cs] by (simp_all add: symbols_of_def)

definition line_match :: "string \<Rightarrow> int option \<Rightarrow> Symbol list \<Rightarrow> Symbol option" where
  "line_match name line ss =
     (if line = None then None
      else find (\<lambda>s. sym_Name s = name \<and> Some (Line (Start (sym_SelRange s))) = line) ss)"

definition name_match :: "string \<Rightarrow> Symbol list \<Rightarrow> Symbol option" where
  "name_match name ss = find (\<lambda>s. sym_Name s = name) ss"

lemma line_match_name: "line_match name line ss = Some s \<Longrightarrow> name_match name ss \<noteq> None"
  by (auto simp: line_match_def name_match_def find_Some_iff find_None_iff split: if_splits)
     (metis nth_mem)

lemma match_simps:
  "line_match name line (s # ss) =
     (if line \<noteq> None \<and> sym_Name s = name \<and> Some (Line (Start (sym_SelRange s))) = line then Some s
      else line_match name line ss)"
  "name_match name (s # ss) = (if sym_Name s = name then Some s else name_match name ss)"
  "line_match name line (ss @ ts) =
     (case line_match name line ss of Some x \<Rightarrow> Some x | None \<Rightarrow> line_match name line ts)"
  "name_match name (ss @ ts) = (case name_match name ss of Some x \<Rightarrow> Some x | None \<Rightarrow> name_match name ts)"
  "line_match name None ss = None"
  by (auto simp: line_match_def name_match_def find_append split: option.splits)

lemma resolveWalk_Inr:
  "resolveWalk c name line n first ns = (Inr (b, f, m), n') \<Longrightarrow>
   m = line_match name line (symbols_of ns) \<and>
   f = (case first of Some s \<Rightarrow> Some s | None \<Rightarrow> name_match name (symbols_of ns)) \<and>
   b = (line = None \<and> name_match name (symbols_of ns) \<noteq> None \<or> m \<noteq> None)"
proof (induction c name line n first ns arbitrary: b f m n' rule: resolveWalk.induct)
  case (2 c name line n first s cs ns)
  let ?matches = "sym_Name s = name"
  let ?first = "if ?matches \<and> first = None then Some s else first"
  let ?on_line = "?matches \<and> Some (Line (Start (sym_SelRange s))) = line"
  have nc: "ctx_err c n = None" using "2.prems" by (auto split: option.splits)
  show ?case
  proof (cases "?matches \<and> line = None \<or> ?on_line")
    case True
    then show ?thesis using "2.prems" nc
      by (auto simp: Let_def line_match_def name_match_def split: option.splits if_splits)
  next
    case False
    then have stop: "\<not> (?matches \<and> line = None)" "\<not> ?on_line" by blast+
    have step: "resolveWalk c name line n first (SymbolNode s cs # ns) =
      (case resolveWalk c name line (Suc n) ?first cs of
         (Inl e, n1) \<Rightarrow> (Inl e, n1)
       | (Inr (True, f, m), n1) \<Rightarrow> (Inr (True, f, m), n1)
       | (Inr (False, f, m), n1) \<Rightarrow> resolveWalk c name line n1 f ns)"
      by (simp only: resolveWalk.simps nc option.case Let_def stop if_False)
    obtain b1 f1 m1 n1 where rec: "resolveWalk c name line (Suc n) ?first cs = (Inr (b1, f1, m1), n1)"
      using "2.prems" unfolding step by (auto split: prod.splits sum.splits)
    note ih1 = "2.IH"(1) [OF nc refl refl stop rec]
    show ?thesis
    proof (cases b1)
      case True
      then have "b" "f = f1" "m = m1" using "2.prems" unfolding step rec by simp_all
      then show ?thesis using True stop ih1 line_match_name [of name line "symbols_of cs"]
        by (auto simp: match_simps split: option.splits if_splits)
    next
      case False
      then have rec2: "resolveWalk c name line n1 f1 ns = (Inr (b, f, m), n')"
        using "2.prems" unfolding step rec by simp
      have b1: "b1 = False" using False by simp
      show ?thesis
        using False ih1 stop "2.IH"(2) [OF nc refl refl stop rec [symmetric] refl refl b1 refl rec2]
        by (auto simp: match_simps split: option.splits if_splits)
    qed
  qed
qed (simp add: line_match_def name_match_def split: option.splits)

lemma resolveWalk_uncanceled: "cancel_at c = None \<Longrightarrow> \<exists>r n'. resolveWalk c name line n first ns = (Inr r, n')"
proof (induction c name line n first ns rule: resolveWalk.induct)
  case (2 c name line n first s cs ns)
  have nc: "ctx_err c n = None" using "2.prems" by simp
  show ?case
  proof (cases "sym_Name s = name \<and> line = None \<or> sym_Name s = name \<and> Some (Line (Start (sym_SelRange s))) = line")
    case True
    then show ?thesis using nc by (auto simp: Let_def)
  next
    case False
    let ?first = "if sym_Name s = name \<and> first = None then Some s else first"
    have stop: "\<not> (sym_Name s = name \<and> line = None)"
      "\<not> (sym_Name s = name \<and> Some (Line (Start (sym_SelRange s))) = line)" using False by blast+
    obtain b f m n1 where rec: "resolveWalk c name line (Suc n) ?first cs = (Inr (b, f, m), n1)"
      using "2.IH"(1) [OF nc refl refl stop "2.prems"] by (metis prod_cases3)
    show ?thesis
    proof (cases b)
      case False
      then have b: "b = False" by simp
      show ?thesis
        using "2.IH"(2) [OF nc refl refl stop rec [symmetric] refl refl b refl "2.prems"] False
        by (simp only: resolveWalk.simps nc option.case Let_def stop if_False rec prod.case sum.case bool.case b)
    qed (simp only: resolveWalk.simps nc option.case Let_def stop if_False rec prod.case sum.case bool.case, blast)
  qed
qed (simp del: split_paired_Ex)

section \<open>The flat outline is a prefix of the preorder\<close>

definition outline_of :: "Symbol \<times> nat \<Rightarrow> OutlineSymbol" where
  "outline_of p = \<lparr>os_Symbol = fst p, os_Depth = int (snd p)\<rparr>"

lemma flattenWalk_Inr:
  "flattenWalk c (int cap) n (int d) acc ns = (Inr (b, out, orig), n') \<Longrightarrow> length (fst acc) \<le> cap \<Longrightarrow>
   snd acc = map os_Symbol (fst acc) \<Longrightarrow>
   out = take cap (fst acc @ map outline_of (preorder d ns)) \<and> orig = map os_Symbol out \<and>
   (b \<longleftrightarrow> cap < length (fst acc) + length (preorder d ns))"
proof (induction ns arbitrary: n d acc b out orig n' rule: measure_induct_rule [of "size_list size"])
  case (less ns)
  show ?case
  proof (cases ns)
    case Nil
    with less.prems show ?thesis by auto
  next
    case (Cons t ns')
    obtain s cs where t: "t = SymbolNode s cs" by (cases t) auto
    have nc: "ctx_err c n = None" using less.prems Cons t by (auto split: option.splits)
    show ?thesis
    proof (cases "length (fst acc) = cap")
      case True
      with less.prems nc show ?thesis by (auto simp: Cons t)
    next
      case False
      let ?acc = "(fst acc @ [\<lparr>os_Symbol = s, os_Depth = int d\<rparr>], snd acc @ [s])"
      have sub: "size_list size cs < size_list size ns" "size_list size ns' < size_list size ns"
        by (auto simp: Cons t)
      have acc1: "length (fst ?acc) \<le> cap" "snd ?acc = map os_Symbol (fst ?acc)" using less.prems False by auto
      obtain b1 out1 orig1 n1 where rec: "flattenWalk c (int cap) (Suc n) (int (Suc d)) ?acc cs = (Inr (b1, out1, orig1), n1)"
        using less.prems(1) nc False by (auto simp: Cons t add.commute split: prod.splits sum.splits)
      note ih1 = less.IH [OF sub(1) rec acc1]
      have full: "fst acc @ map outline_of (preorder d ns) =
          (fst ?acc @ map outline_of (preorder (Suc d) cs)) @ map outline_of (preorder d ns')"
        by (simp add: Cons t outline_of_def)
      show ?thesis
      proof (cases b1)
        case True
        then have r: "b = True" "out = out1" "orig = orig1"
          using less.prems(1) nc False rec by (auto simp: Cons t add.commute)
        have long: "cap \<le> length (fst ?acc @ map outline_of (preorder (Suc d) cs))" using ih1 True by simp
        have "take cap (fst acc @ map outline_of (preorder d ns)) = out1"
          unfolding full using long ih1 by (subst take_append) (simp del: take_append)
        moreover have "cap < length (fst acc) + length (preorder d ns)" using ih1 True by (simp add: Cons t)
        ultimately show ?thesis using r ih1 by metis
      next
        case b1: False
        then have rec2: "flattenWalk c (int cap) n1 (int d) (out1, orig1) ns' = (Inr (b, out, orig), n')"
          using less.prems(1) nc False rec by (simp add: Cons t add.commute)
        have out1: "out1 = fst ?acc @ map outline_of (preorder (Suc d) cs)" "length out1 \<le> cap"
          using ih1 b1 by (auto simp: min_def)
        have acc2: "length (fst (out1, orig1)) \<le> cap" "snd (out1, orig1) = map os_Symbol (fst (out1, orig1))"
          using out1 ih1 by simp_all
        show ?thesis
          using less.IH [OF sub(2) rec2 acc2] unfolding full fst_conv out1(1)
          by (simp add: Cons t add.assoc)
      qed
    qed
  qed
qed

lemma flattenWalk_uncanceled:
  "cancel_at c = None \<Longrightarrow> \<exists>r n'. flattenWalk c cap n d acc ns = (Inr r, n')"
proof (induction c cap n d acc ns rule: flattenWalk.induct)
  case (2 c cap n d acc s cs ns)
  have nc: "ctx_err c n = None" using "2.prems" by simp
  show ?case
  proof (cases "int (length (fst acc)) = cap")
    case False
    obtain b acc' n1 where rec: "flattenWalk c cap (Suc n) (d + 1)
        (fst acc @ [\<lparr>os_Symbol = s, os_Depth = d\<rparr>], snd acc @ [s]) cs = (Inr (b, acc'), n1)"
      using "2.IH"(1) [OF nc False "2.prems"] by (metis surj_pair)
    show ?thesis
    proof (cases b)
      case True
      then show ?thesis using nc False rec by (simp del: split_paired_Ex)
    next
      case b: False
      then have "b = False" by simp
      from "2.IH"(2) [OF nc False rec [symmetric] refl refl this "2.prems"] b
      show ?thesis using nc False rec by (simp del: split_paired_Ex)
    qed
  qed (use nc in \<open>simp del: split_paired_Ex\<close>)
qed (simp del: split_paired_Ex)

section \<open>The call frame's contract\<close>

text \<open>
  What the frame needs of a result type: the freshness it is given can be read back. A body
  that does not touch the freshness then returns it unchanged, next to one event that carries
  the completed result's own fields.
\<close>

locale tool_result =
  fixes setFreshness :: "Freshness \<Rightarrow> 'o \<Rightarrow> 'o" and telemetryFields :: "'o \<Rightarrow> int \<times> bool \<times> string"
    and freshness_of :: "'o \<Rightarrow> Freshness"
  assumes stamped: "freshness_of (setFreshness fresh out) = fresh"
begin

lemma one_event:
  assumes "runTool cfg gen duration setFreshness telemetryFields tool zero execute w = ((out, events), w')"
    and "\<And>o1 w1. freshness_of (fst (execute o1 w1)) = freshness_of o1"
  shows "(\<exists>ev. events = [ev] \<and> ev_SessionID ev = cfg_SessionID cfg \<and> ev_GraphMode ev = cfg_GraphMode cfg \<and>
      ev_Tool ev = tool \<and> ev_Generation ev = gen \<and> \<not> ev_Stale ev \<and>
      (ev_ResultSize ev, ev_Truncated ev, ev_Err ev) = telemetryFields out) \<and>
    freshness_of out = Current gen"
  using assms(1) assms(2) [of "setFreshness (Current gen) zero" w] stamped [of "Current gen" zero]
  by (auto simp: runTool_def Let_def Current_def split: prod.splits)

end

interpretation definition_result: tool_result fd_setFreshness fd_telemetryFields fd_Freshness
  by unfold_locales (simp add: fd_setFreshness_def)

interpretation references_result: tool_result fr_setFreshness fr_telemetryFields fr_Freshness
  by unfold_locales (simp add: fr_setFreshness_def)

interpretation outline_result: tool_result go_setFreshness go_telemetryFields go_Freshness
  by unfold_locales (simp add: go_setFreshness_def)

text \<open>What the bodies do to a fresh result.\<close>

definition fd_ok :: "Config \<Rightarrow> FindDefinitionOutput \<Rightarrow> bool" where
  "fd_ok cfg out \<longleftrightarrow> int (length (fd_Locations out)) \<le> Cap cfg \<and> (fd_Found out \<longleftrightarrow> fd_Locations out \<noteq> []) \<and>
     (fd_Truncated out \<longrightarrow> int (length (fd_Locations out)) = Cap cfg) \<and> (fd_Found out \<longrightarrow> fd_Error out = [] \<and> fd_Message out = [])"

definition fr_ok :: "Config \<Rightarrow> FindReferencesOutput \<Rightarrow> bool" where
  "fr_ok cfg out \<longleftrightarrow> int (length (fr_Locations out)) \<le> Cap cfg \<and> (fr_Found out \<longleftrightarrow> fr_Locations out \<noteq> []) \<and>
     (fr_Truncated out \<longrightarrow> int (length (fr_Locations out)) = Cap cfg) \<and> (fr_Found out \<longrightarrow> fr_Error out = [] \<and> fr_Message out = [])"

lemma Cap_nat: "0 < nat (Cap cfg)" "int (nat (Cap cfg)) = Cap cfg" "0 \<le> Cap cfg" "Cap cfg \<noteq> 0" "\<not> Cap cfg \<le> 0"
  using Cap_pos [of cfg] by linarith+

lemma findDefinitionBody_fresh: "fd_Freshness (fst (findDefinitionBody P env quoted cfg c inp out w)) = fd_Freshness out"
  by (auto simp: findDefinitionBody_def split: sum.splits prod.splits option.splits)

lemma findReferencesBody_fresh: "fr_Freshness (fst (findReferencesBody P env quoted cfg c inp out w)) = fr_Freshness out"
  by (auto simp: findReferencesBody_def split: sum.splits prod.splits option.splits)

lemma getOutlineBody_fresh: "go_Freshness (fst (getOutlineBody P env cfg c input out w)) = go_Freshness out"
  by (auto simp: getOutlineBody_def Let_def split: sum.splits prod.splits)

lemma findDefinitionBody_ok: "fd_ok cfg (fst (findDefinitionBody P env quoted cfg c inp (fd_setFreshness fresh fd_zero) w))"
  by (auto simp: findDefinitionBody_def fd_ok_def fd_zero_def fd_setFreshness_def Cap_nat split: sum.splits prod.splits option.splits)

lemma findReferencesBody_ok: "fr_ok cfg (fst (findReferencesBody P env quoted cfg c inp (fr_setFreshness fresh fr_zero) w))"
  by (auto simp: findReferencesBody_def fr_ok_def fr_zero_def fr_setFreshness_def Cap_nat split: sum.splits prod.splits option.splits)


lemma find_symbol: "ctx_err c n = None \<Longrightarrow> resolveSymbolPosition c symbols name line n =
    (case resolveWalk c name line (Suc n) None symbols of
       (Inl e, n1) \<Rightarrow> (Inl e, n1)
     | (Inr (_, first, lineMatch), n1) \<Rightarrow>
         (Inr (map_option (\<lambda>s. Start (sym_SelRange s)) (case lineMatch of Some s \<Rightarrow> Some s | None \<Rightarrow> first)), n1))"
  by (auto simp: resolveSymbolPosition_def split: sum.splits prod.splits option.splits)

text \<open>The position a name and an optional line stand for: the first symbol with the name on the
  line if there is one, else the first symbol with the name.\<close>

definition symbol_position :: "string \<Rightarrow> int option \<Rightarrow> SymbolNode list \<Rightarrow> Position option" where
  "symbol_position name line symbols = map_option (\<lambda>s. Start (sym_SelRange s))
     (case line_match name line (symbols_of symbols) of Some s \<Rightarrow> Some s | None \<Rightarrow> name_match name (symbols_of symbols))"

lemma resolveSymbolPosition_Inr:
  "fst (resolveSymbolPosition c symbols name line n) = Inr r \<Longrightarrow> r = symbol_position name line symbols"
proof (cases "ctx_err c n")
  case None
  assume "fst (resolveSymbolPosition c symbols name line n) = Inr r"
  then obtain b f m n1 where "resolveWalk c name line (Suc n) None symbols = (Inr (b, f, m), n1)"
    "r = map_option (\<lambda>s. Start (sym_SelRange s)) (case m of Some s \<Rightarrow> Some s | None \<Rightarrow> f)"
    by (auto simp: find_symbol [OF None] split: sum.splits prod.splits)
  then show ?thesis using resolveWalk_Inr [of c name line "Suc n" None symbols b f m n1]
    by (auto simp: symbol_position_def)
qed (simp add: resolveSymbolPosition_def)

lemma resolveSymbolPosition_uncanceled:
  assumes "cancel_at c = None"
  shows "fst (resolveSymbolPosition c symbols name line n) = Inr (symbol_position name line symbols)"
proof -
  obtain b f m n1 where "resolveWalk c name line (Suc n) None symbols = (Inr (b, f, m), n1)"
    using resolveWalk_uncanceled [OF assms, of name line "Suc n" None symbols] by (metis prod_cases3)
  then have "\<exists>r. fst (resolveSymbolPosition c symbols name line n) = Inr r"
    using assms by (simp add: find_symbol)
  then show ?thesis using resolveSymbolPosition_Inr by metis
qed

lemma flattenSymbols_Inr:
  assumes "fst (flattenSymbols c symbols (int cap) n) = Inr flat"
  shows "flat_outline flat = take cap (map outline_of (preorder 0 symbols)) \<and>
    flat_originals flat = take cap (symbols_of symbols) \<and> (flat_truncated flat \<longleftrightarrow> cap < length (preorder 0 symbols))"
proof -
  have nc: "ctx_err c n = None" using assms by (auto simp: flattenSymbols_def split: option.splits)
  with assms obtain b out orig n1 where walk: "flattenWalk c (int cap) (Suc n) (int 0) ([], []) symbols = (Inr (b, out, orig), n1)"
    and flat: "flat = \<lparr>flat_outline = out, flat_originals = orig, flat_truncated = b\<rparr>"
    by (auto simp: flattenSymbols_def split: sum.splits prod.splits)
  have "map os_Symbol (map outline_of ps) = map fst ps" for ps by (simp add: outline_of_def)
  then show ?thesis using flattenWalk_Inr [OF walk] by (auto simp: flat symbols_of_def take_map)
qed

lemma flattenSymbols_uncanceled: "cancel_at c = None \<Longrightarrow> \<exists>flat. fst (flattenSymbols c symbols cap n) = Inr flat"
proof -
  assume c: "cancel_at c = None"
  obtain b out orig n1 where "flattenWalk c cap (Suc n) 0 ([], []) symbols = (Inr (b, out, orig), n1)"
    using flattenWalk_uncanceled [OF c, of cap "Suc n" 0 "([], [])" symbols] by (metis prod_cases3)
  then show ?thesis using c by (simp add: flattenSymbols_def)
qed

text \<open>
  Where a found result comes from: the stages that had to succeed, each with the result it gave.
\<close>

lemma runProviderStage_Inr: "runProviderStage invoke c w = (Inr r, w') \<Longrightarrow> \<exists>w1. invoke c w = (Inr r, w1)"
  by (auto simp: runProviderStage_def split: sum.splits prod.splits option.splits)

definition found_by ::
  "'s LanguageProvider \<Rightarrow> (string \<Rightarrow> Position \<Rightarrow> ('s, Location list) provider_call) \<Rightarrow> host_env \<Rightarrow> Config \<Rightarrow> ctx \<Rightarrow>
   FindInput \<Rightarrow> 's world \<Rightarrow> Location list \<Rightarrow> bool \<Rightarrow> bool" where
  "found_by P query env cfg c inp w locations truncated \<longleftrightarrow>
     (\<exists>file symbols pos locs w1 w2 w3. Canonicalize env (in_File inp) = Inr file \<and>
        DocumentSymbols P file c w = (Inr symbols, w1) \<and>
        symbol_position (in_Symbol inp) (in_Line inp) symbols = Some pos \<and>
        query file pos c w2 = (Inr locs, w3) \<and>
        locations = take (nat (Cap cfg)) locs \<and> (truncated \<longleftrightarrow> Cap cfg < int (length locs)))"

lemma found_byI:
  assumes "validateFile env (in_File inp) = Inr file"
    and "runProviderStage (DocumentSymbols P file) c w = (Inr symbols, w1)"
    and "withPolls (resolveSymbolPosition c symbols (in_Symbol inp) (in_Line inp)) w1 = (Inr (Some pos), w2)"
    and "runProviderStage (query file pos) c w2 = (Inr locs, w3)"
    and "locations = take (nat (Cap cfg)) locs" "truncated \<longleftrightarrow> Cap cfg < int (length locs)"
  shows "found_by P query env cfg c inp w locations truncated"
proof -
  have "Canonicalize env (in_File inp) = Inr file" using assms(1) by (auto simp: validateFile_def split: sum.splits)
  moreover have "symbol_position (in_Symbol inp) (in_Line inp) symbols = Some pos"
    using assms(3) resolveSymbolPosition_Inr withPolls_fst by (metis surj_pair)
  ultimately show ?thesis using runProviderStage_Inr [OF assms(2)] runProviderStage_Inr [OF assms(4)] assms(5,6)
    unfolding found_by_def by blast
qed

lemma findDefinitionBody_found:
  assumes "findDefinitionBody P env quoted cfg c inp (fd_setFreshness fresh fd_zero) w = (out, w')" "fd_Found out"
  shows "found_by P (Definition P) env cfg c inp w (fd_Locations out) (fd_Truncated out)"
  using assms Cap_nat(2) [of cfg]
  by (auto simp: findDefinitionBody_def fd_zero_def fd_setFreshness_def
      split: sum.splits prod.splits option.splits if_splits intro!: found_byI)

lemma findReferencesBody_found:
  assumes "findReferencesBody P env quoted cfg c inp (fr_setFreshness fresh fr_zero) w = (out, w')" "fr_Found out"
  shows "found_by P (\<lambda>file pos. References P file pos True) env cfg c inp w (fr_Locations out) (fr_Truncated out)"
  using assms Cap_nat(2) [of cfg]
  by (auto simp: findReferencesBody_def fr_zero_def fr_setFreshness_def
      split: sum.splits prod.splits option.splits if_splits intro!: found_byI)

lemma runTool_out: "runTool cfg gen duration setFreshness telemetryFields tool zero execute w = ((out, events), w') \<Longrightarrow>
    execute (setFreshness (Current gen) zero) w = (out, w')"
  by (auto simp: runTool_def Let_def split: prod.splits)

text \<open>The one event of a call.\<close>

definition logged :: "Config \<Rightarrow> GenerationCounter \<Rightarrow> string \<Rightarrow> int \<times> bool \<times> string \<Rightarrow> Event list \<Rightarrow> bool" where
  "logged cfg gen tool outcome events \<longleftrightarrow>
     (\<exists>ev. events = [ev] \<and> ev_SessionID ev = cfg_SessionID cfg \<and> ev_GraphMode ev = cfg_GraphMode cfg \<and>
        ev_Tool ev = tool \<and> ev_Generation ev = gen \<and> \<not> ev_Stale ev \<and>
        (ev_ResultSize ev, ev_Truncated ev, ev_Err ev) = outcome)"

text \<open>What a found outline comes from.\<close>

definition outlined_by ::
  "'s LanguageProvider \<Rightarrow> host_env \<Rightarrow> Config \<Rightarrow> ctx \<Rightarrow> string \<Rightarrow> 's world \<Rightarrow> GetOutlineOutput \<Rightarrow> bool" where
  "outlined_by P env cfg c input w out \<longleftrightarrow>
     (\<exists>symbols signatures w1 w2 w3. Canonicalize env input = Inr (go_File out) \<and>
        DocumentSymbols P (go_File out) c w = (Inr symbols, w1) \<and> symbols \<noteq> [] \<and>
        SymbolSignatures P (go_File out) (take (nat (Cap cfg)) (symbols_of symbols)) c w2 = (Inr signatures, w3) \<and>
        length signatures = min (nat (Cap cfg)) (length (symbols_of symbols)) \<and>
        go_Symbols out = setSignatures (take (nat (Cap cfg)) (map outline_of (preorder 0 symbols))) signatures \<and>
        (go_Truncated out \<longleftrightarrow> Cap cfg < int (length (symbols_of symbols))) \<and> go_Error out = [] \<and> go_Message out = [])"

lemma length_symbols_of [simp]: "length (symbols_of symbols) = length (preorder 0 symbols)"
  by (simp add: symbols_of_def)

lemma outlined_byI:
  assumes "validateFile env input = Inr (go_File out)"
    and "runProviderStage (DocumentSymbols P (go_File out)) c w = (Inr symbols, w1)" "symbols \<noteq> []"
    and "withPolls (flattenSymbols c symbols (Cap cfg)) w1 = (Inr flat, w2)"
    and "runProviderStage (SymbolSignatures P (go_File out) (flat_originals flat)) c w2 = (Inr signatures, w3)"
    and "length signatures = length (flat_outline flat)"
    and "go_Symbols out = setSignatures (flat_outline flat) signatures" "go_Truncated out = flat_truncated flat"
    and "go_Error out = []" "go_Message out = []"
  shows "outlined_by P env cfg c input w out"
proof -
  have canonical: "Canonicalize env input = Inr (go_File out)"
    using assms(1) by (auto simp: validateFile_def split: sum.splits)
  have "fst (flattenSymbols c symbols (int (nat (Cap cfg))) (fst w1)) = Inr flat"
    using withPolls_fst [of "flattenSymbols c symbols (Cap cfg)" "fst w1" "snd w1"] assms(4) Cap_nat(2) [of cfg] by simp
  then have flat: "flat_outline flat = take (nat (Cap cfg)) (map outline_of (preorder 0 symbols))"
    "flat_originals flat = take (nat (Cap cfg)) (symbols_of symbols)"
    "flat_truncated flat \<longleftrightarrow> Cap cfg < int (length (symbols_of symbols))"
    using flattenSymbols_Inr [of c symbols "nat (Cap cfg)" "fst w1" flat] Cap_nat(2) [of cfg] by auto
  obtain w4 where load: "DocumentSymbols P (go_File out) c w = (Inr symbols, w4)"
    using runProviderStage_Inr [OF assms(2)] by blast
  obtain w5 where sigs: "SymbolSignatures P (go_File out) (flat_originals flat) c w2 = (Inr signatures, w5)"
    using runProviderStage_Inr [OF assms(5)] by blast
  have "length signatures = min (nat (Cap cfg)) (length (symbols_of symbols))"
    using assms(6) flat by (simp add: min.commute)
  then show ?thesis using canonical load sigs assms(3,7-) unfolding outlined_by_def flat by blast
qed

lemma getOutlineBody_found:
  assumes "getOutlineBody P env cfg c input (go_setFreshness fresh go_zero) w = (out, w')" "go_Found out"
  shows "outlined_by P env cfg c input w out"
  using assms
  by (auto simp: getOutlineBody_def go_zero_def go_setFreshness_def Let_def
      split: sum.splits prod.splits if_splits intro!: outlined_byI)

lemma getOutlineBody_not_found:
  assumes "getOutlineBody P env cfg c input (go_setFreshness fresh go_zero) w = (out, w')" "\<not> go_Found out"
  shows "go_Symbols out = [] \<and> \<not> go_Truncated out \<and> go_Message out \<noteq> []"
  using assms
  by (auto simp: getOutlineBody_def go_zero_def go_setFreshness_def Let_def validateFile_def invalidFileMessage_def
      split: sum.splits prod.splits if_splits)

text \<open>
  The other direction needs the provider's contract: one signature per symbol. Then the length
  check of the tool never fires, and an outline whose stages all answer is found.
\<close>

lemma runProviderStage_uncanceled:
  "cancel_at c = None \<Longrightarrow> invoke c w = (Inr r, w') \<Longrightarrow> runProviderStage invoke c w = (Inr r, (Suc (fst w'), snd w'))"
  by (auto simp: runProviderStage_def split: prod.splits)

lemma validateFile_Inr: "Canonicalize env input = Inr file \<Longrightarrow> validateFile env input = Inr file"
  by (simp add: validateFile_def)

context language_provider
begin

lemma outline_found:
  assumes c: "cancel_at c = None" and "Canonicalize env input = Inr file"
    and "DocumentSymbols P file c w = (Inr symbols, w1)" "symbols \<noteq> []"
    and answers: "\<And>ss w. \<exists>sigs w'. SymbolSignatures P file ss c w = (Inr sigs, w')"
  shows "go_Found (fst (getOutlineBody P env cfg c input out w))"
proof -
  obtain flat n where flat: "flattenSymbols c symbols (int (nat (Cap cfg))) (Suc (fst w1)) = (Inr flat, n)"
    using flattenSymbols_uncanceled [OF c] by (metis prod.collapse)
  obtain sigs w' where sigs: "SymbolSignatures P file (flat_originals flat) c (n, snd w1) = (Inr sigs, w')"
    using answers by blast
  have "length sigs = length (flat_outline flat)"
    using signatures_length [OF sigs] flattenSymbols_Inr [of c symbols "nat (Cap cfg)" "Suc (fst w1)" flat] flat by simp
  then show ?thesis
    using flat assms(4) Cap_nat(2) [of cfg] runProviderStage_uncanceled [of c "SymbolSignatures P file (flat_originals flat)", OF c sigs]
    by (simp add: getOutlineBody_def Let_def withPolls_def validateFile_Inr [OF assms(2)]
        runProviderStage_uncanceled [of c "DocumentSymbols P file", OF c assms(3)])
qed

end

text \<open>The frame of each tool on its own: the event and the stamp.\<close>

lemma FindDefinition_frame:
  assumes "FindDefinition P env quoted cfg gen duration c inp w = ((out, events), w')"
  shows "logged cfg gen ''find_definition'' (fd_telemetryFields out) events \<and> fd_Freshness out = Current gen"
  using definition_result.one_event [OF assms [unfolded FindDefinition_def]]
  by (auto simp: logged_def findDefinitionBody_fresh)

lemma FindReferences_frame:
  assumes "FindReferences P env quoted cfg gen duration c inp w = ((out, events), w')"
  shows "logged cfg gen ''find_references'' (fr_telemetryFields out) events \<and> fr_Freshness out = Current gen"
  using references_result.one_event [OF assms [unfolded FindReferences_def]]
  by (auto simp: logged_def findReferencesBody_fresh)

lemma GetOutline_frame:
  assumes "GetOutline P env cfg gen duration c input w = ((out, events), w')"
  shows "logged cfg gen ''get_outline'' (go_telemetryFields out) events \<and> go_Freshness out = Current gen"
  using outline_result.one_event [OF assms [unfolded GetOutline_def]]
  by (auto simp: logged_def getOutlineBody_fresh)

lemma GetOutline_cases:
  assumes "GetOutline P env cfg gen duration c input w = ((out, events), w')"
  shows "go_Found out \<Longrightarrow> outlined_by P env cfg c input w out"
    and "\<not> go_Found out \<Longrightarrow> go_Symbols out = [] \<and> \<not> go_Truncated out \<and> go_Message out \<noteq> []"
  using getOutlineBody_found [OF runTool_out [OF assms [unfolded GetOutline_def]]]
    getOutlineBody_not_found [OF runTool_out [OF assms [unfolded GetOutline_def]]] by blast+

text \<open>The lines of a rendered outline.\<close>

lemma nonblank_line:
  "inline l \<Longrightarrow> filter (\<lambda>l. l \<noteq> []) (split_byte newline (l @ newline # s)) =
     (if l = [] then [] else [l]) @ filter (\<lambda>l. l \<noteq> []) (split_byte newline s)"
  by (simp add: split_byte_append_sep inline_newline)

lemma nonblank_newline:
  "filter (\<lambda>l. l \<noteq> []) (split_byte newline (newline # s)) = filter (\<lambda>l. l \<noteq> []) (split_byte newline s)"
  by simp

lemma SymbolLine_not_Nil: "SymbolLine symbol depth \<noteq> []"
  by (simp add: SymbolLine_def Let_def)

lemma outlineLines_lines:
  "filter (\<lambda>l. l \<noteq> []) (split_byte newline (outlineLines previous symbols @ s)) =
     map (\<lambda>o1. SymbolLine (os_Symbol o1) (os_Depth o1)) symbols @ filter (\<lambda>l. l \<noteq> []) (split_byte newline s)"
proof (induction symbols arbitrary: previous)
  case (Cons o1 symbols)
  have line: "filter (\<lambda>l. l \<noteq> []) (split_byte newline (SymbolLine (os_Symbol o1) (os_Depth o1) @ newline # t)) =
      SymbolLine (os_Symbol o1) (os_Depth o1) # filter (\<lambda>l. l \<noteq> []) (split_byte newline t)" for t
    using nonblank_line [OF SymbolLine_inline] by (simp add: SymbolLine_not_Nil)
  show ?case using Cons line by (simp del: split_byte.simps add: nonblank_newline)
qed simp

section \<open>Properties\<close>

text \<open>Resolving a name takes the first symbol, parents before children, that has the name and is
  on the given line; without one it takes the first symbol with the name. A context that is not
  canceled always gives this answer, and a canceled one never gives a different one.\<close>

theorem resolveSymbolPosition_first:
  "(fst (resolveSymbolPosition c symbols name line n) = Inr r \<longrightarrow> r = symbol_position name line symbols) \<and>
   (cancel_at c = None \<longrightarrow> fst (resolveSymbolPosition c symbols name line n) = Inr (symbol_position name line symbols))"
  using resolveSymbolPosition_Inr resolveSymbolPosition_uncanceled by blast

text \<open>The flat outline is the first \<open>cap\<close> symbols of the preorder with their depths, the batch
  for the signatures is the same symbols, and the truncation flag says exactly that there were more.\<close>

theorem flattenSymbols_prefix:
  assumes "cancel_at c = None"
  shows "\<exists>flat. fst (flattenSymbols c symbols (int cap) n) = Inr flat \<and>
    flat_outline flat = take cap (map outline_of (preorder 0 symbols)) \<and>
    flat_originals flat = take cap (symbols_of symbols) \<and> (flat_truncated flat \<longleftrightarrow> cap < length (preorder 0 symbols))"
  using flattenSymbols_uncanceled [OF assms] flattenSymbols_Inr by metis



text \<open>C36: every call of find_definition logs exactly one event, with the session's dimensions, the
  generation read before the work and the outcome of the completed result; the result is stamped
  with that generation, holds at most the cap, and is found exactly when it has a location. A
  found result is what the provider answered for the resolved symbol, cut at the cap.\<close>

theorem FindDefinition_contract:
  assumes "FindDefinition P env quoted cfg gen duration c inp w = ((out, events), w')"
  shows "logged cfg gen ''find_definition'' (fd_telemetryFields out) events \<and> fd_Freshness out = Current gen \<and> fd_ok cfg out \<and>
    (fd_Found out \<longrightarrow> found_by P (Definition P) env cfg c inp w (fd_Locations out) (fd_Truncated out))"
proof -
  note body = runTool_out [OF assms [unfolded FindDefinition_def]]
  show ?thesis
    using FindDefinition_frame [OF assms] findDefinitionBody_ok [of cfg P env quoted c inp "Current gen" w]
      findDefinitionBody_found [OF body] body by simp
qed

text \<open>The same for find_references, which asks for the declaration too.\<close>

theorem FindReferences_contract:
  assumes "FindReferences P env quoted cfg gen duration c inp w = ((out, events), w')"
  shows "logged cfg gen ''find_references'' (fr_telemetryFields out) events \<and> fr_Freshness out = Current gen \<and> fr_ok cfg out \<and>
    (fr_Found out \<longrightarrow> found_by P (\<lambda>file pos. References P file pos True) env cfg c inp w (fr_Locations out) (fr_Truncated out))"
proof -
  note body = runTool_out [OF assms [unfolded FindReferences_def]]
  show ?thesis
    using FindReferences_frame [OF assms] findReferencesBody_ok [of cfg P env quoted c inp "Current gen" w]
      findReferencesBody_found [OF body] body by simp
qed

text \<open>C37: every call of get_outline logs exactly one event; a found outline is the preorder of the
  file's symbols cut at the cap, each with the signature the provider gave for it; one that is not
  found has no symbols and says why.\<close>

theorem GetOutline_contract:
  assumes "GetOutline P env cfg gen duration c input w = ((out, events), w')"
  shows "logged cfg gen ''get_outline'' (go_telemetryFields out) events \<and> go_Freshness out = Current gen \<and>
    (go_Found out \<longrightarrow> outlined_by P env cfg c input w out) \<and>
    (\<not> go_Found out \<longrightarrow> go_Symbols out = [] \<and> \<not> go_Truncated out \<and> go_Message out \<noteq> [])"
  using GetOutline_frame [OF assms] GetOutline_cases [OF assms] by blast


text \<open>The text of a found outline is the file line, the range convention, one line per symbol in
  order and the footer, with nothing but blank lines between them; an error and an empty result
  are one marked line each.\<close>

theorem RenderOutline_lines:
  "filter (\<lambda>l. l \<noteq> []) (split_byte newline (RenderOutline out)) =
     (if go_Error out \<noteq> [] then [render_Error (go_Message out @ '': '' @ go_Error out)]
      else if \<not> go_Found out then [Empty (go_Message out)]
      else [FileLine (go_File out), RangeConvention] @
        map (\<lambda>o1. SymbolLine (os_Symbol o1) (os_Depth o1)) (go_Symbols out) @
        [Footer (int (length (go_Symbols out))) ''symbol'' ''symbols'' (go_Truncated out)])"
proof -
  have markers: "FileLine f \<noteq> []" "Empty m \<noteq> []" "render_Error m \<noteq> []" "Footer n a b t \<noteq> []" for f m n a b t
    by (simp_all add: FileLine_def Empty_def render_Error_def Footer_def Let_def)
  have convention: "RangeConvention \<noteq> []" "inline RangeConvention" by (simp_all add: RangeConvention_def)
  note lines = nonblank_line [OF render_markers_inline(1)] nonblank_line [OF convention(2)]
  show ?thesis
    using markers convention
    by (simp add: RenderOutline_def lines outlineLines_lines nonblank_newline split_byte_notin inline_newline
        del: split_byte.simps)
qed

section \<open>Witnesses\<close>

text \<open>A file with a class, its method and a function of the same name as the method.\<close>

definition sample_range :: "int \<Rightarrow> Range" where
  "sample_range l = \<lparr>Start = \<lparr>Line = l, Character = 0\<rparr>, End = \<lparr>Line = l, Character = 3\<rparr>\<rparr>"

definition sample_symbol :: "string \<Rightarrow> int \<Rightarrow> Symbol" where
  "sample_symbol name l = \<lparr>sym_Name = name, sym_Kind = SymbolKindFunction, sym_File = ''/a'', sym_Range = sample_range l,
     sym_SelRange = sample_range l, sym_Signature = name, sym_Detail = []\<rparr>"

definition sample_symbols :: "SymbolNode list" where
  "sample_symbols = [SymbolNode (sample_symbol ''C'' 0) [SymbolNode (sample_symbol ''f'' 1) []],
     SymbolNode (sample_symbol ''f'' 4) []]"

definition sample_stub :: StubProvider where
  "sample_stub = \<lparr>stub_Definitions = [''/a'' \<mapsto> [\<lparr>loc_File = ''/b'', loc_Range = sample_range 2\<rparr>, \<lparr>loc_File = ''/c'', loc_Range = sample_range 3\<rparr>]],
     stub_Refs = [''/a'' \<mapsto> [\<lparr>loc_File = ''/b'', loc_Range = sample_range 2\<rparr>]], stub_Symbols = [''/a'' \<mapsto> sample_symbols]\<rparr>"

definition sample_config :: Config where
  "sample_config = \<lparr>cfg_ProjectRoot = ''/'', cfg_SessionID = ''s'', cfg_GraphMode = ''graph'', cfg_TsgoPath = ''tsgo'',
     cfg_JSONLPath = [], cfg_ControlSocket = [], cfg_MaxResults = 1\<rparr>"

theorem resolveSymbolPosition_first_witness:
  "fst (resolveSymbolPosition background sample_symbols ''f'' (Some 4) 0) = Inr (Some \<lparr>Line = 4, Character = 0\<rparr>) \<and>
   fst (resolveSymbolPosition background sample_symbols ''f'' None 0) = Inr (Some \<lparr>Line = 1, Character = 0\<rparr>)"
proof -
  have c: "cancel_at background = None" by (simp add: background_def)
  have "symbol_position ''f'' (Some 4) sample_symbols = Some \<lparr>Line = 4, Character = 0\<rparr>"
    "symbol_position ''f'' None sample_symbols = Some \<lparr>Line = 1, Character = 0\<rparr>"
    by code_simp+
  then show ?thesis using c resolveSymbolPosition_first [of background sample_symbols "''f''" _ 0] by metis
qed

theorem flattenSymbols_prefix_witness:
  "\<exists>flat. fst (flattenSymbols background sample_symbols (int 2) 0) = Inr flat \<and> flat_truncated flat \<and>
     map os_Depth (flat_outline flat) = [0, 1]"
proof -
  have c: "cancel_at background = None" by (simp add: background_def)
  have "2 < length (preorder 0 sample_symbols)" "map os_Depth (take 2 (map outline_of (preorder 0 sample_symbols))) = [0, 1]"
    by code_simp+
  then show ?thesis using flattenSymbols_prefix [OF c, of sample_symbols 2 0] by metis
qed

theorem FindDefinition_contract_witness:
  "\<exists>out events w. FindDefinition (stub_provider sample_stub) ubuntu_env (\<lambda>s. s) sample_config 7 5 background
      \<lparr>in_File = ''/a'', in_Symbol = ''f'', in_Line = None\<rparr> (0, ()) = ((out, events), w) \<and>
     fd_Found out \<and> fd_Truncated out \<and> length (fd_Locations out) = 1 \<and>
     logged sample_config 7 ''find_definition'' (fd_telemetryFields out) events"
proof -
  let ?out = "\<lparr>fd_Found = True, fd_Locations = [\<lparr>loc_File = ''/b'', loc_Range = sample_range 2\<rparr>], fd_Truncated = True,
    fd_Freshness = Current 7, fd_Message = [], fd_Error = []\<rparr>"
  let ?ev = "\<lparr>ev_SessionID = ''s'', ev_GraphMode = ''graph'', ev_Tool = ''find_definition'', ev_DurationMs = 5,
    ev_ResultSize = 1, ev_Truncated = True, ev_Stale = False, ev_Generation = 7, ev_Err = []\<rparr>"
  have h: "FindDefinition (stub_provider sample_stub) ubuntu_env (\<lambda>s. s) sample_config 7 5 background
      \<lparr>in_File = ''/a'', in_Symbol = ''f'', in_Line = None\<rparr> (0, ()) = ((?out, [?ev]), (5, ()))"
    by code_simp
  show ?thesis using h FindDefinition_contract [OF h] by simp
qed

theorem FindReferences_contract_witness:
  "\<exists>out events w. FindReferences (stub_provider sample_stub) ubuntu_env (\<lambda>s. s) sample_config 7 5 background
      \<lparr>in_File = ''/a'', in_Symbol = ''C'', in_Line = Some 9\<rparr> (0, ()) = ((out, events), w) \<and>
     fr_Found out \<and> \<not> fr_Truncated out \<and> logged sample_config 7 ''find_references'' (fr_telemetryFields out) events"
proof -
  let ?out = "\<lparr>fr_Found = True, fr_Locations = [\<lparr>loc_File = ''/b'', loc_Range = sample_range 2\<rparr>], fr_Truncated = False,
    fr_Freshness = Current 7, fr_Message = [], fr_Error = []\<rparr>"
  let ?ev = "\<lparr>ev_SessionID = ''s'', ev_GraphMode = ''graph'', ev_Tool = ''find_references'', ev_DurationMs = 5,
    ev_ResultSize = 1, ev_Truncated = False, ev_Stale = False, ev_Generation = 7, ev_Err = []\<rparr>"
  have h: "FindReferences (stub_provider sample_stub) ubuntu_env (\<lambda>s. s) sample_config 7 5 background
      \<lparr>in_File = ''/a'', in_Symbol = ''C'', in_Line = Some 9\<rparr> (0, ()) = ((?out, [?ev]), (6, ()))"
    by code_simp
  show ?thesis using h FindReferences_contract [OF h] by simp
qed

theorem GetOutline_contract_witness:
  "\<exists>out events w. GetOutline (stub_provider sample_stub) ubuntu_env sample_config 7 5 background ''/a'' (0, ()) = ((out, events), w) \<and>
     go_Found out \<and> outlined_by (stub_provider sample_stub) ubuntu_env sample_config background ''/a'' (0, ()) out"
proof -
  let ?out = "\<lparr>go_Found = True, go_File = ''/a'', go_Symbols = [\<lparr>os_Symbol = sample_symbol ''C'' 0, os_Depth = 0\<rparr>],
    go_Truncated = True, go_Freshness = Current 7, go_Message = [], go_Error = []\<rparr>"
  let ?ev = "\<lparr>ev_SessionID = ''s'', ev_GraphMode = ''graph'', ev_Tool = ''get_outline'', ev_DurationMs = 5,
    ev_ResultSize = 1, ev_Truncated = True, ev_Stale = False, ev_Generation = 7, ev_Err = []\<rparr>"
  have h: "GetOutline (stub_provider sample_stub) ubuntu_env sample_config 7 5 background ''/a'' (0, ()) = ((?out, [?ev]), (5, ()))"
    by code_simp
  show ?thesis using h GetOutline_contract [OF h] by simp
qed

end
