(* ===== verification/Mcp_Server.thy ===== *)
theory Mcp_Server
  imports Tools Control_Socket "HOL-Library.Multiset"
begin

text \<open>
  The server (\<^verbatim>\<open>src/internal/mcp/server.go\<close>): its three tools and what each handler makes of a tool's result.
  The SDK that decodes a request, picks the handler and encodes the answer is not under \<^verbatim>\<open>src\<close>: a request
  is the decoded input of its handler. Calls run side by side, together with commands on the control
  socket, as a step relation over the shared generation counter.
\<close>

section \<open>Handlers\<close>

datatype tool_request =
    FindDefinitionCall FindInput
  | FindReferencesCall FindInput
  | GetOutlineCall string

datatype tool_reply =
    DefinitionReply FindDefinitionOutput
  | ReferencesReply FindReferencesOutput
  | TextReply string

text \<open>The tools that are registered, in their order.\<close>

definition NewServer :: "string list" where
  "NewServer = [''find_definition'', ''find_references'', ''get_outline'']"

fun toolName :: "tool_request \<Rightarrow> string" where
  "toolName (FindDefinitionCall _) = NewServer ! 0"
| "toolName (FindReferencesCall _) = NewServer ! 1"
| "toolName (GetOutlineCall _) = NewServer ! 2"

definition findDefinitionHandler ::
  "'s LanguageProvider \<Rightarrow> host_env \<Rightarrow> (string \<Rightarrow> string) \<Rightarrow> Config \<Rightarrow> GenerationCounter \<Rightarrow> int \<Rightarrow> ctx \<Rightarrow> FindInput \<Rightarrow>
   's world \<Rightarrow> (tool_reply \<times> Event list) \<times> 's world" where
  "findDefinitionHandler P env quoted cfg gen duration c inp w =
     (case FindDefinition P env quoted cfg gen duration c inp w of ((out, events), w') \<Rightarrow> ((DefinitionReply out, events), w'))"

definition findReferencesHandler ::
  "'s LanguageProvider \<Rightarrow> host_env \<Rightarrow> (string \<Rightarrow> string) \<Rightarrow> Config \<Rightarrow> GenerationCounter \<Rightarrow> int \<Rightarrow> ctx \<Rightarrow> FindInput \<Rightarrow>
   's world \<Rightarrow> (tool_reply \<times> Event list) \<times> 's world" where
  "findReferencesHandler P env quoted cfg gen duration c inp w =
     (case FindReferences P env quoted cfg gen duration c inp w of ((out, events), w') \<Rightarrow> ((ReferencesReply out, events), w'))"

text \<open>An outline is answered as text.\<close>

definition getOutlineHandler ::
  "'s LanguageProvider \<Rightarrow> host_env \<Rightarrow> Config \<Rightarrow> GenerationCounter \<Rightarrow> int \<Rightarrow> ctx \<Rightarrow> string \<Rightarrow>
   's world \<Rightarrow> (tool_reply \<times> Event list) \<times> 's world" where
  "getOutlineHandler P env cfg gen duration c input w =
     (case GetOutline P env cfg gen duration c input w of ((out, events), w') \<Rightarrow> ((TextReply (RenderOutline out), events), w'))"

definition handleCall ::
  "'s LanguageProvider \<Rightarrow> host_env \<Rightarrow> (string \<Rightarrow> string) \<Rightarrow> Config \<Rightarrow> GenerationCounter \<Rightarrow> int \<Rightarrow> ctx \<Rightarrow> tool_request \<Rightarrow>
   's world \<Rightarrow> (tool_reply \<times> Event list) \<times> 's world" where
  "handleCall P env quoted cfg gen duration c req w =
     (case req of
        FindDefinitionCall inp \<Rightarrow> findDefinitionHandler P env quoted cfg gen duration c inp w
      | FindReferencesCall inp \<Rightarrow> findReferencesHandler P env quoted cfg gen duration c inp w
      | GetOutlineCall input \<Rightarrow> getOutlineHandler P env cfg gen duration c input w)"

section \<open>A session\<close>

text \<open>A call that runs: its request, the generation that it read, and how many syncs had been acknowledged by then.\<close>

record running_call =
  rc_request :: tool_request
  rc_gen :: GenerationCounter
  rc_syncs :: nat

text \<open>
  The generation counter; the requests that wait, the calls that run and the ones that are done with their replies,
  the events of the telemetry in their order, and the number of syncs acknowledged.
\<close>

record server =
  sv_gen :: GenerationCounter
  sv_waiting :: "tool_request list"
  sv_running :: "running_call list"
  sv_done :: "(running_call \<times> tool_reply) list"
  sv_events :: "Event list"
  sv_syncs :: nat

definition serving :: "GenerationCounter \<Rightarrow> tool_request list \<Rightarrow> server" where
  "serving g requests = \<lparr>sv_gen = g, sv_waiting = requests, sv_running = [], sv_done = [], sv_events = [], sv_syncs = 0\<rparr>"

definition startCall :: "tool_request \<Rightarrow> server \<Rightarrow> server" where
  "startCall req s = s\<lparr>sv_waiting := remove1 req (sv_waiting s),
     sv_running := sv_running s @ [\<lparr>rc_request = req, rc_gen = sv_gen s, rc_syncs = sv_syncs s\<rparr>]\<rparr>"

definition finishCall :: "running_call \<Rightarrow> tool_reply \<Rightarrow> Event list \<Rightarrow> server \<Rightarrow> server" where
  "finishCall call reply events s = s\<lparr>sv_running := remove1 call (sv_running s), sv_done := sv_done s @ [(call, reply)],
     sv_events := sv_events s @ events\<rparr>"

definition controlCommand :: "string \<Rightarrow> server \<Rightarrow> server" where
  "controlCommand line s = s\<lparr>sv_gen := snd (handleCommand line (sv_gen s)),
     sv_syncs := sv_syncs s + (if isSync line then 1 else 0)\<rparr>"

text \<open>
  A call finishes with what its handler makes of any state of the provider: other calls may have changed that
  state in any way. Its generation is the one that it read when it started.
\<close>

inductive sv_step :: "'s LanguageProvider \<Rightarrow> host_env \<Rightarrow> (string \<Rightarrow> string) \<Rightarrow> Config \<Rightarrow> server \<Rightarrow> server \<Rightarrow> bool"
  for P env quoted cfg where
  start: "req \<in> set (sv_waiting s) \<Longrightarrow> sv_step P env quoted cfg s (startCall req s)"
| finish: "call \<in> set (sv_running s) \<Longrightarrow>
    handleCall P env quoted cfg (rc_gen call) duration c (rc_request call) w = ((reply, events), w') \<Longrightarrow>
    sv_step P env quoted cfg s (finishCall call reply events s)"
| command: "sv_step P env quoted cfg s (controlCommand line s)"

section \<open>Lemmas\<close>

text \<open>What the reply to a request and its event have to do with each other.\<close>

fun consistent :: "tool_request \<Rightarrow> GenerationCounter \<Rightarrow> tool_reply \<Rightarrow> Event \<Rightarrow> bool" where
  "consistent (FindDefinitionCall _) g (DefinitionReply out) ev \<longleftrightarrow>
     fd_Freshness out = Current g \<and> (ev_ResultSize ev, ev_Truncated ev, ev_Err ev) = fd_telemetryFields out"
| "consistent (FindReferencesCall _) g (ReferencesReply out) ev \<longleftrightarrow>
     fr_Freshness out = Current g \<and> (ev_ResultSize ev, ev_Truncated ev, ev_Err ev) = fr_telemetryFields out"
| "consistent (GetOutlineCall _) g (TextReply text) ev \<longleftrightarrow>
     (has_prefix text ''error: '' \<longleftrightarrow> ev_Err ev \<noteq> []) \<and>
     (has_prefix text ''empty: '' \<longleftrightarrow> ev_Err ev = [] \<and> ev_ResultSize ev = 0) \<and>
     (has_prefix text ''file '' \<longleftrightarrow> ev_Err ev = [] \<and> 0 < ev_ResultSize ev)"
| "consistent _ _ _ _ = False"

definition answered :: "Config \<Rightarrow> running_call \<times> tool_reply \<Rightarrow> Event \<Rightarrow> bool" where
  "answered cfg p ev \<longleftrightarrow> ev_Tool ev = toolName (rc_request (fst p)) \<and> ev_Generation ev = rc_gen (fst p) \<and>
     ev_SessionID ev = cfg_SessionID cfg \<and> ev_GraphMode ev = cfg_GraphMode cfg \<and>
     consistent (rc_request (fst p)) (rc_gen (fst p)) (snd p) ev"

lemma toolName_names: "toolName (FindDefinitionCall i) = ''find_definition''" "toolName (FindReferencesCall i) = ''find_references''"
    "toolName (GetOutlineCall f) = ''get_outline''"
  by (simp_all add: NewServer_def)

lemma outlined_nonempty: "outlined_by P env cfg c input w out \<Longrightarrow> go_Symbols out \<noteq> [] \<and> go_Error out = []"
proof -
  assume "outlined_by P env cfg c input w out"
  then obtain symbols signatures where "symbols \<noteq> []" "length signatures = min (nat (Cap cfg)) (length (symbols_of symbols))"
      "go_Symbols out = setSignatures (take (nat (Cap cfg)) (map outline_of (preorder 0 symbols))) signatures" "go_Error out = []"
    unfolding outlined_by_def by blast
  moreover have "symbols_of symbols \<noteq> []"
    using \<open>symbols \<noteq> []\<close> by (cases symbols) (metis list.distinct(1) SymbolNode.exhaust symbols_of_simps(2))+
  ultimately have "length (go_Symbols out) = min (nat (Cap cfg)) (length (symbols_of symbols))" "0 < length (symbols_of symbols)" "go_Error out = []"
    by (simp_all add: setSignatures_def symbols_of_def)
  moreover from this(1,2) have "0 < length (go_Symbols out)" using Cap_nat(1) [of cfg] by (simp only: min_less_iff_conj)
  ultimately show ?thesis by blast
qed

lemma render_kinds:
  "has_prefix (FileLine f @ s) ''file ''" "\<not> has_prefix (FileLine f @ s) ''error: ''" "\<not> has_prefix (FileLine f @ s) ''empty: ''"
  "has_prefix (render_Error m) ''error: ''" "\<not> has_prefix (render_Error m) ''file ''" "\<not> has_prefix (render_Error m) ''empty: ''"
  "has_prefix (Empty m) ''empty: ''" "\<not> has_prefix (Empty m) ''error: ''" "\<not> has_prefix (Empty m) ''file ''"
  by (simp_all add: FileLine_def render_Error_def Empty_def)

lemma handleCall_answered:
  assumes "handleCall P env quoted cfg (rc_gen call) duration c (rc_request call) w = ((reply, events), w')"
  shows "\<exists>ev. events = [ev] \<and> answered cfg (call, reply) ev"
proof (cases "rc_request call")
  case (FindDefinitionCall inp)
  then obtain out where "FindDefinition P env quoted cfg (rc_gen call) duration c inp w = ((out, events), w')" "reply = DefinitionReply out"
    using assms by (auto simp: handleCall_def findDefinitionHandler_def split: prod.splits)
  from FindDefinition_frame [OF this(1)] this(2) FindDefinitionCall show ?thesis
    by (auto simp: logged_def answered_def toolName_names simp del: toolName.simps)
next
  case (FindReferencesCall inp)
  then obtain out where "FindReferences P env quoted cfg (rc_gen call) duration c inp w = ((out, events), w')" "reply = ReferencesReply out"
    using assms by (auto simp: handleCall_def findReferencesHandler_def split: prod.splits)
  from FindReferences_frame [OF this(1)] this(2) FindReferencesCall show ?thesis
    by (auto simp: logged_def answered_def toolName_names simp del: toolName.simps)
next
  case (GetOutlineCall input)
  then obtain out where out: "GetOutline P env cfg (rc_gen call) duration c input w = ((out, events), w')" "reply = TextReply (RenderOutline out)"
    using assms by (auto simp: handleCall_def getOutlineHandler_def split: prod.splits)
  from GetOutline_frame [OF out(1)] obtain ev where ev: "events = [ev]" "ev_Tool ev = ''get_outline''" "ev_Generation ev = rc_gen call"
      "ev_SessionID ev = cfg_SessionID cfg" "ev_GraphMode ev = cfg_GraphMode cfg"
      "ev_ResultSize ev = int (length (go_Symbols out))" "ev_Err ev = go_Error out"
    by (auto simp: logged_def go_telemetryFields_def)
  have sizes: "go_Found out \<Longrightarrow> go_Symbols out \<noteq> [] \<and> go_Error out = []" "\<not> go_Found out \<Longrightarrow> go_Symbols out = []"
    using GetOutline_cases [OF out(1)] outlined_nonempty by blast+
  have "consistent (GetOutlineCall input) (rc_gen call) (TextReply (RenderOutline out)) ev"
    using sizes ev(6,7) by (cases "go_Found out") (auto simp: RenderOutline_def render_kinds)
  then show ?thesis using ev out(2) GetOutlineCall by (simp add: answered_def toolName_names del: toolName.simps)
qed

text \<open>In every reachable state the replies and the events go in pairs, and every generation is the start plus the syncs.\<close>

definition stamped_call :: "GenerationCounter \<Rightarrow> nat \<Rightarrow> running_call \<Rightarrow> bool" where
  "stamped_call g n call \<longleftrightarrow> rc_gen call = g + of_nat (rc_syncs call) \<and> rc_syncs call \<le> n"

definition sv_inv :: "Config \<Rightarrow> GenerationCounter \<Rightarrow> tool_request list \<Rightarrow> server \<Rightarrow> bool" where
  "sv_inv cfg g requests s \<longleftrightarrow> list_all2 (answered cfg) (sv_done s) (sv_events s) \<and> sv_gen s = g + of_nat (sv_syncs s) \<and>
     (\<forall>call \<in> set (sv_running s). stamped_call g (sv_syncs s) call) \<and>
     (\<forall>p \<in> set (sv_done s). stamped_call g (sv_syncs s) (fst p)) \<and>
     mset (sv_waiting s) + mset (map rc_request (sv_running s)) + mset (map (rc_request \<circ> fst) (sv_done s)) = mset requests"

lemma stamped_call_mono: "stamped_call g n call \<Longrightarrow> n \<le> m \<Longrightarrow> stamped_call g m call"
  by (auto simp: stamped_call_def)

lemma sv_inv_step:
  assumes "sv_step P env quoted cfg s s'" "sv_inv cfg g requests s"
  shows "sv_inv cfg g requests s'"
  using assms
proof (induction rule: sv_step.induct)
  case (start req s)
  then show ?case by (auto simp: sv_inv_def startCall_def stamped_call_def)
next
  case (finish call s duration c w reply events w')
  obtain ev where ev: "events = [ev]" "answered cfg (call, reply) ev" using handleCall_answered [OF finish(2)] by blast
  have "stamped_call g (sv_syncs s) call" using finish(1,3) unfolding sv_inv_def by blast
  moreover have "mset (map rc_request (sv_running s)) = add_mset (rc_request call) (mset (map rc_request (remove1 call (sv_running s))))"
    using finish(1) by (simp add: image_mset_add_mset [symmetric] del: image_mset_add_mset)
  ultimately show ?case using finish(3) ev
    by (auto simp: sv_inv_def finishCall_def list_all2_appendI dest: notin_set_remove1 set_mp [OF set_remove1_subset])
next
  case (command s line)
  then show ?case
    by (auto simp: sv_inv_def controlCommand_def handleCommand_eq add.assoc intro: stamped_call_mono)
qed

section \<open>Properties\<close>


section \<open>Witnesses\<close>

text \<open>An outline that starts after a first sync and ends after a second one.\<close>

definition outline_reply :: tool_reply where
  "outline_reply = TextReply (render_Error (invalidFileMessage @ '': '' @ invalidFileError))"

definition served_call :: running_call where
  "served_call = \<lparr>rc_request = GetOutlineCall ''a'', rc_gen = 6, rc_syncs = 1\<rparr>"

definition outline_event :: Event where
  "outline_event = \<lparr>ev_SessionID = ''s'', ev_GraphMode = ''graph'', ev_Tool = ''get_outline'', ev_DurationMs = 3,
    ev_ResultSize = 0, ev_Truncated = False, ev_Stale = False, ev_Generation = 6, ev_Err = invalidFileError\<rparr>"

definition served :: server where
  "served = \<lparr>sv_gen = 7, sv_waiting = [], sv_running = [], sv_done = [(served_call, outline_reply)], sv_events = [outline_event], sv_syncs = 2\<rparr>"

lemma served_run: "(sv_step (stub_provider sample_stub :: unit LanguageProvider) ubuntu_env (\<lambda>s. s) sample_config)\<^sup>*\<^sup>* (serving 5 [GetOutlineCall ''a'']) served"
proof -
  let ?step = "sv_step (stub_provider sample_stub :: unit LanguageProvider) ubuntu_env (\<lambda>s. s) sample_config"
  let ?a = "serving 5 [GetOutlineCall ''a'']"
  let ?b = "controlCommand ''sync'' ?a"
  let ?c = "startCall (GetOutlineCall ''a'') ?b"
  let ?d = "controlCommand ''sync'' ?c"
  have call: "sv_running ?d = [served_call]"
    by (simp add: controlCommand_def startCall_def serving_def served_call_def sync_command handleCommand_eq)
  have handled: "handleCall (stub_provider sample_stub) ubuntu_env (\<lambda>s. s) sample_config (rc_gen served_call) 3 background (rc_request served_call) (0, ())
      = ((outline_reply, [outline_event]), (0, ()))"
  proof -
    have "\<not> isOk (Canonicalize ubuntu_env ''a'')" by code_simp
    then have "validateFile ubuntu_env ''a'' = Inl (invalidFileError, invalidFileMessage)" by (cases "Canonicalize ubuntu_env ''a''") (simp_all add: validateFile_def)
    moreover have "invalidFileError \<noteq> []" by (simp add: invalidFileError_def)
    ultimately show ?thesis
      by (simp add: handleCall_def served_call_def getOutlineHandler_def GetOutline_def runTool_def getOutlineBody_def go_setFreshness_def
          go_zero_def go_telemetryFields_def Current_def RenderOutline_def outline_reply_def outline_event_def sample_config_def)
  qed
  have a: "?step ?a ?b" by (rule sv_step.command)
  have b: "?step ?b ?c" by (rule sv_step.start) (simp add: controlCommand_def serving_def)
  have c: "?step ?c ?d" by (rule sv_step.command)
  have d: "?step ?d (finishCall served_call outline_reply [outline_event] ?d)" by (rule sv_step.finish [OF _ handled]) (simp add: call)
  have e: "finishCall served_call outline_reply [outline_event] ?d = served"
    using call by (simp add: finishCall_def served_def) (simp add: controlCommand_def startCall_def serving_def sync_command handleCommand_eq)
  show ?thesis
    by (rule converse_rtranclp_into_rtranclp [of ?step, OF a], rule converse_rtranclp_into_rtranclp [of ?step, OF b],
        rule converse_rtranclp_into_rtranclp [of ?step, OF c], rule r_into_rtranclp [of ?step, OF d [unfolded e]])
qed


end
