(* ===== verification/Control_Peer.thy ===== *)
theory Control_Peer
  imports Control_Socket
begin

text \<open>
  Who may use the control socket (\<^verbatim>\<open>src/internal/mcp/control_platform_linux.go\<close>, \<^verbatim>\<open>control_platform_bsd.go\<close>,
  \<^verbatim>\<open>control_platform_unsupported.go\<close>): the check of the credentials of a peer, and what a socket does for
  a peer that fails it. What the kernel answers is a parameter.
\<close>

section \<open>Credentials\<close>

text \<open>
  A peer as the system calls show it: whether its connection is a Unix connection, the errors on the way to its
  credentials, and its user, if the kernel gives one.
\<close>

record peer =
  pr_unix :: bool
  pr_syscallConn :: "string option"
  pr_control :: "string option"
  pr_credErr :: "string option"
  pr_uid :: "32 word option"

text \<open>The effective user is converted to 32 bits before the comparison. The BSD variant differs in the socket option only.\<close>

definition authorizeControlPeer :: "int \<Rightarrow> peer \<Rightarrow> string option" where
  "authorizeControlPeer euid p =
     (if \<not> pr_unix p then Some ''control connection is not a unix connection''
      else case pr_syscallConn p of
        Some err \<Rightarrow> Some err
      | None \<Rightarrow>
     (case pr_control p of
        Some err \<Rightarrow> Some err
      | None \<Rightarrow>
     (case pr_credErr p of
        Some err \<Rightarrow> Some err
      | None \<Rightarrow>
     (case pr_uid p of
        None \<Rightarrow> Some ''control peer credentials are unavailable''
      | Some uid \<Rightarrow>
          if uid \<noteq> word_of_int euid then Some (''control peer uid '' @ itoa (uint uid) @ '' is not authorized'') else None))))"

definition authorizeControlPeer_bsd :: "int \<Rightarrow> peer \<Rightarrow> string option" where
  "authorizeControlPeer_bsd = authorizeControlPeer"

definition authorizeControlPeer_unsupported :: "peer \<Rightarrow> string option" where
  "authorizeControlPeer_unsupported p = Some ''control peer authorization is not supported on this platform''"

text \<open>A client of the socket: its peer, whether it keeps the connection open, and what it sends.\<close>

definition clientsOf :: "(peer \<Rightarrow> string option) \<Rightarrow> (peer \<times> bool \<times> string) list \<Rightarrow> (bool \<times> bool \<times> string) list" where
  "clientsOf authorize = map (\<lambda>(p, hangs, input). (authorize p = None, hangs, input))"

section \<open>Lemmas\<close>

lemma authorized_uid: "authorizeControlPeer euid p = None \<Longrightarrow> pr_uid p = Some (word_of_int euid)"
  by (auto simp: authorizeControlPeer_def split: if_splits option.splits)

text \<open>Connections keep the order and the authorization of the clients; one that is not authorized is refused and left alone.\<close>

definition ignored :: "conn \<Rightarrow> bool" where
  "ignored cn \<longleftrightarrow> cn_pc cn = Refused \<and> cn_closed cn \<and> cn_lines cn = [] \<and> cn_replies cn = []"

definition peer_inv :: "bool list \<Rightarrow> control \<Rightarrow> bool" where
  "peer_inv auths s \<longleftrightarrow> map cn_authorized (cs_conns s @ cs_backlog s) = auths \<and>
     (\<forall>cn \<in> set (cs_conns s). \<not> cn_authorized cn \<longrightarrow> ignored cn) \<and>
     (\<forall>cn \<in> set (cs_backlog s). cn_lines cn = [] \<and> cn_replies cn = []) \<and>
     (\<forall>i g. (i, g) \<in> set (cs_bumps s) \<longrightarrow> i < length (cs_conns s) \<and> cn_authorized (cs_conns s ! i)) \<and>
     (\<forall>i. cs_accept s = Admitted i \<longrightarrow> i < length (cs_conns s) \<and> cn_authorized (cs_conns s ! i))"

lemma peer_inv_start: "peer_inv (map fst clients) (NewControlSocket g clients)"
  by (auto simp: peer_inv_def NewControlSocket_def client_def o_def case_prod_beta)

text \<open>Replacing an authorized connection by an authorized one.\<close>

lemma peer_inv_set:
  assumes "peer_inv auths s" "i < length (cs_conns s)" "cn_authorized (cs_conns s ! i)" "cn_authorized (cs_conns s' ! i)"
    and "cs_conns s' = (cs_conns s)[i := cs_conns s' ! i]" "cs_backlog s' = cs_backlog s"
    and "set (cs_bumps s') \<subseteq> set (cs_bumps s) \<union> {i} \<times> UNIV" "\<forall>j. cs_accept s' = Admitted j \<longrightarrow> cs_accept s = Admitted j"
  shows "peer_inv auths s'"
proof -
  obtain cn where cn: "cn_authorized cn" "cs_conns s' = (cs_conns s)[i := cn]" using assms(4,5) by blast
  have "map cn_authorized (cs_conns s') = map cn_authorized (cs_conns s)"
    using assms(2,3) cn list_update_id [of "map cn_authorized (cs_conns s)" i] by (simp add: map_update)
  moreover have "ignored c" if "c \<in> set (cs_conns s')" "\<not> cn_authorized c" for c
    using that assms(1) cn set_update_subset_insert [of "cs_conns s" i cn] by (auto simp: peer_inv_def)
  moreover have "j < length (cs_conns s') \<and> cn_authorized (cs_conns s' ! j)" if "j < length (cs_conns s) \<and> cn_authorized (cs_conns s ! j)" for j
    using that cn by (cases "i = j") auto
  ultimately show ?thesis using assms(1,2,3,6,7,8) unfolding peer_inv_def by (simp, blast)
qed

lemma working_authorized:
  assumes "peer_inv auths s" "i < length (cs_conns s)" "cn_pc (cs_conns s ! i) \<noteq> Refused"
  shows "cn_authorized (cs_conns s ! i)"
  using assms nth_mem [OF assms(2)] unfolding peer_inv_def ignored_def by blast

lemma peer_inv_step:
  assumes "cs_step s s'" "peer_inv auths s"
  shows "peer_inv auths s'"
  using assms
proof (induction rule: cs_step.induct)
  case (accept s cn rest)
  then show ?case by (auto simp: peer_inv_def nth_append)
next
  case (refuse s cn rest)
  then show ?case by (auto simp: peer_inv_def nth_append ignored_def)
next
  case (accept_err s)
  then show ?case by (auto simp: peer_inv_def)
next
  case (serve s i)
  then have i: "i < length (cs_conns s)" "cn_authorized (cs_conns s ! i)" by (auto simp: peer_inv_def)
  show ?case by (rule peer_inv_set [OF serve.prems i]) (use i in \<open>auto split: if_splits\<close>)
next
  case (late s i)
  then have i: "i < length (cs_conns s)" "cn_authorized (cs_conns s ! i)" by (auto simp: peer_inv_def)
  show ?case by (rule peer_inv_set [OF late.prems i]) (use i in \<open>auto split: if_splits\<close>)
next
  case (blank s i tok rest)
  then have i: "i < length (cs_conns s)" "cn_authorized (cs_conns s ! i)" using working_authorized by auto
  show ?case by (rule peer_inv_set [OF blank.prems i]) (use i in \<open>auto split: if_splits\<close>)
next
  case (command s i tok rest line)
  then have i: "i < length (cs_conns s)" "cn_authorized (cs_conns s ! i)" using working_authorized by auto
  show ?case by (rule peer_inv_set [OF command.prems i]) (use i in \<open>auto split: if_splits\<close>)
next
  case (write_err s i tok rest line)
  then have i: "i < length (cs_conns s)" "cn_authorized (cs_conns s ! i)" using working_authorized by auto
  show ?case by (rule peer_inv_set [OF write_err.prems i]) (use i in \<open>auto split: if_splits\<close>)
next
  case (hangup s i)
  then have i: "i < length (cs_conns s)" "cn_authorized (cs_conns s ! i)" using working_authorized by auto
  show ?case by (rule peer_inv_set [OF hangup.prems i]) (use i in \<open>auto split: if_splits\<close>)
next
  case (leave s i)
  then have i: "i < length (cs_conns s)" "cn_authorized (cs_conns s ! i)" using working_authorized by auto
  show ?case by (rule peer_inv_set [OF leave.prems i]) (use i in \<open>auto split: if_splits\<close>)
next
  case (close_listener s)
  then show ?case by (auto simp: peer_inv_def)
next
  case (close_conns s arrived)
  have auth: "map cn_authorized (cs_conns (closeAll arrived s)) = map cn_authorized (cs_conns s)"
    by (intro nth_equalityI) (auto simp: closeAll_def closeConn_def)
  have "ignored (closeConn n cn) \<longleftrightarrow> ignored cn \<or> ignored (closeConn n cn)" for n cn by (auto simp: ignored_def closeConn_def)
  then have "ignored cn" if "cn \<in> set (cs_conns (closeAll arrived s))" "\<not> cn_authorized cn" for cn
    using that close_conns.prems by (auto simp: closeAll_def closeConn_def peer_inv_def ignored_def)
  moreover have "cn_authorized (cs_conns (closeAll arrived s) ! i)" if "i < length (cs_conns s)" "cn_authorized (cs_conns s ! i)" for i
    using that auth by (metis length_map nth_map)
  ultimately show ?case using close_conns.prems auth unfolding peer_inv_def by (auto simp: closeAll_def)
qed

section \<open>Properties\<close>

text \<open>C11: a process of another user gets nothing from the control socket: however the connections interleave, a connection whose peer
  does not have the daemon's effective user is closed without a reply, none of its commands is run
  and it never bumps the generation.\<close>

theorem foreign_peers_ignored:
  assumes "cs_step\<^sup>*\<^sup>* (NewControlSocket g (clientsOf (authorizeControlPeer euid) peers)) s"
    and "i < length (cs_conns s)" "pr_uid (fst (peers ! i)) \<noteq> Some (word_of_int euid)"
  shows "ignored (cs_conns s ! i) \<and> i \<notin> fst ` set (cs_bumps s)"
proof -
  let ?auths = "map fst (clientsOf (authorizeControlPeer euid) peers)"
  have inv: "peer_inv ?auths s" using assms(1)
  proof (induction rule: rtranclp_induct)
    case base
    show ?case by (rule peer_inv_start)
  qed (use peer_inv_step in blast)
  have auths: "?auths = map (\<lambda>p. authorizeControlPeer euid (fst p) = None) peers" by (simp add: clientsOf_def case_prod_beta)
  have "map cn_authorized (cs_conns s @ cs_backlog s) = ?auths" using inv by (simp add: peer_inv_def)
  moreover from arg_cong [OF this, of length] have len: "length (cs_conns s) + length (cs_backlog s) = length peers" by (simp add: auths)
  ultimately have "map cn_authorized (cs_conns s @ cs_backlog s) ! i = ?auths ! i" by simp
  with len have "cn_authorized (cs_conns s ! i) = (authorizeControlPeer euid (fst (peers ! i)) = None)"
    using assms(2) unfolding auths by (simp add: nth_append)
  then have "\<not> cn_authorized (cs_conns s ! i)" using authorized_uid assms(3) by blast
  then show ?thesis using inv nth_mem [OF assms(2)] unfolding peer_inv_def by force
qed

section \<open>Witnesses\<close>

definition stranger :: peer where
  "stranger = \<lparr>pr_unix = True, pr_syscallConn = None, pr_control = None, pr_credErr = None, pr_uid = Some 1000\<rparr>"

theorem foreign_peers_ignored_witness:
  "\<exists>s. cs_step\<^sup>*\<^sup>* (NewControlSocket 0 (clientsOf (authorizeControlPeer 501) [(stranger, True, ''sync'' @ [newline])])) s \<and>
     length (cs_conns s) = 1 \<and> ignored (cs_conns s ! 0) \<and> 0 \<notin> fst ` set (cs_bumps s)"
proof -
  let ?a = "NewControlSocket 0 (clientsOf (authorizeControlPeer 501) [(stranger, True, ''sync'' @ [newline])])"
  let ?cn = "client False True (''sync'' @ [newline])"
  let ?b = "?a\<lparr>cs_backlog := [], cs_conns := cs_conns ?a @ [?cn\<lparr>cn_closed := True, cn_pc := Refused\<rparr>]\<rparr>"
  have "cs_backlog ?a = [?cn]" by (simp add: NewControlSocket_def clientsOf_def authorizeControlPeer_def stranger_def)
  then have "cs_step ?a ?b" by (intro cs_step.refuse) (simp_all add: NewControlSocket_def client_def)
  then have run: "cs_step\<^sup>*\<^sup>* ?a ?b" by (rule r_into_rtranclp [of cs_step])
  have i: "0 < length (cs_conns ?b)" "pr_uid (fst ([(stranger, True, ''sync'' @ [newline])] ! 0)) \<noteq> Some (word_of_int 501)"
    by (simp_all add: stranger_def)
  show ?thesis
    by (intro exI [of _ ?b] conjI run) (use foreign_peers_ignored [OF run i] in \<open>simp_all add: NewControlSocket_def\<close>)
qed

end
