(* ===== verification/Lsp_Open.thy ===== *)
theory Lsp_Open
  imports Lsp_Conversion Transition_Systems
begin

text \<open>
  Opening files on the server (\<^verbatim>\<open>src/internal/lsp/provider.go\<close>: \<^verbatim>\<open>openFile\<close>, \<^verbatim>\<open>ensureOpen\<close> and
  \<^verbatim>\<open>openedSource\<close>). Any number of callers ask for files at the same time; one caller per file is
  elected to read the file and to send its one \<^verbatim>\<open>textDocument/didOpen\<close>, the others wait for the
  transition it publishes. The callers are a step relation: every critical section under the
  provider's mutex is one step, and so is every wake-up.
\<close>

section \<open>Messages\<close>

record textDocumentItem =
  tdi_URI :: string
  tdi_LanguageID :: string
  tdi_Version :: int
  tdi_Text :: string

record initializeParams =
  ip_ProcessID :: int
  ip_RootURI :: string
  ip_HierarchicalDocumentSymbolSupport :: bool
  ip_ContentFormat :: "string list"
  ip_WorkspaceFolders :: "(string \<times> string) list"

datatype params =
    InitializeParams initializeParams
  | NoParams
  | DidOpenParams textDocumentItem
  | TextDocumentPositionParams string lspPosition
  | ReferenceParams string lspPosition bool
  | DocumentSymbolParams string

section \<open>The connection a provider works on\<close>

text \<open>
  A call runs under its context in a world: the number of context polls made so far and the
  state of the connection and the file system. An \<^typ>\<open>lsp_error\<close> stands for the error at the root of
  a wrapped chain, which is what \<^verbatim>\<open>errors.Is\<close> looks for.
\<close>

type_synonym ('s, 'a) lsp_call = "ctx \<Rightarrow> 's world \<Rightarrow> (lsp_error + 'a) \<times> 's world"

record 's connection =
  conn_call :: "string \<Rightarrow> params \<Rightarrow> ('s, string) lsp_call"
  conn_notify :: "string \<Rightarrow> params \<Rightarrow> ('s, unit) lsp_call"
  conn_readFile :: "string \<Rightarrow> 's \<Rightarrow> lsp_error + string"
  conn_unavailable :: "'s \<Rightarrow> nat \<Rightarrow> lsp_error option"
  conn_isOpen :: "'s \<Rightarrow> nat \<Rightarrow> bool"

section \<open>Opening one file\<close>

text \<open>\<^verbatim>\<open>filepath.Ext\<close>: the suffix from the last dot of the last element.\<close>

fun ext_from :: "string \<Rightarrow> string \<Rightarrow> string" where
  "ext_from found [] = found"
| "ext_from found (b # s) =
     (if b = slash then ext_from [] s else if b = CHR ''.'' then ext_from (b # s) s else ext_from found s)"

text \<open>
  \<^verbatim>\<open>strings.ToLower\<close> can differ from the ASCII lowering only on an extension with a byte beyond ASCII;
  the two lower to none of the extensions below then, as no letter outside ASCII lowers to one of theirs.
\<close>

definition languageIDForFile :: "string \<Rightarrow> string" where
  "languageIDForFile path =
     (let ext = map asciiToLower (ext_from [] path) in
      if ext = ''.tsx'' then ''typescriptreact''
      else if ext = ''.jsx'' then ''javascriptreact''
      else if ext \<in> set [''.js'', ''.mjs'', ''.cjs''] then ''javascript''
      else ''typescript'')"

definition readFileContext :: "'s connection \<Rightarrow> string \<Rightarrow> ('s, string) lsp_call" where
  "readFileContext t path c w =
     (case w of (n, s) \<Rightarrow>
      (case runFiniteWork c (Some (conn_unavailable t s)) (\<lambda>n. (conn_readFile t path s, n)) n of
         (r, n') \<Rightarrow> (r, (n', s))))"

definition retryableOpenError :: "'s connection \<Rightarrow> ctx \<Rightarrow> lsp_error \<Rightarrow> 's world \<Rightarrow> bool" where
  "retryableOpenError t c err w =
     (case w of (n, s) \<Rightarrow>
      (case ctx_err c n of None \<Rightarrow> False | Some e \<Rightarrow> err = Canceled e \<and> conn_isOpen t s n))"

definition openFile ::
  "'s connection \<Rightarrow> host_env \<Rightarrow> ctx \<Rightarrow> string \<Rightarrow> 's world \<Rightarrow> (string \<times> lsp_error option \<times> bool) \<times> 's world" where
  "openFile t env c canonicalFile w =
     (case PathToURI env canonicalFile of
        Inl e \<Rightarrow> (([], Some (BadPath canonicalFile e), False), w)
      | Inr uri \<Rightarrow>
     (case readFileContext t canonicalFile c w of
        (Inl e, w1) \<Rightarrow> (([], Some e, retryableOpenError t c e w1), (Suc (fst w1), snd w1))
      | (Inr text, w1) \<Rightarrow>
     (case conn_notify t ''textDocument/didOpen''
         (DidOpenParams \<lparr>tdi_URI = uri, tdi_LanguageID = languageIDForFile canonicalFile, tdi_Version = 1, tdi_Text = text\<rparr>) c w1 of
        (Inl e, w2) \<Rightarrow> (([], Some e, retryableOpenError t c e w2), (Suc (fst w2), snd w2))
      | (Inr _, w2) \<Rightarrow> ((text, None, False), w2))))"

section \<open>Electing one opener\<close>

record openTransition =
  ot_done :: bool
  ot_source :: string
  ot_err :: "lsp_error option"
  ot_retryable :: bool

text \<open>Where a caller of \<open>ensureOpen\<close> stands; \<open>Waiting\<close> and the two after it hold the transition they work on.\<close>

datatype open_pc =
    Looping
  | Locking
  | Waiting nat
  | Opening nat
  | Publishing nat string "lsp_error option" bool
  | Returned "lsp_error option"

record caller =
  cl_file :: string
  cl_pc :: open_pc
  cl_canceled :: bool

record open_state =
  op_transitions :: "openTransition list"
  op_files :: "string \<rightharpoonup> nat"
  op_callers :: "caller list"
  op_opened :: "string list"

definition set_pc :: "nat \<Rightarrow> open_pc \<Rightarrow> open_state \<Rightarrow> open_state" where
  "set_pc k pc s = s\<lparr>op_callers := (op_callers s)[k := (op_callers s ! k)\<lparr>cl_pc := pc\<rparr>]\<rparr>"

abbreviation (input) "at s k pc \<equiv> k < length (op_callers s) \<and> cl_pc (op_callers s ! k) = pc"
abbreviation (input) "file_of s k \<equiv> cl_file (op_callers s ! k)"

definition elect :: "nat \<Rightarrow> open_state \<Rightarrow> open_state" where
  "elect k s =
     (case op_files s (file_of s k) of
        None \<Rightarrow> set_pc k (Opening (length (op_transitions s)))
          (s\<lparr>op_transitions := op_transitions s @ [\<lparr>ot_done = False, ot_source = [], ot_err = None, ot_retryable = False\<rparr>],
             op_files := (op_files s)(file_of s k \<mapsto> length (op_transitions s))\<rparr>)
      | Some i \<Rightarrow> set_pc k (Waiting i) s)"

definition publish :: "nat \<Rightarrow> nat \<Rightarrow> string \<Rightarrow> lsp_error option \<Rightarrow> bool \<Rightarrow> open_state \<Rightarrow> open_state" where
  "publish k i source err retryable s =
     set_pc k (Returned err)
       (s\<lparr>op_transitions := (op_transitions s)[i := \<lparr>ot_done = True, ot_source = source, ot_err = err, ot_retryable = retryable\<rparr>],
          op_files := (if err \<noteq> None then (op_files s)(file_of s k := None) else op_files s)\<rparr>)"

definition openedSource :: "open_state \<Rightarrow> string \<Rightarrow> string option" where
  "openedSource s canonicalFile =
     (case op_files s canonicalFile of
        None \<Rightarrow> None
      | Some i \<Rightarrow>
          if ot_err (op_transitions s ! i) \<noteq> None then None
          else if ot_done (op_transitions s ! i) then Some (ot_source (op_transitions s ! i)) else None)"

text \<open>
  \<open>opens f r\<close> says that opening \<open>f\<close> may have the outcome \<open>r\<close>; \<open>cause k\<close> is the text of the error of
  caller \<open>k\<close>'s context. A caller's context may be canceled at any moment; a waiting caller whose
  context is canceled while its transition is done takes either way, as \<^verbatim>\<open>select\<close> does.
  \<open>op_opened\<close> records the files whose \<^verbatim>\<open>didOpen\<close> was sent.
\<close>

inductive open_step ::
  "(string \<Rightarrow> string \<times> lsp_error option \<times> bool \<Rightarrow> bool) \<Rightarrow> (nat \<Rightarrow> string) \<Rightarrow> open_state \<Rightarrow> open_state \<Rightarrow> bool"
  for opens :: "string \<Rightarrow> string \<times> lsp_error option \<times> bool \<Rightarrow> bool" and cause :: "nat \<Rightarrow> string" where
  cancel: "k < length (op_callers s) \<Longrightarrow> \<not> cl_canceled (op_callers s ! k) \<Longrightarrow>
    open_step opens cause s (s\<lparr>op_callers := (op_callers s)[k := (op_callers s ! k)\<lparr>cl_canceled := True\<rparr>]\<rparr>)"
| check: "at s k Looping \<Longrightarrow> \<not> cl_canceled (op_callers s ! k) \<Longrightarrow> open_step opens cause s (set_pc k Locking s)"
| check_canceled: "at s k Looping \<Longrightarrow> cl_canceled (op_callers s ! k) \<Longrightarrow>
    open_step opens cause s (set_pc k (Returned (Some (Canceled (cause k)))) s)"
| lock: "at s k Locking \<Longrightarrow> open_step opens cause s (elect k s)"
| wake: "at s k (Waiting i) \<Longrightarrow> ot_done (op_transitions s ! i) \<Longrightarrow>
    open_step opens cause s
      (set_pc k (if ot_retryable (op_transitions s ! i) then Looping else Returned (ot_err (op_transitions s ! i))) s)"
| wake_canceled: "at s k (Waiting i) \<Longrightarrow> cl_canceled (op_callers s ! k) \<Longrightarrow>
    open_step opens cause s (set_pc k (Returned (Some (Canceled (cause k)))) s)"
| opened: "at s k (Opening i) \<Longrightarrow> opens (file_of s k) (source, err, retryable) \<Longrightarrow>
    open_step opens cause s (set_pc k (Publishing i source err retryable)
      (s\<lparr>op_opened := (if err = None then op_opened s @ [file_of s k] else op_opened s)\<rparr>))"
| published: "at s k (Publishing i source err retryable) \<Longrightarrow>
    open_step opens cause s (publish k i source err retryable s)"

definition open_start :: "string list \<Rightarrow> open_state" where
  "open_start files = \<lparr>op_transitions = [], op_files = Map.empty,
     op_callers = map (\<lambda>f. \<lparr>cl_file = f, cl_pc = Looping, cl_canceled = False\<rparr>) files, op_opened = []\<rparr>"

text \<open>The outcomes that \<open>openFile\<close> has for some context in some world.\<close>

definition openFile_outcome :: "'s connection \<Rightarrow> host_env \<Rightarrow> string \<Rightarrow> string \<times> lsp_error option \<times> bool \<Rightarrow> bool" where
  "openFile_outcome t env canonicalFile r \<longleftrightarrow> (\<exists>c w w'. openFile t env c canonicalFile w = (r, w'))"

lemma openFile_ok:
  assumes "openFile t env c f w = ((source, None, retryable), w')"
  shows "\<not> retryable"
  using assms by (auto simp: openFile_def split: sum.splits prod.splits)

lemma openFile_outcome_ok: "openFile_outcome t env f (source, None, retryable) \<Longrightarrow> \<not> retryable"
  unfolding openFile_outcome_def using openFile_ok by blast

lemma openFile_outcome_total: "\<exists>source err retryable. openFile_outcome t env f (source, err, retryable)"
  unfolding openFile_outcome_def by (metis prod_cases3 surj_pair)

section \<open>The invariant\<close>

definition holds_open :: "caller \<Rightarrow> nat \<Rightarrow> bool" where
  "holds_open cl i \<longleftrightarrow> (case cl_pc cl of Opening j \<Rightarrow> j = i | Publishing j _ _ _ \<Rightarrow> j = i | _ \<Rightarrow> False)"

text \<open>An entry of the map is either published as a success or held by exactly one caller of its file.\<close>

definition entries_ok :: "open_state \<Rightarrow> bool" where
  "entries_ok s \<longleftrightarrow> (\<forall>f i. op_files s f = Some i \<longrightarrow> i < length (op_transitions s) \<and>
     (if ot_done (op_transitions s ! i)
      then ot_err (op_transitions s ! i) = None \<and> \<not> ot_retryable (op_transitions s ! i) \<and> f \<in> set (op_opened s)
      else \<exists>k < length (op_callers s). holds_open (op_callers s ! k) i \<and> file_of s k = f))"

definition holders_ok :: "open_state \<Rightarrow> bool" where
  "holders_ok s \<longleftrightarrow>
     (\<forall>k < length (op_callers s). \<forall>i. holds_open (op_callers s ! k) i \<longrightarrow>
        i < length (op_transitions s) \<and> \<not> ot_done (op_transitions s ! i) \<and> op_files s (file_of s k) = Some i) \<and>
     (\<forall>k < length (op_callers s). \<forall>l < length (op_callers s). \<forall>i.
        holds_open (op_callers s ! k) i \<longrightarrow> holds_open (op_callers s ! l) i \<longrightarrow> k = l)"

definition waiters_ok :: "open_state \<Rightarrow> bool" where
  "waiters_ok s \<longleftrightarrow>
     (\<forall>k < length (op_callers s). \<forall>i. cl_pc (op_callers s ! k) = Waiting i \<longrightarrow> i < length (op_transitions s) \<and>
        (op_files s (file_of s k) = Some i \<or> ot_done (op_transitions s ! i) \<and> ot_err (op_transitions s ! i) \<noteq> None)) \<and>
     (\<forall>k < length (op_callers s). cl_pc (op_callers s ! k) = Returned None \<longrightarrow>
        (\<exists>i. op_files s (file_of s k) = Some i \<and> ot_done (op_transitions s ! i)))"

definition opened_ok :: "open_state \<Rightarrow> bool" where
  "opened_ok s \<longleftrightarrow> distinct (op_opened s) \<and>
     (\<forall>f \<in> set (op_opened s). \<exists>i. op_files s f = Some i \<and>
        (ot_done (op_transitions s ! i) \<or>
         (\<exists>k < length (op_callers s). \<exists>source. cl_pc (op_callers s ! k) = Publishing i source None False \<and> file_of s k = f))) \<and>
     (\<forall>k < length (op_callers s). \<forall>i source. cl_pc (op_callers s ! k) \<noteq> Publishing i source None True) \<and>
     (\<forall>k < length (op_callers s). \<forall>i source. cl_pc (op_callers s ! k) = Publishing i source None False \<longrightarrow>
        file_of s k \<in> set (op_opened s))"

definition open_inv :: "string list \<Rightarrow> open_state \<Rightarrow> bool" where
  "open_inv files s \<longleftrightarrow> map cl_file (op_callers s) = files \<and> entries_ok s \<and> holders_ok s \<and> waiters_ok s \<and> opened_ok s"

text \<open>A caller that holds no transition before and after a step, and keeps its file, disturbs nothing.\<close>

lemma holds_open_simps [simp]:
  "holds_open (cl\<lparr>cl_pc := Opening j\<rparr>) i \<longleftrightarrow> j = i"
  "holds_open (cl\<lparr>cl_pc := Publishing j source err retryable\<rparr>) i \<longleftrightarrow> j = i"
  "\<not> holds_open (cl\<lparr>cl_pc := Looping\<rparr>) i" "\<not> holds_open (cl\<lparr>cl_pc := Locking\<rparr>) i"
  "\<not> holds_open (cl\<lparr>cl_pc := Waiting j\<rparr>) i" "\<not> holds_open (cl\<lparr>cl_pc := Returned r\<rparr>) i"
  "holds_open (cl\<lparr>cl_canceled := b\<rparr>) i = holds_open cl i"
  by (simp_all add: holds_open_def)

lemma holds_open_pc:
  "cl_pc cl = Opening j \<Longrightarrow> holds_open cl i \<longleftrightarrow> j = i"
  "cl_pc cl = Publishing j source err retryable \<Longrightarrow> holds_open cl i \<longleftrightarrow> j = i"
  "cl_pc cl = Looping \<Longrightarrow> \<not> holds_open cl i" "cl_pc cl = Locking \<Longrightarrow> \<not> holds_open cl i"
  "cl_pc cl = Waiting j \<Longrightarrow> \<not> holds_open cl i" "cl_pc cl = Returned r \<Longrightarrow> \<not> holds_open cl i"
  by (simp_all add: holds_open_def)

lemmas open_parts = entries_ok_def holders_ok_def waiters_ok_def opened_ok_def

text \<open>A caller that moves between places that hold nothing.\<close>

definition idle_pc :: "open_pc \<Rightarrow> bool" where
  "idle_pc pc \<longleftrightarrow> (case pc of Opening _ \<Rightarrow> False | Publishing _ _ _ _ \<Rightarrow> False | _ \<Rightarrow> True)"

lemma idle_pc_simps [simp]:
  "idle_pc Looping" "idle_pc Locking" "idle_pc (Waiting i)" "idle_pc (Returned r)"
  by (simp_all add: idle_pc_def)

lemma idle_holds: "idle_pc (cl_pc cl) \<Longrightarrow> \<not> holds_open cl i"
  by (auto simp: holds_open_def idle_pc_def split: open_pc.splits)

lemma set_pc_simps [simp]:
  "op_transitions (set_pc k pc s) = op_transitions s" "op_files (set_pc k pc s) = op_files s"
  "op_opened (set_pc k pc s) = op_opened s"
  "op_callers (set_pc k pc s) = (op_callers s)[k := (op_callers s ! k)\<lparr>cl_pc := pc\<rparr>]"
  by (simp_all add: set_pc_def)

lemma map_cl_file_update:
  "cl_file cl = cl_file (cs ! k) \<Longrightarrow> map cl_file (cs[k := cl]) = map cl_file cs"
  by (metis list_update_id map_update)

lemma open_inv_idle_move:
  assumes inv: "open_inv files s" and k: "k < length (op_callers s)"
    and idle: "idle_pc (cl_pc (op_callers s ! k))" "idle_pc pc"
    and wait: "\<And>i. pc = Waiting i \<Longrightarrow> op_files s (file_of s k) = Some i"
    and ret: "pc = Returned None \<Longrightarrow> \<exists>i. op_files s (file_of s k) = Some i \<and> ot_done (op_transitions s ! i)"
  shows "open_inv files (set_pc k pc s)"
proof -
  let ?s = "set_pc k pc s"
  let ?c = "(op_callers s ! k)\<lparr>cl_pc := pc\<rparr>"
  have nh: "\<not> holds_open (op_callers s ! k) i" "\<not> holds_open ?c i" for i using idle idle_holds by auto
  have same: "holds_open (op_callers ?s ! l) i \<longleftrightarrow> holds_open (op_callers s ! l) i" "file_of ?s l = file_of s l"
    "length (op_callers ?s) = length (op_callers s)" if "l < length (op_callers s)" for l i
    using that nh k by (auto simp: nth_list_update)
  have pub: "cl_pc (op_callers ?s ! l) = Publishing i a b r \<longleftrightarrow> cl_pc (op_callers s ! l) = Publishing i a b r"
    if "l < length (op_callers s)" for l i a b r using that idle k by (auto simp: nth_list_update idle_pc_def)
  have "entries_ok ?s" using inv by (simp add: open_inv_def entries_ok_def same [simplified] cong: conj_cong)
  moreover have "holders_ok ?s" using inv by (simp add: open_inv_def holders_ok_def same [simplified] cong: conj_cong)
  moreover have "waiters_ok ?s" using inv wait ret k
    by (auto simp: open_inv_def waiters_ok_def entries_ok_def nth_list_update)
  moreover have "opened_ok ?s"
    using inv by (auto simp: open_inv_def opened_ok_def same [simplified] pub [simplified] cong: conj_cong)
  ultimately show ?thesis using inv by (simp add: open_inv_def map_cl_file_update)
qed

lemma open_inv_cancel:
  assumes inv: "open_inv files s" and k: "k < length (op_callers s)"
  shows "open_inv files (s\<lparr>op_callers := (op_callers s)[k := (op_callers s ! k)\<lparr>cl_canceled := b\<rparr>]\<rparr>)"
proof -
  let ?cs = "(op_callers s)[k := (op_callers s ! k)\<lparr>cl_canceled := b\<rparr>]"
  have same: "cl_pc (?cs ! l) = cl_pc (op_callers s ! l)" "cl_file (?cs ! l) = cl_file (op_callers s ! l)"
    "holds_open (?cs ! l) i = holds_open (op_callers s ! l) i" for l i
    using k by (auto simp: nth_list_update)
  show ?thesis using inv by (auto simp: open_inv_def open_parts map_cl_file_update same)
qed

text \<open>The elected caller: a new transition that only it holds.\<close>

lemma open_inv_elect:
  assumes inv: "open_inv files s" and k: "at s k Locking" and none: "op_files s (file_of s k) = None"
  shows "open_inv files (elect k s)"
proof -
  let ?n = "length (op_transitions s)" and ?s = "elect k s"
  have fields: "op_transitions ?s = op_transitions s @ [\<lparr>ot_done = False, ot_source = [], ot_err = None, ot_retryable = False\<rparr>]"
    "op_files ?s = (op_files s)(file_of s k \<mapsto> ?n)" "op_opened ?s = op_opened s"
    "op_callers ?s = (op_callers s)[k := (op_callers s ! k)\<lparr>cl_pc := Opening ?n\<rparr>]"
    using none by (simp_all add: elect_def)
  have kk: "k < length (op_callers s)" "\<not> holds_open (op_callers s ! k) i" for i
    using k by (auto simp: holds_open_pc)
  have old: "holds_open (op_callers s ! l) i \<Longrightarrow> l < length (op_callers s) \<Longrightarrow> i < ?n" for l i
    using inv by (auto simp: open_inv_def holders_ok_def)
  have caller: "op_callers ?s ! l = (if l = k then (op_callers s ! k)\<lparr>cl_pc := Opening ?n\<rparr> else op_callers s ! l)" for l
    using kk by (simp add: fields nth_list_update)
  have holder: "holds_open (op_callers ?s ! l) i \<longleftrightarrow> (if l = k then i = ?n else holds_open (op_callers s ! l) i)" for l i
    by (auto simp: caller)
  have fl: "file_of ?s l = file_of s l" for l by (simp add: caller)
  have len: "length (op_callers ?s) = length (op_callers s)" by (simp add: fields)
  note inv' = inv [unfolded open_inv_def]
  have "entries_ok ?s"
    unfolding entries_ok_def
  proof (intro allI impI)
    fix f i assume fi: "op_files ?s f = Some i"
    show "i < length (op_transitions ?s) \<and> (if ot_done (op_transitions ?s ! i)
      then ot_err (op_transitions ?s ! i) = None \<and> \<not> ot_retryable (op_transitions ?s ! i) \<and> f \<in> set (op_opened ?s)
      else \<exists>l < length (op_callers ?s). holds_open (op_callers ?s ! l) i \<and> file_of ?s l = f)"
    proof (cases "f = file_of s k")
      case True
      then show ?thesis using fi kk by (auto simp: fields holder [unfolded fields] fl [unfolded fields] intro!: exI [of _ k])
    next
      case False
      then have "op_files s f = Some i" using fi by (simp add: fields)
      with inv' have i: "i < ?n" and e: "if ot_done (op_transitions s ! i)
        then ot_err (op_transitions s ! i) = None \<and> \<not> ot_retryable (op_transitions s ! i) \<and> f \<in> set (op_opened s)
        else \<exists>l < length (op_callers s). holds_open (op_callers s ! l) i \<and> file_of s l = f"
        by (auto simp: entries_ok_def)
      then show ?thesis using kk
        by (auto simp: nth_append len holder fl fields(1,3) split: if_splits) metis
    qed
  qed
  moreover have "holders_ok ?s"
    using inv' none old unfolding holders_ok_def len
    by (auto simp: holder fl fields(1,2) nth_append split: if_splits intro: less_SucI)
  moreover have "waiters_ok ?s"
    using inv' none unfolding waiters_ok_def len
    by (fastforce simp: caller fields(1,2) nth_append entries_ok_def split: if_splits)
  moreover have "opened_ok ?s"
  proof -
    have "op_files s f = Some i \<Longrightarrow> i < ?n" for f i using inv' by (auto simp: entries_ok_def)
    then show ?thesis using inv' none k unfolding opened_ok_def len
      by (fastforce simp: caller fields(1-3) nth_append split: if_splits)
  qed
  ultimately show ?thesis using inv by (simp add: open_inv_def fields(4) map_cl_file_update)
qed

text \<open>The opener reports: the file is recorded as opened exactly when its opening succeeded.\<close>

lemma open_inv_opened:
  assumes inv: "open_inv files s" and k: "at s k (Opening i)" and ok: "err = None \<Longrightarrow> \<not> retryable"
  shows "open_inv files (set_pc k (Publishing i source err retryable)
    (s\<lparr>op_opened := (if err = None then op_opened s @ [file_of s k] else op_opened s)\<rparr>))" (is "open_inv files ?s")
proof -
  have caller: "op_callers ?s ! l =
      (if l = k then (op_callers s ! k)\<lparr>cl_pc := Publishing i source err retryable\<rparr> else op_callers s ! l)" for l
    using k by (simp add: nth_list_update)
  have holder: "holds_open (op_callers ?s ! l) j \<longleftrightarrow> holds_open (op_callers s ! l) j" for l j
    using k unfolding caller by (simp add: holds_open_pc)
  have fl: "file_of ?s l = file_of s l" for l unfolding caller by simp
  have len: "length (op_callers ?s) = length (op_callers s)" by simp
  have rest: "op_transitions ?s = op_transitions s" "op_files ?s = op_files s"
    "op_opened ?s = (if err = None then op_opened s @ [file_of s k] else op_opened s)" by simp_all
  note inv' = inv [unfolded open_inv_def]
  have own: "op_files s (file_of s k) = Some i" "\<not> ot_done (op_transitions s ! i)"
    and only: "\<And>l. l < length (op_callers s) \<Longrightarrow> holds_open (op_callers s ! l) i \<Longrightarrow> l = k"
    using inv' k by (auto simp: holders_ok_def holds_open_pc)
  have new: "file_of s k \<notin> set (op_opened s)"
  proof
    assume "file_of s k \<in> set (op_opened s)"
    then obtain l source' where l: "l < length (op_callers s)" "cl_pc (op_callers s ! l) = Publishing i source' None False"
      using inv' own by (fastforce simp: opened_ok_def)
    then have "l = k" by (intro only) (simp_all add: holds_open_def)
    then show False using l k by simp
  qed
  have "entries_ok ?s" using inv' unfolding entries_ok_def len holder fl rest by auto
  moreover have "holders_ok ?s" using inv' unfolding holders_ok_def len holder fl rest by auto
  moreover have "waiters_ok ?s" using inv' unfolding waiters_ok_def len fl rest unfolding caller by (auto split: if_splits)
  moreover have "opened_ok ?s"
  proof -
    have pub: "cl_pc (op_callers ?s ! l) = Publishing j a None r \<longleftrightarrow>
        (if l = k then j = i \<and> a = source \<and> err = None \<and> r = retryable else cl_pc (op_callers s ! l) = Publishing j a None r)" for l j a r
      unfolding caller by auto
    have keep: "cl_pc (op_callers s ! l) = Publishing j a None r \<Longrightarrow> l \<noteq> k" for l j a r using k by auto
    have "\<exists>j. op_files s f = Some j \<and> (ot_done (op_transitions s ! j) \<or> (\<exists>l < length (op_callers s). \<exists>a.
        cl_pc (op_callers ?s ! l) = Publishing j a None False \<and> file_of s l = f))" if "f \<in> set (op_opened ?s)" for f
    proof (cases "f = file_of s k \<and> err = None")
      case True
      then show ?thesis using own ok k unfolding pub by auto
    next
      case False
      then have "f \<in> set (op_opened s)" using that by (auto split: if_splits)
      then show ?thesis using inv' keep unfolding pub opened_ok_def by metis
    qed
    then show ?thesis using inv' new ok unfolding opened_ok_def len pub fl rest by (auto split: if_splits)
  qed
  ultimately show ?thesis using inv by (simp add: open_inv_def map_cl_file_update)
qed

text \<open>Publishing: a success stays in the map for good, a failure leaves it.\<close>

lemma open_inv_publish:
  assumes inv: "open_inv files s" and k: "at s k (Publishing i source err retryable)"
  shows "open_inv files (publish k i source err retryable s)" (is "open_inv files ?s")
proof -
  let ?f = "file_of s k" and ?t = "\<lparr>ot_done = True, ot_source = source, ot_err = err, ot_retryable = retryable\<rparr>"
  note inv' = inv [unfolded open_inv_def]
  have own: "i < length (op_transitions s)" "op_files s ?f = Some i" "\<not> ot_done (op_transitions s ! i)"
    and only: "\<And>l. l < length (op_callers s) \<Longrightarrow> holds_open (op_callers s ! l) i \<Longrightarrow> l = k"
    using inv' k by (auto simp: holders_ok_def holds_open_pc)
  have inj: "f = ?f" if "op_files s f = Some i" for f
    using inv' that own(3) only unfolding entries_ok_def by metis
  have ok: "err = None \<Longrightarrow> \<not> retryable \<and> ?f \<in> set (op_opened s)"
    using inv' k by (cases retryable) (auto simp: opened_ok_def)
  have caller: "op_callers ?s ! l = (if l = k then (op_callers s ! k)\<lparr>cl_pc := Returned err\<rparr> else op_callers s ! l)" for l
    using k by (simp add: publish_def nth_list_update)
  have holder: "holds_open (op_callers ?s ! l) j \<longleftrightarrow> l \<noteq> k \<and> holds_open (op_callers s ! l) j" for l j
    by (simp add: caller)
  have fl: "file_of ?s l = file_of s l" for l by (simp add: caller)
  have len: "length (op_callers ?s) = length (op_callers s)" "length (op_transitions ?s) = length (op_transitions s)"
    by (simp_all add: publish_def)
  have tr: "op_transitions ?s ! j = (if j = i then ?t else op_transitions s ! j)" for j
    using own(1) by (simp add: publish_def nth_list_update)
  have rest: "op_files ?s = (if err \<noteq> None then (op_files s)(?f := None) else op_files s)" "op_opened ?s = op_opened s"
    by (simp_all add: publish_def)
  have held: "k \<noteq> l" if "holds_open (op_callers s ! l) j" "j \<noteq> i" for l j using that k by (auto simp: holds_open_pc)
  have entry: "op_files ?s f = Some j \<longleftrightarrow> op_files s f = Some j \<and> (f = ?f \<longrightarrow> err = None)" for f j by (simp add: rest)
  have "entries_ok ?s"
    unfolding entries_ok_def
  proof (intro allI impI)
    fix f j assume "op_files ?s f = Some j"
    then have fj: "op_files s f = Some j" "f = ?f \<longrightarrow> err = None" by (simp_all add: entry)
    with inv' have j: "j < length (op_transitions s)" and e: "if ot_done (op_transitions s ! j)
        then ot_err (op_transitions s ! j) = None \<and> \<not> ot_retryable (op_transitions s ! j) \<and> f \<in> set (op_opened s)
        else \<exists>l < length (op_callers s). holds_open (op_callers s ! l) j \<and> file_of s l = f"
      by (auto simp: entries_ok_def)
    show "j < length (op_transitions ?s) \<and> (if ot_done (op_transitions ?s ! j)
      then ot_err (op_transitions ?s ! j) = None \<and> \<not> ot_retryable (op_transitions ?s ! j) \<and> f \<in> set (op_opened ?s)
      else \<exists>l < length (op_callers ?s). holds_open (op_callers ?s ! l) j \<and> file_of ?s l = f)"
    proof (cases "j = i")
      case True
      then have "f = ?f" using inj fj by simp
      then show ?thesis using True fj ok own unfolding tr len rest by simp
    next
      case False
      then show ?thesis using j e held by (auto simp: tr len rest holder fl split: if_splits)
    qed
  qed
  moreover have "holders_ok ?s"
    unfolding holders_ok_def len fl
  proof (intro conjI allI impI)
    fix l j assume l: "l < length (op_callers s)" "holds_open (op_callers ?s ! l) j"
    then have h: "l \<noteq> k" "holds_open (op_callers s ! l) j" by (simp_all add: holder)
    then have held: "j < length (op_transitions s)" "\<not> ot_done (op_transitions s ! j)" "op_files s (file_of s l) = Some j"
      using inv' l(1) by (simp_all add: holders_ok_def)
    have "j \<noteq> i" using only [OF l(1)] h by blast
    moreover from this have "file_of s l \<noteq> ?f" using held(3) own(2) by auto
    ultimately show "j < length (op_transitions s)" "\<not> ot_done (op_transitions ?s ! j)" "op_files ?s (file_of s l) = Some j"
      using held unfolding tr entry by simp_all
  next
    fix l m j assume "l < length (op_callers s)" "m < length (op_callers s)"
      "holds_open (op_callers ?s ! l) j" "holds_open (op_callers ?s ! m) j"
    then show "l = m" using inv' unfolding holder holders_ok_def by blast
  qed
  moreover have "waiters_ok ?s"
    unfolding waiters_ok_def len fl
  proof (intro conjI allI impI)
    fix l j assume l: "l < length (op_callers s)" "cl_pc (op_callers ?s ! l) = Waiting j"
    then have w: "cl_pc (op_callers s ! l) = Waiting j" by (simp add: caller split: if_splits)
    show "j < length (op_transitions s)" using inv' l(1) w by (simp add: waiters_ok_def)
    have "op_files s (file_of s l) = Some j \<or> ot_done (op_transitions s ! j) \<and> ot_err (op_transitions s ! j) \<noteq> None"
      using inv' l(1) w by (simp add: waiters_ok_def)
    then show "op_files ?s (file_of s l) = Some j \<or> ot_done (op_transitions ?s ! j) \<and> ot_err (op_transitions ?s ! j) \<noteq> None"
      unfolding tr entry using own by (cases "j = i") auto
  next
    fix l assume l: "l < length (op_callers s)" "cl_pc (op_callers ?s ! l) = Returned None"
    show "\<exists>j. op_files ?s (file_of s l) = Some j \<and> ot_done (op_transitions ?s ! j)"
    proof (cases "l = k")
      case True
      then show ?thesis using l own unfolding tr entry by (simp add: caller)
    next
      case False
      then obtain j where "op_files s (file_of s l) = Some j" "ot_done (op_transitions s ! j)"
        using inv' l by (auto simp: caller waiters_ok_def)
      then show ?thesis using own unfolding tr entry by auto
    qed
  qed
  moreover have "opened_ok ?s"
    unfolding opened_ok_def len fl
  proof (intro conjI allI impI ballI)
    fix f assume "f \<in> set (op_opened ?s)"
    then obtain j where j: "op_files s f = Some j" "ot_done (op_transitions s ! j) \<or>
        (\<exists>l < length (op_callers s). \<exists>a. cl_pc (op_callers s ! l) = Publishing j a None False \<and> file_of s l = f)"
      using inv' unfolding rest(2) opened_ok_def by metis
    show "\<exists>j. op_files ?s f = Some j \<and> (ot_done (op_transitions ?s ! j) \<or>
        (\<exists>l < length (op_callers s). \<exists>a. cl_pc (op_callers ?s ! l) = Publishing j a None False \<and> file_of s l = f))"
    proof (cases "j = i")
      case True
      then obtain l a where "l < length (op_callers s)" "cl_pc (op_callers s ! l) = Publishing i a None False"
        using j(2) own(3) by metis
      moreover from this have "l = k" by (intro only) (simp_all add: holds_open_def)
      ultimately have "err = None" using k by simp
      then show ?thesis using True j(1) unfolding tr entry by simp
    next
      case False
      then have "f \<noteq> ?f" using j(1) own(2) by auto
      moreover have "cl_pc (op_callers s ! l) = Publishing j a None False \<Longrightarrow> l \<noteq> k" for l a using k False by auto
      ultimately show ?thesis using j False unfolding tr entry by (auto simp: caller)
    qed
  qed (use inv' in \<open>auto simp: opened_ok_def caller rest(2) split: if_splits\<close>)
  ultimately show ?thesis using inv by (simp add: open_inv_def publish_def map_cl_file_update)
qed

lemma open_inv_step:
  assumes inv: "open_inv files s" and step: "open_step (openFile_outcome t env) cause s s'"
  shows "open_inv files s'"
  using step
proof cases
  case (cancel k)
  then show ?thesis using open_inv_cancel [OF inv] by simp
next
  case (check k)
  then show ?thesis using open_inv_idle_move [OF inv, of k Locking] by simp
next
  case (check_canceled k)
  then show ?thesis using open_inv_idle_move [OF inv, of k "Returned (Some (Canceled (cause k)))"] by simp
next
  case (lock k)
  then show ?thesis
  proof (cases "op_files s (file_of s k)")
    case (Some i)
    then show ?thesis using lock open_inv_idle_move [OF inv, of k "Waiting i"] by (simp add: elect_def)
  qed (use lock open_inv_elect [OF inv] in simp)
next
  case (wake k i)
  have "ot_err (op_transitions s ! i) = None \<Longrightarrow> op_files s (file_of s k) = Some i"
    using inv wake by (auto simp: open_inv_def waiters_ok_def)
  then show ?thesis
    using wake open_inv_idle_move [OF inv, of k Looping] open_inv_idle_move [OF inv, of k "Returned (ot_err (op_transitions s ! i))"]
    by auto
next
  case (wake_canceled k i)
  then show ?thesis using open_inv_idle_move [OF inv, of k "Returned (Some (Canceled (cause k)))"] by simp
next
  case (opened k i source err retryable)
  then have "err = None \<Longrightarrow> \<not> retryable" using openFile_outcome_ok by blast
  then show ?thesis using opened open_inv_opened [OF inv, of k i err retryable source] by simp
next
  case (published k i source err retryable)
  then show ?thesis using open_inv_publish [OF inv] by blast
qed

lemma open_inv_start: "open_inv files (open_start files)"
  by (simp add: open_inv_def open_start_def open_parts holds_open_def comp_def)

section \<open>Every caller returns\<close>

definition returned :: "caller \<Rightarrow> bool" where
  "returned cl \<longleftrightarrow> (case cl_pc cl of Returned _ \<Rightarrow> True | _ \<Rightarrow> False)"

definition open_finished :: "open_state \<Rightarrow> bool" where
  "open_finished s \<longleftrightarrow> (\<forall>cl \<in> set (op_callers s). returned cl)"

text \<open>
  What a caller has left to do. A published retryable transition sends its waiters back to the
  loop, but the caller that published it has returned: returned callers weigh more than any
  number of retries.
\<close>

definition caller_size :: "openTransition list \<Rightarrow> nat \<Rightarrow> caller \<Rightarrow> nat" where
  "caller_size ts m cl =
     (case cl_pc cl of
        Looping \<Rightarrow> m + 4
      | Locking \<Rightarrow> m + 3
      | Waiting i \<Rightarrow> if ot_done (ts ! i) \<and> ot_retryable (ts ! i) then m + 5 else m + 1
      | Opening _ \<Rightarrow> m + 2
      | Publishing _ _ _ _ \<Rightarrow> m + 1
      | Returned _ \<Rightarrow> 0) + (if cl_canceled cl then 0 else 1)"

definition open_size :: "open_state \<Rightarrow> nat" where
  "open_size s = sum_list (map (caller_size (op_transitions s) (5 * length (op_callers s))) (op_callers s))"

lemma sum_list_update_less:
  fixes f g :: "'a \<Rightarrow> nat"
  assumes k: "k < length xs" and other: "\<And>l. l < length xs \<Longrightarrow> l \<noteq> k \<Longrightarrow> g (xs ! l) \<le> f (xs ! l) + d"
    and less: "g y + d * length xs < f (xs ! k)"
  shows "sum_list (map g (xs[k := y])) < sum_list (map f xs)"
proof -
  have xs: "xs = take k xs @ xs ! k # drop (Suc k) xs" using k by (simp add: id_take_nth_drop [symmetric])
  have part: "sum_list (map g zs) \<le> sum_list (map f zs) + d * length zs"
    if "\<And>z. z \<in> set zs \<Longrightarrow> g z \<le> f z + d" for zs
    using that by (induction zs) (simp, force simp: algebra_simps intro: add_mono)
  have 1: "sum_list (map g (take k xs)) \<le> sum_list (map f (take k xs)) + d * k"
    using part [of "take k xs"] other k by (fastforce simp: in_set_conv_nth)
  have 2: "sum_list (map g (drop (Suc k) xs)) \<le> sum_list (map f (drop (Suc k) xs)) + d * (length xs - Suc k)"
    using part [of "drop (Suc k) xs"] other k by (fastforce simp: in_set_conv_nth)
  have "d * k + d * (length xs - Suc k) \<le> d * length xs"
    using k by (simp add: add_mult_distrib2 [symmetric])
  moreover have "sum_list (map g (xs[k := y])) = sum_list (map g (take k xs)) + g y + sum_list (map g (drop (Suc k) xs))"
    using k by (simp add: upd_conv_take_nth_drop)
  moreover have "sum_list (map f xs) = sum_list (map f (take k xs)) + f (xs ! k) + sum_list (map f (drop (Suc k) xs))"
    by (subst xs) (simp only: map_append sum_list_append list.map sum_list.Cons add.assoc)
  ultimately show ?thesis using 1 2 less by linarith
qed

lemma open_size_update:
  assumes "k < length (op_callers s)" "op_callers s' = (op_callers s)[k := cl]"
    and "\<And>l. l < length (op_callers s) \<Longrightarrow> l \<noteq> k \<Longrightarrow>
      caller_size (op_transitions s') (5 * length (op_callers s)) (op_callers s ! l) \<le>
      caller_size (op_transitions s) (5 * length (op_callers s)) (op_callers s ! l) + d"
    and "caller_size (op_transitions s') (5 * length (op_callers s)) cl + d * length (op_callers s) <
      caller_size (op_transitions s) (5 * length (op_callers s)) (op_callers s ! k)"
  shows "open_size s' < open_size s"
  using sum_list_update_less [OF assms(1) assms(3) assms(4)] by (simp add: open_size_def assms(2))

lemma open_step_decreases:
  assumes inv: "open_inv files s" and step: "open_step (openFile_outcome t env) cause s s'"
  shows "open_size s' < open_size s"
  using step
proof cases
  case (cancel k)
  then show ?thesis by (intro open_size_update [where d = 0 and k = k]) (auto simp: caller_size_def split: open_pc.splits)
next
  case (check k)
  then show ?thesis by (intro open_size_update [where d = 0 and k = k]) (auto simp: caller_size_def)
next
  case (check_canceled k)
  then show ?thesis by (intro open_size_update [where d = 0 and k = k]) (auto simp: caller_size_def)
next
  case (lock k)
  have old: "cl_pc (op_callers s ! l) = Waiting i \<Longrightarrow> l < length (op_callers s) \<Longrightarrow> i < length (op_transitions s)" for l i
    using inv by (auto simp: open_inv_def waiters_ok_def)
  show ?thesis
  proof (cases "op_files s (file_of s k)")
    case None
    then show ?thesis using lock old
      by (intro open_size_update [where d = 0 and k = k])
        (auto simp: elect_def caller_size_def nth_append split: open_pc.splits)
  next
    case (Some i)
    then have "\<not> (ot_done (op_transitions s ! i) \<and> ot_retryable (op_transitions s ! i))"
      using inv unfolding open_inv_def entries_ok_def by metis
    then show ?thesis using lock Some
      by (intro open_size_update [where d = 0 and k = k]) (auto simp: elect_def caller_size_def)
  qed
next
  case (wake k i)
  then show ?thesis by (intro open_size_update [where d = 0 and k = k]) (auto simp: caller_size_def)
next
  case (wake_canceled k i)
  then show ?thesis by (intro open_size_update [where d = 0 and k = k]) (auto simp: caller_size_def)
next
  case (opened k i source err retryable)
  then show ?thesis by (intro open_size_update [where d = 0 and k = k]) (auto simp: caller_size_def)
next
  case (published k i source err retryable)
  have "caller_size ts m cl \<le> caller_size ts' m cl + 4" for ts ts' m cl
    by (simp add: caller_size_def split: open_pc.splits)
  then show ?thesis using published
    by (intro open_size_update [where d = 4 and k = k]) (auto simp: publish_def caller_size_def)
qed

text \<open>A caller that has not returned is never stuck: if it waits, the opener it waits for is not done.\<close>

lemma open_progress:
  assumes inv: "open_inv files s" and "\<not> open_finished s"
  shows "\<exists>s'. open_step (openFile_outcome t env) cause s s'"
proof -
  let ?step = "open_step (openFile_outcome t env) cause s"
  have holder: "\<exists>s'. ?step s'" if "k < length (op_callers s)" "holds_open (op_callers s ! k) i" for k i
  proof (cases "cl_pc (op_callers s ! k)")
    case (Opening j)
    then show ?thesis using that(1) openFile_outcome_total [of t env "file_of s k"] open_step.opened by metis
  next
    case (Publishing j a b r)
    then show ?thesis using that(1) open_step.published by metis
  qed (use that in \<open>auto simp: holds_open_def\<close>)
  obtain k where k: "k < length (op_callers s)" "\<not> returned (op_callers s ! k)"
    using assms(2) by (auto simp: open_finished_def in_set_conv_nth)
  show ?thesis
  proof (cases "cl_pc (op_callers s ! k)")
    case Looping
    then show ?thesis using k(1) open_step.check open_step.check_canceled by metis
  next
    case Locking
    then show ?thesis using k(1) open_step.lock by metis
  next
    case (Waiting i)
    show ?thesis
    proof (cases "ot_done (op_transitions s ! i)")
      case True
      then show ?thesis using k(1) Waiting open_step.wake by metis
    next
      case False
      then have "op_files s (file_of s k) = Some i" using inv k(1) Waiting by (auto simp: open_inv_def waiters_ok_def)
      then obtain l where "l < length (op_callers s)" "holds_open (op_callers s ! l) i"
        using inv False unfolding open_inv_def entries_ok_def by metis
      then show ?thesis by (rule holder)
    qed
  next
    case (Opening i)
    then show ?thesis using holder [OF k(1), of i] by (simp add: holds_open_def)
  next
    case (Publishing i a b r)
    then show ?thesis using holder [OF k(1), of i] by (simp add: holds_open_def)
  qed (use k in \<open>simp add: returned_def\<close>)
qed

interpretation file_opening: finishing_system "\<lambda>s. s = open_start files" "open_step (openFile_outcome t env) cause"
  "open_inv files" open_finished open_size
  for files :: "string list" and t :: "'s connection" and env :: host_env and cause :: "nat \<Rightarrow> string"
  by unfold_locales (auto intro: open_inv_start open_inv_step open_progress open_step_decreases)

section \<open>Properties\<close>

lemma returned_opened:
  assumes inv: "open_inv files s" and k: "k < length (op_callers s)" "cl_pc (op_callers s ! k) = Returned None"
  shows "file_of s k \<in> set (op_opened s) \<and> (\<exists>source. openedSource s (file_of s k) = Some source)"
proof -
  obtain i where i: "op_files s (file_of s k) = Some i" "ot_done (op_transitions s ! i)"
    using inv k by (auto simp: open_inv_def waiters_ok_def)
  then have "ot_err (op_transitions s ! i) = None" "file_of s k \<in> set (op_opened s)"
    using inv unfolding open_inv_def entries_ok_def by metis+
  with i show ?thesis by (simp add: openedSource_def)
qed

text \<open>C5: however many callers ask for a file at the same time, at most one of them is opening it,
  its \<^verbatim>\<open>didOpen\<close> is sent at most once, and a caller that returns without an error finds the file
  opened and its source available.\<close>

theorem ensureOpen_single_flight:
  assumes "(open_step (openFile_outcome t env) cause)\<^sup>*\<^sup>* (open_start files) s"
  shows "(\<forall>k < length (op_callers s). \<forall>l < length (op_callers s). \<forall>i j.
      holds_open (op_callers s ! k) i \<longrightarrow> holds_open (op_callers s ! l) j \<longrightarrow> file_of s k = file_of s l \<longrightarrow> k = l) \<and>
    distinct (op_opened s) \<and>
    (\<forall>k < length (op_callers s). cl_pc (op_callers s ! k) = Returned None \<longrightarrow>
      file_of s k \<in> set (op_opened s) \<and> (\<exists>source. openedSource s (file_of s k) = Some source))"
proof -
  have inv: "open_inv files s" by (rule file_opening.inv_reachable [OF refl assms])
  have "k = l" if "k < length (op_callers s)" "l < length (op_callers s)" "holds_open (op_callers s ! k) i"
    "holds_open (op_callers s ! l) j" "file_of s k = file_of s l" for k l i j
  proof -
    have "op_files s (file_of s k) = Some i" "op_files s (file_of s l) = Some j"
      using inv that unfolding open_inv_def holders_ok_def by blast+
    then have "i = j" using that by simp
    then show ?thesis using inv that unfolding open_inv_def holders_ok_def by blast
  qed
  then show ?thesis using inv returned_opened [OF inv] by (auto simp: open_inv_def opened_ok_def)
qed

text \<open>C14: every caller of \<open>ensureOpen\<close> returns, retries included: from every state the callers can
  reach they can all return, and no run goes on forever.\<close>

theorem ensureOpen_terminates:
  assumes "(open_step (openFile_outcome t env) cause)\<^sup>*\<^sup>* (open_start files) s"
  shows "(\<exists>s'. (open_step (openFile_outcome t env) cause)\<^sup>*\<^sup>* s s' \<and> open_finished s') \<and>
    \<not> (\<exists>f. f 0 = s \<and> (\<forall>i. open_step (openFile_outcome t env) cause (f i) (f (Suc i))))"
proof -
  have inv: "open_inv files s" by (rule file_opening.inv_reachable [OF refl assms])
  then show ?thesis using file_opening.finishes [OF inv] file_opening.no_infinite_run by blast
qed

end
