(* ===== verification/Lsp_Source.thy ===== *)
theory Lsp_Source
  imports Lsp_Conversion
begin

text \<open>
  Positions in a source text (\<^verbatim>\<open>src/internal/lsp/signatures.go\<close>): the walk from a line and
  UTF-16 character to a byte offset, the walk back, and the text of a range. Offsets count
  bytes; a \<open>boundary\<close> is an offset at which a left-to-right decoding of the text starts a rune.
\<close>

section \<open>Operations\<close>

definition substr :: "string \<Rightarrow> nat \<Rightarrow> nat \<Rightarrow> string" where
  "substr s a b = take (b - a) (drop a s)"

text \<open>One context check every 256 bytes, at the offset just reached.\<close>

definition poll_at :: "ctx \<Rightarrow> nat \<Rightarrow> nat \<Rightarrow> lsp_error option \<times> nat" where
  "poll_at c offset n =
     (if offset mod 256 = 0 then (map_option Canceled (ctx_err c n), Suc n) else (None, n))"

function skipLines ::
  "ctx \<Rightarrow> string \<Rightarrow> int \<Rightarrow> int \<Rightarrow> nat \<Rightarrow> nat \<Rightarrow> (lsp_error + int \<times> nat) \<times> nat" where
  "skipLines c source target line offset n =
     (if line < target \<and> offset < length source then
        (case poll_at c (Suc offset) n of
           (Some e, n') \<Rightarrow> (Inl e, n')
         | (None, n') \<Rightarrow>
             skipLines c source target (if source ! offset = newline then line + 1 else line) (Suc offset) n')
      else (Inr (line, offset), n))"
  by pat_completeness auto
termination
  by (relation "measure (\<lambda>(c, source, target, line, offset, n). length source - offset)") auto

function takeUnits ::
  "ctx \<Rightarrow> string \<Rightarrow> int \<Rightarrow> int \<Rightarrow> nat \<Rightarrow> nat \<Rightarrow> (lsp_error + int \<times> nat) \<times> nat" where
  "takeUnits c source target units offset n =
     (if offset < length source \<and> source ! offset \<noteq> newline \<and> units < target then
        (let (r, size) = decode_rune (drop offset source) in
         case poll_at c (offset + size) n of
           (Some e, n') \<Rightarrow> (Inl e, n')
         | (None, n') \<Rightarrow> takeUnits c source target (units + rune_len16 r) (offset + size) n')
      else (Inr (units, offset), n))"
  by pat_completeness auto
termination
proof (relation "measure (\<lambda>(c, source, target, units, offset, n). length source - offset)", goal_cases)
  case (2 c source target units offset n x r size)
  then have "0 < size" using width_of_pos [of "drop offset source"] by (metis drop_eq_Nil not_le snd_conv)
  with 2 show ?case by auto
qed simp

declare skipLines.simps [simp del] takeUnits.simps [simp del]

definition byteOffsetContext :: "ctx \<Rightarrow> string \<Rightarrow> Position \<Rightarrow> nat \<Rightarrow> (lsp_error + nat) \<times> nat" where
  "byteOffsetContext c source position n =
     (case ctx_err c n of
        Some e \<Rightarrow> (Inl (Canceled e), Suc n)
      | None \<Rightarrow>
     (case Position_Validate position of
        Some e \<Rightarrow> (Inl (BadPosition e), Suc n)
      | None \<Rightarrow>
     (case skipLines c source (Line position) 0 0 (Suc n) of
        (Inl e, n1) \<Rightarrow> (Inl e, n1)
      | (Inr (line, offset), n1) \<Rightarrow>
          if line \<noteq> Line position then (Inl (LineOutside (Line position)), n1)
          else (case takeUnits c source (Character position) 0 offset n1 of
             (Inl e, n2) \<Rightarrow> (Inl e, n2)
           | (Inr (units, offset'), n2) \<Rightarrow>
               (case ctx_err c n2 of
                  Some e \<Rightarrow> (Inl (Canceled e), Suc n2)
                | None \<Rightarrow>
                    if units \<noteq> Character position
                    then (Inl (CharacterOutside (Character position) (Line position)), Suc n2)
                    else (Inr offset', Suc n2))))))"

definition byteOffset :: "string \<Rightarrow> Position \<Rightarrow> lsp_error + nat" where
  "byteOffset source position = fst (byteOffsetContext background source position 0)"

text \<open>The loop of \<open>positionAt\<close> decodes the bytes from \<open>i\<close> up to the offset; it stops at the offset.\<close>

function positionFrom :: "string \<Rightarrow> nat \<Rightarrow> nat \<Rightarrow> Position \<Rightarrow> Position" where
  "positionFrom source offset i position =
     (if i < offset \<and> i < length source then
        (let (r, size) = decode_rune (substr source i offset) in
         positionFrom source offset (i + size)
           (if r = 10 then \<lparr>Line = Line position + 1, Character = 0\<rparr>
            else position\<lparr>Character := Character position + rune_len16 r\<rparr>))
      else position)"
  by pat_completeness auto
termination
proof (relation "measure (\<lambda>(source, offset, i, position). offset - i)", goal_cases)
  case (2 source offset i position x r size)
  then have "0 < size" using width_of_pos [of "substr source i offset"]
    by (metis diff_is_0_eq drop_eq_Nil not_le substr_def snd_conv take_eq_Nil)
  with 2 show ?case by auto
qed simp

declare positionFrom.simps [simp del]

definition positionAt :: "string \<Rightarrow> nat \<Rightarrow> Position" where
  "positionAt source offset = positionFrom source offset 0 \<lparr>Line = 0, Character = 0\<rparr>"

definition textInRange :: "ctx \<Rightarrow> string \<Rightarrow> Range \<Rightarrow> nat \<Rightarrow> (lsp_error + string) \<times> nat" where
  "textInRange c source r n =
     (case byteOffsetContext c source (Start r) n of
        (Inl e, n1) \<Rightarrow> (Inl e, n1)
      | (Inr start, n1) \<Rightarrow>
     (case byteOffsetContext c source (End r) n1 of
        (Inl e, n2) \<Rightarrow> (Inl e, n2)
      | (Inr end, n2) \<Rightarrow>
          if end < start then (Inl EndBeforeStart, n2) else (Inr (substr source start end), n2)))"

section \<open>Rune boundaries\<close>

inductive boundary :: "string \<Rightarrow> nat \<Rightarrow> bool" where
  boundary_0: "boundary s 0"
| boundary_step: "s \<noteq> [] \<Longrightarrow> boundary (drop (width_of s) s) k \<Longrightarrow> boundary s (width_of s + k)"

lemma boundary_le: "boundary s k \<Longrightarrow> k \<le> length s"
proof (induction rule: boundary.induct)
  case (boundary_step s k)
  then show ?case using width_of_le [of s] by simp
qed simp

lemma boundary_next:
  "boundary s k \<Longrightarrow> k < length s \<Longrightarrow> boundary s (k + width_of (drop k s))"
proof (induction rule: boundary.induct)
  case (boundary_0 s)
  then show ?case using boundary_step [OF _ boundary.boundary_0, of s] by simp
next
  case (boundary_step s k)
  then have "boundary s (width_of s + (k + width_of (drop k (drop (width_of s) s))))"
    by (intro boundary.boundary_step) auto
  then show ?case by (simp add: ac_simps)
qed

lemma boundary_trans: "boundary s a \<Longrightarrow> boundary (drop a s) b \<Longrightarrow> boundary s (a + b)"
proof (induction rule: boundary.induct)
  case (boundary_step s k)
  then have "boundary s (width_of s + (k + b))"
    by (intro boundary.boundary_step) (auto simp: add.commute)
  then show ?case by (simp add: add.assoc)
qed simp

lemma rune_tail_nonascii:
  assumes "0 < i" "i < width_of (b # s)" shows "0x80 \<le> byte_val ((b # s) ! i)"
proof -
  have second: "accept_second x y \<Longrightarrow> 0x80 \<le> y" for x y :: nat
    by (auto simp: accept_second_def split: if_splits)
  show ?thesis
  proof (cases rule: decode_rune_cases [of b s])
    case (two b1 r)
    then have "i = 1" using assms by simp
    with two second show ?thesis by simp
  next
    case (three b1 b2 r)
    then consider "i = 1" | "i = 2" using assms by fastforce
    then show ?thesis using three second by cases (auto simp: is_cont_def)
  next
    case (four b1 b2 b3 r)
    then consider "i = 1" | "i = 2" | "i = 3" using assms by fastforce
    then show ?thesis using four second by cases (auto simp: is_cont_def)
  qed (use assms in auto)
qed

lemma ascii_boundary: "k < length s \<Longrightarrow> byte_val (s ! k) < 0x80 \<Longrightarrow> boundary s k"
proof (induction "length s" arbitrary: s k rule: less_induct)
  case less
  show ?case
  proof (cases "k = 0")
    case False
    obtain b t where s: "s = b # t" using less.prems by (cases s) auto
    have w: "width_of s \<le> k"
      using False less.prems rune_tail_nonascii [of k b t] s by fastforce
    have pos: "0 < width_of s" using s by simp
    have "boundary (drop (width_of s) s) (k - width_of s)"
      using less.prems w pos by (intro less.hyps) (auto simp: nth_append)
    then show ?thesis
      using boundary_step [of s "k - width_of s"] s w by simp
  qed (simp add: boundary_0)
qed

lemma ascii_boundary_Suc: "k < length s \<Longrightarrow> byte_val (s ! k) < 0x80 \<Longrightarrow> boundary s (Suc k)"
  using boundary_next [OF ascii_boundary] decode_rune_ascii [of "s ! k" "drop (Suc k) s"]
  by (fastforce simp: Cons_nth_drop_Suc [symmetric])

lemma runes_boundary:
  "boundary s k \<Longrightarrow> k \<le> m \<Longrightarrow> runes (take m s) = runes (take k s) @ runes (substr s k m)"
proof (induction arbitrary: m rule: boundary.induct)
  case (boundary_0 s)
  then show ?case by (simp add: substr_def)
next
  case (boundary_step s k)
  have 1: "runes (take j s) = rune_of s # runes (take (j - width_of s) (drop (width_of s) s))"
    if "width_of s \<le> j" for j
    using that boundary_step.hyps(1) decode_rune_take [OF that] runes_step [of "take j s"]
    by (cases "j = 0") (auto simp: drop_take)
  show ?case
    using boundary_step.prems boundary_step.IH [of "m - width_of s"] 1 [of m] 1 [of "width_of s + k"]
    by (simp add: substr_def add.commute)
qed

section \<open>Positions of boundaries\<close>

definition advance :: "Position \<Rightarrow> rune \<Rightarrow> Position" where
  "advance p r = (if r = 10 then \<lparr>Line = Line p + 1, Character = 0\<rparr>
                  else p\<lparr>Character := Character p + rune_len16 r\<rparr>)"

lemma positionFrom_runes: "positionFrom s m i p = foldl advance p (runes (substr s i m))"
proof (induction s m i p rule: positionFrom.induct)
  case (1 s m i p)
  show ?case
  proof (cases "i < m \<and> i < length s")
    case True
    obtain r size where d: "decode_rune (substr s i m) = (r, size)" by fastforce
    have ne: "substr s i m \<noteq> []" using True by (simp add: substr_def)
    have "drop size (substr s i m) = substr s (i + size) m"
      by (simp add: substr_def drop_take add.commute)
    then have "runes (substr s i m) = r # runes (substr s (i + size) m)"
      using runes_step [OF ne] d by simp
    then show ?thesis
      using True d 1 [OF True d [symmetric] refl]
      by (subst positionFrom.simps) (simp flip: advance_def)
  next
    case False
    then show ?thesis by (subst positionFrom.simps) (auto simp: substr_def)
  qed
qed

lemma positionAt_runes: "positionAt s m = foldl advance \<lparr>Line = 0, Character = 0\<rparr> (runes (take m s))"
  by (simp add: positionAt_def positionFrom_runes substr_def)

lemma positionAt_0 [simp]: "positionAt s 0 = \<lparr>Line = 0, Character = 0\<rparr>"
  by (simp add: positionAt_runes)

lemma positionAt_boundary:
  assumes "boundary s k" "k \<le> m"
  shows "positionAt s m = foldl advance (positionAt s k) (runes (substr s k m))"
  by (simp add: positionAt_runes runes_boundary [OF assms])

lemma substr_one_rune:
  assumes "k < length s"
  shows "runes (substr s k (k + width_of (drop k s))) = [rune_of (drop k s)]"
proof -
  let ?t = "drop k s"
  have "decode_rune (take (width_of ?t) ?t) = decode_rune ?t" by (simp add: decode_rune_take)
  moreover have "take (width_of ?t) ?t \<noteq> []" using assms by simp
  ultimately show ?thesis by (simp add: substr_def runes_step)
qed

lemma positionAt_next:
  assumes "boundary s k" "k < length s"
  shows "positionAt s (k + width_of (drop k s)) = advance (positionAt s k) (rune_of (drop k s))"
  using positionAt_boundary [OF assms(1), of "k + width_of (drop k s)"] substr_one_rune [OF assms(2)] by simp

lemma of_char_newline: "byte_val b = 10 \<Longrightarrow> b = newline"
  using of_char_eq_iff [of b newline, where 'a = nat] by simp

lemma rune_newline: "k < length s \<Longrightarrow> rune_of (drop k s) = 10 \<longleftrightarrow> s ! k = newline"
  using decode_rune_byte [of 10 "s ! k" "drop (Suc k) s"]
  by (auto simp: Cons_nth_drop_Suc dest: of_char_newline)

lemma newline_advances:
  assumes "k < length s" "s ! k = newline"
  shows "positionAt s (Suc k) = \<lparr>Line = Line (positionAt s k) + 1, Character = 0\<rparr>"
proof -
  have b: "byte_val (s ! k) < 0x80" using assms by simp
  have w: "width_of (drop k s) = 1"
    using decode_rune_ascii [OF b, of "drop (Suc k) s"] assms(1) by (metis Cons_nth_drop_Suc snd_conv)
  have r: "rune_of (drop k s) = 10" using rune_newline [OF assms(1)] assms(2) by blast
  show ?thesis
    using positionAt_next [OF ascii_boundary [OF assms(1) b] assms(1)] unfolding w r by (simp add: advance_def)
qed

text \<open>Bytes inside a rune are not newlines, so the line of an offset counts newline bytes.\<close>

lemma Line_advances: "Line (foldl advance p (runes t)) = Line p + int (count_list t newline)"
proof (induction "length t" arbitrary: t p rule: less_induct)
  case less
  show ?case
  proof (cases t)
    case (Cons b u)
    define w where "w = width_of t"
    have w: "0 < w" "w \<le> length t" using Cons width_of_le [of t] by (auto simp: w_def)
    have "newline \<notin> set (drop 1 (take w t))"
    proof
      assume "newline \<in> set (drop 1 (take w t))"
      then obtain i where "i < w - 1" "t ! Suc i = newline"
        using w by (auto simp: in_set_conv_nth)
      then show False using rune_tail_nonascii [of "Suc i" b u] Cons less_diff_conv [of i w 1]
        by (auto simp: w_def)
    qed
    moreover have "take w t = b # drop 1 (take w t)" using w Cons by (cases w) auto
    ultimately have cnt: "count_list (take w t) newline = (if b = newline then 1 else 0)"
      by (metis count_list.simps(2) count_notin add_0)
    have "count_list t newline = count_list (take w t) newline + count_list (drop w t) newline"
      by (metis append_take_drop_id count_list_append)
    moreover have "rune_of t = 10 \<longleftrightarrow> b = newline"
      using rune_newline [of 0 t] Cons by simp
    ultimately show ?thesis
      using less [of "drop w t" "advance p (rune_of t)"] w cnt Cons runes_step [of t]
      by (auto simp: w_def advance_def)
  qed simp
qed

lemma Line_positionAt: "Line (positionAt s m) = int (count_list (take m s) newline)"
  by (simp add: positionAt_runes Line_advances)

section \<open>The loops\<close>

definition line_start :: "string \<Rightarrow> nat \<Rightarrow> bool" where
  "line_start s k \<longleftrightarrow> k = 0 \<or> k \<le> length s \<and> s ! (k - 1) = newline"

abbreviation newlines :: "string \<Rightarrow> nat \<Rightarrow> int" where
  "newlines s k \<equiv> int (count_list (take k s) newline)"

lemma newlines_Suc: "k < length s \<Longrightarrow> newlines s (Suc k) = newlines s k + (if s ! k = newline then 1 else 0)"
  by (simp add: take_Suc_conv_app_nth)

lemma newlines_mono: "k \<le> m \<Longrightarrow> newlines s k \<le> newlines s m"
proof -
  assume "k \<le> m"
  then have "take m s = take k s @ take (m - k) (drop k s)"
    by (metis le_add_diff_inverse take_add)
  then show ?thesis by simp
qed

lemma line_start_position:
  assumes "line_start s k"
  shows "boundary s k \<and> positionAt s k = \<lparr>Line = newlines s k, Character = 0\<rparr>"
proof (cases "k = 0")
  case False
  then obtain j where k: "k = Suc j" "j < length s" "s ! j = newline"
    using assms by (cases k) (auto simp: line_start_def)
  then show ?thesis
    using newline_advances [of j s] ascii_boundary_Suc [of j s] Line_positionAt [of s k] by simp
qed (simp add: boundary_0)

lemma skipLines_Inr:
  "skipLines c s target line k n = (Inr (target, k'), n') \<Longrightarrow> line = newlines s k \<Longrightarrow>
   line_start s k \<or> line < target \<Longrightarrow> k \<le> length s \<Longrightarrow>
   line_start s k' \<and> k' \<le> length s \<and> newlines s k' = target"
proof (induction c s target line k n rule: skipLines.induct)
  case (1 c s target line k n)
  show ?case
  proof (cases "line < target \<and> k < length s")
    case True
    obtain n2 where step: "poll_at c (Suc k) n = (None, n2)"
        "skipLines c s target (if s ! k = newline then line + 1 else line) (Suc k) n2 = (Inr (target, k'), n')"
      using "1.prems"(1) True by (subst (asm) skipLines.simps) (auto split: prod.splits option.splits)
    show ?thesis
      using "1.IH" [OF True step(1) [symmetric] refl step(2)] True "1.prems"(2) newlines_Suc [of k s]
      by (auto simp: line_start_def)
  next
    case False
    then have "skipLines c s target line k n = (Inr (line, k), n)"
      by (subst skipLines.simps) (simp only: if_False)
    with "1.prems" show ?thesis by simp
  qed
qed

lemma poll_at_uncanceled: "cancel_at c = None \<Longrightarrow> \<exists>n'. poll_at c k n = (None, n')"
  by (simp add: poll_at_def)

lemma skipLines_reaches:
  "cancel_at c = None \<Longrightarrow> line = newlines s k \<Longrightarrow> k \<le> m \<Longrightarrow> m \<le> length s \<Longrightarrow> target = newlines s m \<Longrightarrow>
   \<exists>k' n'. skipLines c s target line k n = (Inr (target, k'), n') \<and> k' \<le> m \<and> newlines s k' = target"
proof (induction c s target line k n rule: skipLines.induct)
  case (1 c s target line k n)
  have le: "line \<le> target" using "1.prems" newlines_mono by simp
  show ?case
  proof (cases "line < target")
    case True
    then have k: "k < m" using "1.prems" by (cases "k = m") auto
    then have T: "line < target \<and> k < length s" using True "1.prems" by simp
    obtain n2 where step: "poll_at c (Suc k) n = (None, n2)"
      using poll_at_uncanceled [OF "1.prems"(1)] by blast
    let ?line = "if s ! k = newline then line + 1 else line"
    have "skipLines c s target line k n = skipLines c s target ?line (Suc k) n2"
      using T step by (subst skipLines.simps) simp
    moreover have "?line = newlines s (Suc k)" using T newlines_Suc [of k s] "1.prems"(2) by simp
    ultimately show ?thesis
      using "1.IH" [OF T step [symmetric] refl "1.prems"(1)] k "1.prems"(4,5) by simp
  next
    case False
    then show ?thesis using le "1.prems" by (subst skipLines.simps) auto
  qed
qed

lemma rune_len16_pos: "0 < rune_len16 (rune_of s)"
  using rune_len16_rune_of [of s] by auto

lemma takeUnits_Inr:
  "takeUnits c s target units k n = (Inr (target, k'), n') \<Longrightarrow>
   boundary s k \<Longrightarrow> positionAt s k = \<lparr>Line = line, Character = units\<rparr> \<Longrightarrow>
   boundary s k' \<and> positionAt s k' = \<lparr>Line = line, Character = target\<rparr>"
proof (induction c s target units k n rule: takeUnits.induct)
  case (1 c s target units k n)
  show ?case
  proof (cases "k < length s \<and> s ! k \<noteq> newline \<and> units < target")
    case True
    obtain r size where d: "decode_rune (drop k s) = (r, size)" by fastforce
    obtain n2 where step: "poll_at c (k + size) n = (None, n2)"
        "takeUnits c s target (units + rune_len16 r) (k + size) n2 = (Inr (target, k'), n')"
      using "1.prems"(1) True d by (subst (asm) takeUnits.simps) (auto split: prod.splits option.splits)
    have "positionAt s (k + size) = \<lparr>Line = line, Character = units + rune_len16 r\<rparr>"
      using positionAt_next [OF "1.prems"(2)] True d "1.prems"(3) rune_newline [of k s]
      by (simp add: advance_def)
    then show ?thesis
      using "1.IH" [OF True d [symmetric] refl step(1) [symmetric] refl step(2)]
        boundary_next [OF "1.prems"(2)] True d by simp
  next
    case False
    then have "takeUnits c s target units k n = (Inr (units, k), n)"
      by (subst takeUnits.simps) (simp only: if_False)
    with "1.prems" show ?thesis by simp
  qed
qed

text \<open>Two boundaries of one line: the rune at the first one ends at or before the second.\<close>

lemma boundary_between:
  assumes "boundary s k" "boundary s m" "k < m"
  shows "k + width_of (drop k s) \<le> m"
  using assms(2,1,3)
proof (induction arbitrary: k rule: boundary.induct)
  case (boundary_step s m)
  from boundary_step.prems(1) show ?case
  proof cases
    case (boundary_step j)
    then show ?thesis
      using boundary_step.IH [of j] boundary_step.prems(2) by (simp add: add.commute)
  qed (simp add: boundary_step)
qed simp

lemma same_line_step:
  assumes "boundary s k" "boundary s m" "k < m" "newlines s k = newlines s m"
  obtains k' where "k' = k + width_of (drop k s)" "k < length s" "s ! k \<noteq> newline" "k < k'" "k' \<le> m"
    "boundary s k'" "newlines s k' = newlines s m"
    "Character (positionAt s k') = Character (positionAt s k) + rune_len16 (rune_of (drop k s))"
proof
  let ?k = "k + width_of (drop k s)"
  show len: "k < length s" using assms(2,3) boundary_le by fastforce
  show nl: "s ! k \<noteq> newline"
    using newlines_Suc [OF len] newlines_mono [of "Suc k" m s] assms(3,4) by auto
  show "k < ?k" using len by simp
  show le: "?k \<le> m" using boundary_between [OF assms(1-3)] .
  show "boundary s ?k" using boundary_next [OF assms(1) len] .
  show "newlines s ?k = newlines s m"
    using newlines_mono [of k ?k s] newlines_mono [OF le, of s] assms(4) by simp
  show "Character (positionAt s ?k) = Character (positionAt s k) + rune_len16 (rune_of (drop k s))"
    using positionAt_next [OF assms(1) len] rune_newline [OF len] nl by (simp add: advance_def)
qed simp

lemma same_line_le:
  "boundary s k \<Longrightarrow> boundary s m \<Longrightarrow> k \<le> m \<Longrightarrow> newlines s k = newlines s m \<Longrightarrow>
   Character (positionAt s k) \<le> Character (positionAt s m)"
proof (induction "m - k" arbitrary: k rule: less_induct)
  case less
  show ?case
  proof (cases "k = m")
    case False
    then have "k < m" using less.prems by simp
    then obtain k' where "k < k'" "k' \<le> m" "boundary s k'" "newlines s k' = newlines s m"
        "Character (positionAt s k') = Character (positionAt s k) + rune_len16 (rune_of (drop k s))"
      using same_line_step less.prems by metis
    then show ?thesis using less.hyps [of k'] less.prems rune_len16_pos [of "drop k s"] by force
  qed simp
qed

lemma takeUnits_reaches:
  "cancel_at c = None \<Longrightarrow> boundary s k \<Longrightarrow> boundary s m \<Longrightarrow> k \<le> m \<Longrightarrow>
   newlines s k = newlines s m \<Longrightarrow> units = Character (positionAt s k) \<Longrightarrow>
   target = Character (positionAt s m) \<Longrightarrow>
   \<exists>n'. takeUnits c s target units k n = (Inr (target, m), n')"
proof (induction c s target units k n rule: takeUnits.induct)
  case (1 c s target units k n)
  show ?case
  proof (cases "k = m")
    case True
    then have "takeUnits c s target units k n = (Inr (units, k), n)"
      using "1.prems" by (subst takeUnits.simps) simp
    with True "1.prems" show ?thesis by simp
  next
    case False
    obtain r size where d: "decode_rune (drop k s) = (r, size)" by fastforce
    obtain k' where k': "k' = k + size" "k < length s" "s ! k \<noteq> newline" "k' \<le> m"
        "boundary s k'" "newlines s k' = newlines s m" "Character (positionAt s k') = units + rune_len16 r"
      using same_line_step [OF "1.prems"(2,3)] False "1.prems"(4-6) d by (metis fst_conv le_neq_implies_less snd_conv)
    have "units < target"
      using same_line_le [OF k'(5) "1.prems"(3) k'(4,6)] k'(7) rune_len16_pos [of "drop k s"] d "1.prems"(7) by simp
    then have T: "k < length s \<and> s ! k \<noteq> newline \<and> units < target" using k' by simp
    obtain n2 where step: "poll_at c (k + size) n = (None, n2)"
      using poll_at_uncanceled [OF "1.prems"(1)] by blast
    have "takeUnits c s target units k n = takeUnits c s target (units + rune_len16 r) (k + size) n2"
      using T d step by (subst takeUnits.simps) simp
    then show ?thesis
      using "1.IH" [OF T d [symmetric] refl step [symmetric] refl "1.prems"(1)] k' "1.prems"(3,7) by simp
  qed
qed

section \<open>Properties\<close>

lemma byteOffsetContext_Inr:
  assumes "byteOffsetContext c s p n = (Inr k, n')"
  shows "boundary s k \<and> positionAt s k = p"
proof -
  obtain j n1 n2 where *: "skipLines c s (Line p) 0 0 (Suc n) = (Inr (Line p, j), n1)"
      "takeUnits c s (Character p) 0 j n1 = (Inr (Character p, k), n2)"
    and wf: "wf_position p"
    using assms
    by (auto simp: byteOffsetContext_def split: option.splits sum.splits prod.splits if_splits)
  have "line_start s j \<and> newlines s j = Line p"
    using skipLines_Inr [OF *(1)] by (auto simp: line_start_def)
  then show ?thesis
    using takeUnits_Inr [OF *(2), of "Line p"] line_start_position [of s j] by simp
qed

lemma byteOffsetContext_ok:
  assumes "cancel_at c = None" "boundary s k"
  shows "fst (byteOffsetContext c s (positionAt s k) n) = Inr k"
proof -
  let ?p = "positionAt s k"
  have k: "k \<le> length s" using boundary_le assms(2) by blast
  obtain j n1 where sk: "skipLines c s (Line ?p) 0 0 (Suc n) = (Inr (Line ?p, j), n1)"
      "j \<le> k" "newlines s j = Line ?p"
    using skipLines_reaches [where k = 0 and line = 0 and n = "Suc n", OF assms(1) _ _ k] k Line_positionAt [of s k] by auto
  have st: "line_start s j" using skipLines_Inr [OF sk(1)] by (auto simp: line_start_def)
  note ls = line_start_position [OF st]
  have nl: "newlines s j = newlines s k" using sk(3) Line_positionAt [of s k] by simp
  obtain n2 where tk: "takeUnits c s (Character ?p) 0 j n1 = (Inr (Character ?p, k), n2)"
    using takeUnits_reaches [OF assms(1) _ assms(2) sk(2) nl _ refl, where units = 0 and n = n1] ls by auto
  have "0 \<le> Character ?p" using same_line_le [OF _ assms(2) sk(2) nl] ls by simp
  then have "wf_position ?p" using Line_positionAt [of s k] by (simp add: wf_position_def)
  then show ?thesis using sk(1) tk assms(1) by (simp add: byteOffsetContext_def split: option.splits)
qed

lemma textInRange_Inr:
  assumes "textInRange c s r n = (Inr t, n')"
  obtains a b where "boundary s a" "boundary s b" "a \<le> b" "positionAt s a = Start r" "positionAt s b = End r"
    "t = substr s a b"
  using assms
  by (auto simp: textInRange_def not_less split: sum.splits prod.splits if_splits
      dest!: byteOffsetContext_Inr)

text \<open>C12: an offset \<open>byteOffset\<close> returns lies inside the text at the start of a rune (or at the
  end), and \<open>positionAt\<close> leads back from it to the requested position; whatever the context does.\<close>

theorem byteOffsetContext_sound:
  assumes "byteOffsetContext c source position n = (Inr offset, n')"
  shows "offset \<le> length source \<and> boundary source offset \<and> positionAt source offset = position"
  using byteOffsetContext_Inr [OF assms] boundary_le by blast

text \<open>for every rune boundary of a text, \<open>byteOffset\<close> inverts \<open>positionAt\<close>.\<close>

theorem byteOffset_positionAt:
  assumes "boundary source offset"
  shows "byteOffset source (positionAt source offset) = Inr offset"
  unfolding byteOffset_def using byteOffsetContext_ok [OF _ assms, of background 0]
  by (simp add: background_def)

subsection \<open>Witnesses\<close>

text \<open>The sample is an emoji (two UTF-16 units, four bytes) on the second line.\<close>

definition sample_source :: string where
  "sample_source = [CHR ''x'', newline, CHR 0xF0, CHR 0x9F, CHR 0x98, CHR 0x80, CHR ''y'']"

lemmas eval_source =
  sample_source_def byteOffsetContext_def skipLines.simps takeUnits.simps poll_at_def Position_Validate_def
  positionAt_def positionFrom.simps substr_def decode_rune_def first_len_def accept_second_def is_cont_def
  rune_len16_def ctx_err_background

theorem byteOffsetContext_sound_witness:
  "positionAt sample_source 6 = \<lparr>Line = 1, Character = 2\<rparr> \<and> boundary sample_source 6"
proof -
  have "byteOffsetContext background sample_source \<lparr>Line = 1, Character = 2\<rparr> 0 = (Inr 6, 2)"
    by (simp add: eval_source del: Position_Validate_None)
  then show ?thesis using byteOffsetContext_sound by blast
qed

theorem byteOffset_positionAt_witness:
  "byteOffset sample_source \<lparr>Line = 1, Character = 2\<rparr> = Inr 6"
proof -
  have "boundary sample_source 6"
    by (rule ascii_boundary) (simp_all add: eval_source)
  moreover have "positionAt sample_source 6 = \<lparr>Line = 1, Character = 2\<rparr>"
    by (simp add: eval_source)
  ultimately show ?thesis using byteOffset_positionAt [of sample_source 6] by simp
qed

end
