(* ===== verification/Declaration_Headers.thy ===== *)
theory Declaration_Headers
  imports Lsp_Source
begin

text \<open>
  The scanner that lifts class and interface headers out of a source text
  (\<^verbatim>\<open>src/internal/lsp/declaration_headers.go\<close>) and the search for a declaration token
  (\<^verbatim>\<open>findDeclarationToken\<close> in \<^verbatim>\<open>signatures.go\<close>). Every loop runs over byte offsets
  \<open>i < end\<close>; the offsets come from \<open>byteOffsetContext\<close>, so \<open>end\<close> is at most the length of the
  source. A Go result \<^verbatim>\<open>(value, ok, err)\<close> is \<open>Inl err\<close>, \<open>Inr None\<close> or \<open>Inr (Some value)\<close>.
\<close>

section \<open>Sequencing scans\<close>

definition unless_err ::
  "lsp_error option \<times> nat \<Rightarrow> (nat \<Rightarrow> (lsp_error + 'a) \<times> nat) \<Rightarrow> (lsp_error + 'a) \<times> nat" where
  "unless_err p k = (case p of (Some e, n) \<Rightarrow> (Inl e, n) | (None, n) \<Rightarrow> k n)"

definition and_then ::
  "(lsp_error + 'a) \<times> nat \<Rightarrow> ('a \<Rightarrow> nat \<Rightarrow> (lsp_error + 'b) \<times> nat) \<Rightarrow> (lsp_error + 'b) \<times> nat" where
  "and_then p k = (case p of (Inl e, n) \<Rightarrow> (Inl e, n) | (Inr a, n) \<Rightarrow> k a n)"

lemma unless_err_cong [fundef_cong]:
  "p = p' \<Longrightarrow> (\<And>n. p' = (None, n) \<Longrightarrow> k n = k' n) \<Longrightarrow> unless_err p k = unless_err p' k'"
  by (auto simp: unless_err_def split: prod.splits option.splits)

lemma and_then_cong [fundef_cong]:
  "p = p' \<Longrightarrow> (\<And>a n. p' = (Inr a, n) \<Longrightarrow> k a n = k' a n) \<Longrightarrow> and_then p k = and_then p' k'"
  by (auto simp: and_then_def split: prod.splits sum.splits)

lemma unless_err_InrE [elim!]:
  assumes "unless_err p k = (Inr a, n')"
  obtains n where "p = (None, n)" "k n = (Inr a, n')"
  using assms by (auto simp: unless_err_def split: prod.splits option.splits)

lemma and_then_InrE [elim!]:
  assumes "and_then p k = (Inr b, n')"
  obtains a n where "p = (Inr a, n)" "k a n = (Inr b, n')"
  using assms by (auto simp: and_then_def split: prod.splits sum.splits)

definition check_ctx :: "ctx \<Rightarrow> nat \<Rightarrow> lsp_error option \<times> nat" where
  "check_ctx c n = (map_option Canceled (ctx_err c n), Suc n)"

definition scanContext :: "ctx \<Rightarrow> nat \<Rightarrow> nat \<Rightarrow> lsp_error option \<times> nat" where
  "scanContext c scanned n = (if 0 < scanned \<and> scanned mod 256 = 0 then check_ctx c n else (None, n))"

section \<open>Tokens\<close>

definition isIdentifierByte :: "char \<Rightarrow> bool" where
  "isIdentifierByte b \<longleftrightarrow> b = CHR ''_'' \<or> b = CHR ''$'' \<or> isASCIIDigit b \<or> isASCIIUpper b \<or>
     isASCIILower b \<or> 0x80 \<le> byte_val b"

definition tokenBoundary :: "string \<Rightarrow> nat \<Rightarrow> string \<Rightarrow> bool" where
  "tokenBoundary source start token =
     (if token = ''=>'' then True
      else (let end = start + length token in
        (start = 0 \<or> \<not> isIdentifierByte (source ! (start - 1))) \<and>
        (end = length source \<or> \<not> isIdentifierByte (source ! end))))"

definition token_at :: "string \<Rightarrow> nat \<Rightarrow> nat \<Rightarrow> string \<Rightarrow> bool" where
  "token_at source start end token \<longleftrightarrow>
     has_prefix (substr source start end) token \<and> tokenBoundary source start token"

definition declarationContextualKeywords :: "string list" where
  "declarationContextualKeywords =
     [''extends'', ''implements'', ''keyof'', ''typeof'', ''infer'', ''readonly'', ''new'', ''abstract'']"

definition declarationKeywordAt :: "string \<Rightarrow> nat \<Rightarrow> nat \<Rightarrow> string option" where
  "declarationKeywordAt source start end = find (token_at source start end) declarationContextualKeywords"

definition incompleteDeclarationToken :: "string \<Rightarrow> bool" where
  "incompleteDeclarationToken token \<longleftrightarrow>
     declarationKeywordAt token 0 (length token) \<noteq> None \<or>
     token \<in> set [''('', ''['', ''{'', ''<'', '','', ''?'', '':'', ''='', ''=>'', ''&'', ''|'', ''.'']"

section \<open>Lexical spans\<close>

datatype lexicalSpanKind = lexicalSpanNone | lexicalSpanComment | lexicalSpanLiteral

type_synonym span_result = "(lsp_error + nat \<times> lexicalSpanKind \<times> bool) \<times> nat"

function scanLineComment :: "ctx \<Rightarrow> string \<Rightarrow> nat \<Rightarrow> nat \<Rightarrow> nat \<Rightarrow> nat \<Rightarrow> span_result" where
  "scanLineComment c source start end i n =
     (if i < end then
        unless_err (scanContext c (i - start) n) (\<lambda>n1.
          if source ! i = newline then (Inr (Suc i, lexicalSpanComment, True), n1)
          else scanLineComment c source start end (Suc i) n1)
      else (Inr (end, lexicalSpanComment, True), n))"
  by pat_completeness auto
termination
  by (relation "measure (\<lambda>(c, source, start, end, i, n). end - i)") auto

function scanBlockComment :: "ctx \<Rightarrow> string \<Rightarrow> nat \<Rightarrow> nat \<Rightarrow> nat \<Rightarrow> nat \<Rightarrow> span_result" where
  "scanBlockComment c source start end i n =
     (if Suc i < end then
        unless_err (scanContext c (i - start) n) (\<lambda>n1.
          if source ! i = CHR ''*'' \<and> source ! Suc i = slash
          then (Inr (Suc (Suc i), lexicalSpanComment, True), n1)
          else scanBlockComment c source start end (Suc i) n1)
      else (Inr (end, lexicalSpanComment, False), n))"
  by pat_completeness auto
termination
  by (relation "measure (\<lambda>(c, source, start, end, i, n). end - i)") auto

function scanQuoted :: "ctx \<Rightarrow> string \<Rightarrow> char \<Rightarrow> nat \<Rightarrow> nat \<Rightarrow> nat \<Rightarrow> nat \<Rightarrow> span_result" where
  "scanQuoted c source quote start end i n =
     (if i < end then
        unless_err (scanContext c (i - start) n) (\<lambda>n1.
          if source ! i = backslash then scanQuoted c source quote start end (Suc (Suc i)) n1
          else if source ! i = quote then (Inr (Suc i, lexicalSpanLiteral, True), n1)
          else scanQuoted c source quote start end (Suc i) n1)
      else (Inr (end, lexicalSpanLiteral, False), n))"
  by pat_completeness auto
termination
  by (relation "measure (\<lambda>(c, source, quote, start, end, i, n). end - i)") auto

declare scanLineComment.simps [simp del] scanBlockComment.simps [simp del] scanQuoted.simps [simp del]

definition isQuote :: "char \<Rightarrow> bool" where
  "isQuote b \<longleftrightarrow> b = CHR 0x27 \<or> b = CHR 0x22 \<or> b = CHR 0x60"

definition scanLexicalSpan :: "ctx \<Rightarrow> string \<Rightarrow> nat \<Rightarrow> nat \<Rightarrow> nat \<Rightarrow> span_result" where
  "scanLexicalSpan c source start end n =
     (if source ! start = slash \<and> Suc start < end \<and> source ! Suc start = slash
      then scanLineComment c source start end (Suc (Suc start)) n
      else if source ! start = slash \<and> Suc start < end \<and> source ! Suc start = CHR ''*''
      then scanBlockComment c source start end (Suc (Suc start)) n
      else if \<not> isQuote (source ! start) then (Inr (start, lexicalSpanNone, True), n)
      else scanQuoted c source (source ! start) start end (Suc start) n)"

lemma scanLineComment_end:
  "scanLineComment c source start end i n = (Inr (j, k, complete), n') \<Longrightarrow> i \<le> end \<Longrightarrow>
   k = lexicalSpanComment \<and> complete \<and> i \<le> j \<and> j \<le> end \<and> (j = end \<or> source ! (j - 1) = newline)"
proof (induction c source start "end" i n arbitrary: complete rule: scanLineComment.induct)
  case (1 c source start m i n)
  from "1.prems" show ?case
    by (subst (asm) scanLineComment.simps) (auto split: if_splits dest!: "1.IH" [rotated 3])
qed

lemma scanBlockComment_end:
  "scanBlockComment c source start end i n = (Inr (j, k, complete), n') \<Longrightarrow> i \<le> end \<Longrightarrow>
   k = lexicalSpanComment \<and> i \<le> j \<and> j \<le> end \<and> (complete \<longrightarrow> source ! (j - 1) = slash)"
proof (induction c source start "end" i n arbitrary: complete rule: scanBlockComment.induct)
  case (1 c source start m i n)
  from "1.prems" show ?case
    by (subst (asm) scanBlockComment.simps) (auto split: if_splits dest!: "1.IH" [rotated 3])
qed

lemma scanQuoted_end:
  "scanQuoted c source quote start end i n = (Inr (j, k, complete), n') \<Longrightarrow>
   k = lexicalSpanLiteral \<and> j \<le> end \<and> (complete \<longrightarrow> i < j \<and> source ! (j - 1) = quote) \<and> (\<not> complete \<longrightarrow> j = end)"
proof (induction c source quote start "end" i n arbitrary: complete rule: scanQuoted.induct)
  case (1 c source quote start m i n)
  from "1.prems" show ?case
    by (subst (asm) scanQuoted.simps) (auto split: if_splits dest!: "1.IH"(1) [rotated 3] "1.IH"(2) [rotated 4])
qed

lemma scanLexicalSpan_next:
  assumes "scanLexicalSpan c source i end n = (Inr (j, kind, complete), n')" "i < end"
  shows "kind \<noteq> lexicalSpanNone \<Longrightarrow> i < j" and "kind \<noteq> lexicalSpanNone \<Longrightarrow> j \<le> end"
    and "kind = lexicalSpanNone \<Longrightarrow> j = i \<and> complete"
    and "kind = lexicalSpanLiteral \<Longrightarrow> isQuote (source ! i)"
    and "kind = lexicalSpanComment \<Longrightarrow> source ! i = slash"
    and "kind = lexicalSpanNone \<Longrightarrow> \<not> isQuote (source ! i)"
  using assms
  by (force simp: scanLexicalSpan_def split: if_splits
      dest: scanLineComment_end scanBlockComment_end scanQuoted_end)+

lemma span_progress:
  assumes "scanLexicalSpan c source i end n = (Inr (j, kind, complete), n')" "i < end" "kind \<noteq> lexicalSpanNone"
  shows "end - j < end - i"
  using scanLexicalSpan_next(1) [OF assms] assms(2) by linarith

lemma rune_progress: "i < end \<Longrightarrow> s \<noteq> [] \<Longrightarrow> end - (i + width_of s) < end - i"
  using width_of_pos [of s] by linarith

lemma keyword_progress:
  assumes "i < end" "declarationKeywordAt source i end = Some k" shows "end - (i + length k) < end - i"
proof -
  have "0 < length k"
    using assms(2) by (auto simp: declarationKeywordAt_def declarationContextualKeywords_def split: if_splits)
  then show ?thesis using assms(1) by linarith
qed

lemma substr_nonempty: "i < m \<and> i < length s \<Longrightarrow> substr s i m \<noteq> []"
  by (simp add: substr_def)

lemma space_progress: "isSpace (rune_of s) \<Longrightarrow> 0 < width_of s"
  by (cases "s = []") (auto simp: isSpace_def RuneError_def)

section \<open>Scanning for tokens, names and bodies\<close>

definition bump :: "char \<Rightarrow> char \<Rightarrow> char \<Rightarrow> nat \<Rightarrow> nat" where
  "bump opening closing b depth = (if b = opening then Suc depth else if b = closing then depth - 1 else depth)"

text \<open>The end of a scan that found nothing: one more context check.\<close>

definition not_found :: "ctx \<Rightarrow> nat \<Rightarrow> (lsp_error + 'a option) \<times> nat" where
  "not_found c n = unless_err (check_ctx c n) (\<lambda>n'. (Inr None, n'))"

function tokenScan ::
  "ctx \<Rightarrow> string \<Rightarrow> nat \<Rightarrow> nat \<Rightarrow> string list \<Rightarrow> nat \<Rightarrow> nat \<Rightarrow> nat \<Rightarrow> nat \<Rightarrow> nat \<Rightarrow> (lsp_error + nat option) \<times> nat"
where
  "tokenScan c source start end tokens paren bracket brace i n =
     (if i < end then
        unless_err (scanContext c (i - start) n) (\<lambda>n1.
        and_then (scanLexicalSpan c source i end n1) (\<lambda>(next, kind, complete) n2.
          if kind \<noteq> lexicalSpanNone then
            if \<not> complete then (Inr None, n2)
            else tokenScan c source start end tokens paren bracket brace next n2
          else
            let b = source ! i;
                paren' = bump CHR ''('' CHR '')'' b paren;
                bracket' = bump CHR ''['' CHR '']'' b bracket;
                brace' = bump CHR ''{'' CHR ''}'' b brace;
                size = width_of (substr source i end)
            in if paren' = 0 \<and> bracket' = 0 \<and> brace' = 0 \<and> list_ex (token_at source i end) tokens
               then (Inr (Some i), n2)
               else if size = 0 then not_found c n2
               else tokenScan c source start end tokens paren' bracket' brace' (i + size) n2))
      else not_found c n)"
  by pat_completeness auto
termination
  by (relation "measure (\<lambda>(c, source, start, end, tokens, paren, bracket, brace, i, n). end - i)")
     (auto intro: span_progress rune_progress)

definition declarationTokenOffset ::
  "ctx \<Rightarrow> string \<Rightarrow> nat \<Rightarrow> nat \<Rightarrow> string list \<Rightarrow> nat \<Rightarrow> (lsp_error + nat option) \<times> nat" where
  "declarationTokenOffset c source start end tokens n = tokenScan c source start end tokens 0 0 0 start n"

function skipTrivia ::
  "ctx \<Rightarrow> string \<Rightarrow> nat \<Rightarrow> nat \<Rightarrow> nat \<Rightarrow> nat \<Rightarrow> (lsp_error + nat option) \<times> nat" where
  "skipTrivia c source start end i n =
     (if i < end then
        unless_err (scanContext c (i - start) n) (\<lambda>n1.
        and_then (scanLexicalSpan c source i end n1) (\<lambda>(next, kind, complete) n2.
          if kind = lexicalSpanComment then
            if \<not> complete then (Inr None, n2) else skipTrivia c source start end next n2
          else if kind = lexicalSpanLiteral then (Inr None, n2)
          else (let (r, size) = decode_rune (substr source i end) in
                if \<not> isSpace r then (Inr (Some i), n2)
                else skipTrivia c source start end (i + size) n2)))
      else (Inr None, n))"
  by pat_completeness auto
termination
proof (relation "measure (\<lambda>(c, source, start, end, i, n). end - i)", goal_cases)
  case (2 c source start m i n n1 a n2 j y kind complete)
  then show ?case using span_progress by auto
next
  case (3 c source start m i n n1 a n2 j y kind complete x d r size)
  then have "0 < size" using space_progress [of "substr source i m"] by (metis fst_conv snd_conv)
  with 3 show ?case by auto
qed simp

definition skipDeclarationTrivia ::
  "ctx \<Rightarrow> string \<Rightarrow> nat \<Rightarrow> nat \<Rightarrow> nat \<Rightarrow> (lsp_error + nat option) \<times> nat" where
  "skipDeclarationTrivia c source start end n = skipTrivia c source start end start n"

declare tokenScan.simps [simp del] skipTrivia.simps [simp del]

record bodyState =
  bs_paren :: nat
  bs_bracket :: nat
  bs_brace :: nat
  bs_angle :: nat
  bs_last :: string

datatype body_action = BodyReject | BodyFound | BodyNext bodyState

definition bs_enclosed :: "bodyState \<Rightarrow> bool" where
  "bs_enclosed st \<longleftrightarrow> \<not> (bs_paren st = 0 \<and> bs_bracket st = 0 \<and> bs_brace st = 0)"

text \<open>The switch of \<open>declarationBodyOffset\<close> on the byte at \<open>i\<close>.\<close>

definition bodyByte :: "string \<Rightarrow> nat \<Rightarrow> nat \<Rightarrow> nat \<Rightarrow> bodyState \<Rightarrow> body_action" where
  "bodyByte source start end i st =
     (let b = source ! i in
      if b = CHR ''('' then BodyNext (st\<lparr>bs_paren := bs_paren st + 1, bs_last := ''(''\<rparr>)
      else if b = CHR '')'' then
        if bs_paren st = 0 then BodyReject
        else BodyNext (st\<lparr>bs_paren := bs_paren st - 1, bs_last := ''value''\<rparr>)
      else if b = CHR ''['' then BodyNext (st\<lparr>bs_bracket := bs_bracket st + 1, bs_last := ''[''\<rparr>)
      else if b = CHR '']'' then
        if bs_bracket st = 0 then BodyReject
        else BodyNext (st\<lparr>bs_bracket := bs_bracket st - 1, bs_last := ''value''\<rparr>)
      else if b = CHR ''<'' then
        if bs_enclosed st then BodyNext st
        else BodyNext (st\<lparr>bs_angle := bs_angle st + 1, bs_last := ''<''\<rparr>)
      else if b = CHR ''>'' then
        if bs_enclosed st then BodyNext st
        else if start < i \<and> source ! (i - 1) = CHR ''='' then BodyNext (st\<lparr>bs_last := ''=>''\<rparr>)
        else if bs_angle st = 0 \<or> bs_last st \<noteq> '','' \<and> incompleteDeclarationToken (bs_last st)
        then BodyReject
        else BodyNext (st\<lparr>bs_angle := bs_angle st - 1, bs_last := ''value''\<rparr>)
      else if b = CHR ''{'' then
        if \<not> bs_enclosed st \<and> bs_angle st = 0 then
          if incompleteDeclarationToken (bs_last st) then BodyReject else BodyFound
        else BodyNext (st\<lparr>bs_brace := bs_brace st + 1, bs_last := ''{''\<rparr>)
      else if b = CHR ''}'' then
        if bs_brace st = 0 then BodyReject
        else BodyNext (st\<lparr>bs_brace := bs_brace st - 1, bs_last := ''value''\<rparr>)
      else if b = CHR '';'' then
        if \<not> bs_enclosed st \<and> bs_angle st = 0 then BodyReject
        else BodyNext (st\<lparr>bs_last := ''value''\<rparr>)
      else if b \<in> set '',?:=&|.'' then BodyNext (st\<lparr>bs_last := [b]\<rparr>)
      else if \<not> isSpace (rune_of (substr source i end)) then BodyNext (st\<lparr>bs_last := ''value''\<rparr>)
      else BodyNext st)"

function bodyScan ::
  "ctx \<Rightarrow> string \<Rightarrow> nat \<Rightarrow> nat \<Rightarrow> bodyState \<Rightarrow> nat \<Rightarrow> nat \<Rightarrow> (lsp_error + nat option) \<times> nat" where
  "bodyScan c source start end st i n =
     (if i < end then
        unless_err (scanContext c (i - start) n) (\<lambda>n1.
        and_then (scanLexicalSpan c source i end n1) (\<lambda>(next, kind, complete) n2.
          if kind \<noteq> lexicalSpanNone then
            if \<not> complete then (Inr None, n2)
            else bodyScan c source start end
              (if kind = lexicalSpanLiteral then st\<lparr>bs_last := ''value''\<rparr> else st) next n2
          else (case declarationKeywordAt source i end of
            Some keyword \<Rightarrow>
              bodyScan c source start end
                (st\<lparr>bs_last := (if bs_last st = ''.'' then ''value'' else keyword)\<rparr>) (i + length keyword) n2
          | None \<Rightarrow>
              (case bodyByte source start end i st of
                 BodyReject \<Rightarrow> (Inr None, n2)
               | BodyFound \<Rightarrow> (Inr (Some i), n2)
               | BodyNext st' \<Rightarrow>
                   (let size = width_of (substr source i end) in
                    if size = 0 then not_found c n2
                    else bodyScan c source start end st' (i + size) n2)))))
      else not_found c n)"
  by pat_completeness auto
termination
  by (relation "measure (\<lambda>(c, source, start, end, st, i, n). end - i)") (auto intro: span_progress rune_progress keyword_progress)

declare bodyScan.simps [simp del]

definition declarationBodyOffset ::
  "ctx \<Rightarrow> string \<Rightarrow> nat \<Rightarrow> nat \<Rightarrow> nat \<Rightarrow> (lsp_error + nat option) \<times> nat" where
  "declarationBodyOffset c source start end n =
     bodyScan c source start end
       \<lparr>bs_paren = 0, bs_bracket = 0, bs_brace = 0, bs_angle = 0, bs_last = ''value''\<rparr> start n"

section \<open>Headers\<close>

definition appendDeclarationSpace :: "string \<Rightarrow> bool \<Rightarrow> string" where
  "appendDeclarationSpace normalized pending =
     (if pending \<and> normalized \<noteq> [] then normalized @ '' '' else normalized)"

function headerScan ::
  "ctx \<Rightarrow> string \<Rightarrow> nat \<Rightarrow> nat \<Rightarrow> string \<Rightarrow> bool \<Rightarrow> nat \<Rightarrow> nat \<Rightarrow> (lsp_error + string option) \<times> nat" where
  "headerScan c source start end normalized pending i n =
     (if i < end \<and> i < length source then
        unless_err (scanContext c (i - start) n) (\<lambda>n1.
        and_then (scanLexicalSpan c source i end n1) (\<lambda>(next, kind, complete) n2.
          if kind = lexicalSpanComment then
            if \<not> complete then (Inr None, n2)
            else headerScan c source start end normalized True next n2
          else if kind = lexicalSpanLiteral then
            if \<not> complete \<or> newline \<in> set (substr source i next) \<or> CHR 0x0D \<in> set (substr source i next)
            then (Inr None, n2)
            else headerScan c source start end
              (appendDeclarationSpace normalized pending @ substr source i next) False next n2
          else
            (let (r, size) = decode_rune (substr source i end) in
             if isSpace r then headerScan c source start end normalized True (i + size) n2
             else headerScan c source start end
               (appendDeclarationSpace normalized pending @ substr source i (i + size)) False (i + size) n2)))
      else
        unless_err (check_ctx c n) (\<lambda>n1. (Inr (if normalized \<noteq> [] then Some normalized else None), n1)))"
  by pat_completeness auto
termination
proof (relation "measure (\<lambda>(c, source, start, end, normalized, pending, i, n). end - i)", goal_cases)
  case (2 c source start m normalized pending i n n1 a n2 j y kind complete)
  then show ?case using span_progress by auto
next
  case (3 c source start m normalized pending i n n1 a n2 j y kind complete)
  then show ?case using span_progress by auto
next
  case (4 c source start m normalized pending i n n1 a n2 j y kind complete x d r size)
  then have "0 < size" using width_of_pos [of "substr source i m"]
    by (metis snd_conv substr_nonempty)
  with 4 show ?case by auto
next
  case (5 c source start m normalized pending i n n1 a n2 j y kind complete x d r size)
  then have "0 < size" using width_of_pos [of "substr source i m"]
    by (metis snd_conv substr_nonempty)
  with 5 show ?case by auto
qed simp

declare headerScan.simps [simp del]

definition normalizeDeclarationHeader ::
  "ctx \<Rightarrow> string \<Rightarrow> nat \<Rightarrow> nat \<Rightarrow> nat \<Rightarrow> (lsp_error + string option) \<times> nat" where
  "normalizeDeclarationHeader c source start end n = headerScan c source start end [] False start n"

definition header_keyword :: "SymbolKind \<Rightarrow> string option" where
  "header_keyword kind = (if kind = SymbolKindClass then Some ''class''
     else if kind = SymbolKindInterface then Some ''interface'' else None)"

text \<open>Sequencing of steps that may also end without a result.\<close>

definition and_found ::
  "(lsp_error + 'a option) \<times> nat \<Rightarrow> ('a \<Rightarrow> nat \<Rightarrow> (lsp_error + 'b option) \<times> nat) \<Rightarrow> (lsp_error + 'b option) \<times> nat" where
  "and_found p k = and_then p (\<lambda>a n. case a of None \<Rightarrow> (Inr None, n) | Some v \<Rightarrow> k v n)"

definition extractDeclarationHeader ::
  "ctx \<Rightarrow> string \<Rightarrow> Symbol \<Rightarrow> nat \<Rightarrow> (lsp_error + string option) \<times> nat" where
  "extractDeclarationHeader c source symbol n =
     (case header_keyword (sym_Kind symbol) of
        None \<Rightarrow> (Inr None, n)
      | Some keyword \<Rightarrow>
          unless_err (check_ctx c n) (\<lambda>n1.
          and_then (byteOffsetContext c source (Start (sym_Range symbol)) n1) (\<lambda>start n2.
          and_then (byteOffsetContext c source (End (sym_Range symbol)) n2) (\<lambda>end n3.
            if end < start then (Inr None, n3)
            else
              and_found (declarationTokenOffset c source start end [keyword] n3) (\<lambda>keywordOffset n4.
              and_found (skipDeclarationTrivia c source (keywordOffset + length keyword) end n4) (\<lambda>nameOffset n5.
                if sym_Name symbol = [] \<or> \<not> token_at source nameOffset end (sym_Name symbol) then (Inr None, n5)
                else
                  and_found (declarationBodyOffset c source (nameOffset + length (sym_Name symbol)) end n5)
                    (\<lambda>bodyOffset n6. normalizeDeclarationHeader c source keywordOffset bodyOffset n6)))))))"

definition findDeclarationToken ::
  "ctx \<Rightarrow> string \<Rightarrow> Range \<Rightarrow> string list \<Rightarrow> nat \<Rightarrow> (lsp_error + Position option) \<times> nat" where
  "findDeclarationToken c source r tokens n =
     and_then (byteOffsetContext c source (Start r) n) (\<lambda>start n1.
     and_then (byteOffsetContext c source (End r) n1) (\<lambda>end n2.
       if end < start then (Inl EndBeforeStart, n2)
       else
         and_found (declarationTokenOffset c source start end tokens n2) (\<lambda>offset n3.
           (Inr (Some (positionAt source offset)), n3))))"

section \<open>What the scans return\<close>

lemma and_found_InrE [elim!]:
  assumes "and_found p k = (Inr (Some b), n')"
  obtains a n where "p = (Inr (Some a), n)" "k a n = (Inr (Some b), n')"
  using assms by (auto simp: and_found_def split: option.splits)

lemma not_found_Inr [simp]: "not_found c n \<noteq> (Inr (Some v), n')"
  by (auto simp: not_found_def)

text \<open>
  A search that at every turn stops with its offset or goes on to a later one finds an
  offset in the window it started from.
\<close>

lemma forward_search:
  assumes step: "\<And>i. P i \<Longrightarrow> i < m \<and> (k = i \<and> Q i \<or> (\<exists>j > i. P j))" and "P i"
  shows "i \<le> k \<and> k < (m :: nat) \<and> Q k"
  using \<open>P i\<close>
proof (induction "m - i" arbitrary: i rule: less_induct)
  case less
  from step [OF less.prems] show ?case
  proof (elim conjE disjE exE)
    fix j assume "i < m" "i < j" "P j"
    then show ?thesis using less.hyps [of j] step [of j] by fastforce
  qed auto
qed

lemma later:
  "scanLexicalSpan c s i m n = (Inr (j, lexicalSpanComment, b), n') \<Longrightarrow> i < m \<Longrightarrow> i < j"
  "scanLexicalSpan c s i m n = (Inr (j, lexicalSpanLiteral, b), n') \<Longrightarrow> i < m \<Longrightarrow> i < j"
  "scanLexicalSpan c s i m n = (Inr (j, kind, b), n') \<Longrightarrow> i < m \<Longrightarrow> kind \<noteq> lexicalSpanNone \<Longrightarrow> i < j"
  "decode_rune t = (r, w) \<Longrightarrow> isSpace r \<Longrightarrow> 0 < w"
  "declarationKeywordAt s i m = Some kw \<Longrightarrow> i < m \<Longrightarrow> kw \<noteq> []"
  using scanLexicalSpan_next(1) space_progress [of t] keyword_progress [of i m s kw] by force+

lemma tokenScan_found:
  assumes "tokenScan c source start end tokens paren bracket brace i n = (Inr (Some k), n')"
  shows "i \<le> k \<and> k < end \<and> list_ex (token_at source k end) tokens"
proof (rule forward_search [where P = "\<lambda>i. \<exists>p b q n. tokenScan c source start end tokens p b q i n = (Inr (Some k), n')"])
  fix i assume "\<exists>p b q n. tokenScan c source start end tokens p b q i n = (Inr (Some k), n')"
  then obtain p b q n where "tokenScan c source start end tokens p b q i n = (Inr (Some k), n')" by blast
  then show "i < end \<and> (k = i \<and> list_ex (token_at source i end) tokens \<or>
    (\<exists>j > i. \<exists>p b q n. tokenScan c source start end tokens p b q j n = (Inr (Some k), n')))"
    by (subst (asm) tokenScan.simps)
       (auto simp: Let_def split: if_splits dest: scanLexicalSpan_next(1); fastforce dest: scanLexicalSpan_next(1))
qed (use assms in blast)

lemma skipTrivia_found:
  assumes "skipTrivia c source start end i n = (Inr (Some k), n')"
  shows "i \<le> k \<and> k < end \<and> \<not> isSpace (rune_of (substr source k end))"
proof (rule forward_search [where P = "\<lambda>i. \<exists>n. skipTrivia c source start end i n = (Inr (Some k), n')"])
  fix i assume "\<exists>n. skipTrivia c source start end i n = (Inr (Some k), n')"
  then obtain n where "skipTrivia c source start end i n = (Inr (Some k), n')" by blast
  then show "i < end \<and> (k = i \<and> \<not> isSpace (rune_of (substr source i end)) \<or>
    (\<exists>j > i. \<exists>n. skipTrivia c source start end j n = (Inr (Some k), n')))"
    by (subst (asm) skipTrivia.simps)
       (auto simp: Let_def split: if_splits prod.splits; fastforce dest: later)
qed (use assms in blast)

lemma bodyByte_found: "bodyByte source start end i st = BodyFound \<Longrightarrow> source ! i = CHR ''{''"
  by (auto simp: bodyByte_def Let_def split: if_splits)

lemma bodyScan_found:
  assumes "bodyScan c source start end st i n = (Inr (Some k), n')"
  shows "i \<le> k \<and> k < end \<and> source ! k = CHR ''{''"
proof (rule forward_search [where P = "\<lambda>i. \<exists>st n. bodyScan c source start end st i n = (Inr (Some k), n')"])
  fix i assume "\<exists>st n. bodyScan c source start end st i n = (Inr (Some k), n')"
  then obtain st n where "bodyScan c source start end st i n = (Inr (Some k), n')" by blast
  then show "i < end \<and> (k = i \<and> source ! i = CHR ''{'' \<or>
    (\<exists>j > i. \<exists>st n. bodyScan c source start end st j n = (Inr (Some k), n')))"
    by (subst (asm) bodyScan.simps)
       (auto simp: Let_def bodyByte_found split: if_splits option.splits body_action.splits; fastforce dest: later)
qed (use assms in blast)

section \<open>Headers are one line and start with their keyword\<close>

definition single_line :: "string \<Rightarrow> bool" where
  "single_line s \<longleftrightarrow> newline \<notin> set s \<and> CHR 0x0D \<notin> set s"

lemma single_line_append [simp]: "single_line (s @ t) \<longleftrightarrow> single_line s \<and> single_line t"
  by (auto simp: single_line_def)

lemma of_char_cr: "byte_val b = 13 \<Longrightarrow> b = CHR 0x0D"
  using of_char_eq_iff [of b "CHR 0x0D", where 'a = nat] by simp

lemma rune_single_line:
  assumes "\<not> isSpace (rune_of t)"
  shows "single_line (take (width_of t) t)"
proof (cases t)
  case (Cons b u)
  have first: "b \<noteq> newline \<and> b \<noteq> CHR 0x0D"
    using assms decode_rune_byte [of 10 b u] decode_rune_byte [of 13 b u] Cons by (auto simp: isSpace_def)
  have "x \<noteq> newline \<and> x \<noteq> CHR 0x0D" if "x \<in> set (take (width_of t) t)" for x
  proof -
    from that obtain j where "j < length (take (width_of t) t)" "take (width_of t) t ! j = x"
      unfolding in_set_conv_nth by blast
    then have j: "j < width_of t" "x = t ! j" by auto
    show ?thesis
    proof (cases j)
      case (Suc j')
      then have "0x80 \<le> byte_val x" using rune_tail_nonascii [of j b u] j Cons by simp
      then show ?thesis by auto
    qed (use first j Cons in simp)
  qed
  then show ?thesis unfolding single_line_def by blast
qed (simp add: single_line_def)

lemma substr_rune:
  assumes "decode_rune (substr s i m) = (r, w)" "\<not> isSpace r"
  shows "single_line (substr s i (i + w))"
proof -
  have "w \<le> m - i" using width_of_le [of "substr s i m"] assms(1) by (auto simp: substr_def)
  then have "take w (substr s i m) = substr s i (i + w)" by (simp add: substr_def min_def)
  then show ?thesis using rune_single_line [of "substr s i m"] assms by simp
qed

lemma appendDeclarationSpace_line [simp]:
  "single_line (appendDeclarationSpace s p) \<longleftrightarrow> single_line s"
  by (auto simp: appendDeclarationSpace_def single_line_def)

lemma appendDeclarationSpace_prefix: "\<exists>u. appendDeclarationSpace s p = s @ u"
  by (auto simp: appendDeclarationSpace_def)

lemma headerScan_line:
  "headerScan c source start end normalized pending i n = (Inr (Some h), n') \<Longrightarrow>
   single_line normalized \<Longrightarrow> single_line h \<and> (\<exists>u. h = normalized @ u)"
proof (induction "end - i" arbitrary: normalized pending i n rule: less_induct)
  case less
  show ?case
  proof (cases "i < end \<and> i < length source")
    case False
    with less.prems show ?thesis by (subst (asm) headerScan.simps) (auto split: if_splits)
  next
    case True
    with less.prems(1) obtain n1 j kind complete n2 where
        scan: "scanLexicalSpan c source i end n1 = (Inr (j, kind, complete), n2)"
      and rest: "(if kind = lexicalSpanComment then
            if \<not> complete then (Inr None, n2) else headerScan c source start end normalized True j n2
          else if kind = lexicalSpanLiteral then
            if \<not> complete \<or> newline \<in> set (substr source i j) \<or> CHR 0x0D \<in> set (substr source i j)
            then (Inr None, n2)
            else headerScan c source start end
              (appendDeclarationSpace normalized pending @ substr source i j) False j n2
          else (let (r, size) = decode_rune (substr source i end) in
             if isSpace r then headerScan c source start end normalized True (i + size) n2
             else headerScan c source start end
               (appendDeclarationSpace normalized pending @ substr source i (i + size)) False (i + size) n2))
        = (Inr (Some h), n')"
      by (subst (asm) headerScan.simps) auto
    obtain r size where d: "decode_rune (substr source i end) = (r, size)" by fastforce
    have size: "0 < size" using d True substr_nonempty width_of_pos by (metis snd_conv)
    obtain norm' p j' n3 where
        nx: "headerScan c source start end norm' p j' n3 = (Inr (Some h), n')" and "i < j'"
        "norm' = normalized \<or> (\<exists>t. norm' = appendDeclarationSpace normalized pending @ t \<and> single_line t)"
    proof (cases kind)
      case lexicalSpanNone
      then show ?thesis using rest d size substr_rune [OF d] that
        by (cases "isSpace r") (auto simp del: One_nat_def)
    next
      case lexicalSpanComment
      then show ?thesis using rest later(1) scan True that by (auto split: if_splits)
    next
      case lexicalSpanLiteral
      then show ?thesis using rest later(2) scan True that by (fastforce simp: single_line_def split: if_splits)
    qed
    then have "single_line h \<and> (\<exists>u. h = norm' @ u)"
      using less.prems(2) True by (intro less.hyps [OF _ nx]) auto
    then show ?thesis
      using \<open>norm' = _ \<or> _\<close> appendDeclarationSpace_prefix [of normalized pending] by auto
  qed
qed

lemma headerScan_letter:
  assumes "headerScan c source start end normalized False i n = (Inr (Some h), n')"
    and "i < end" "i < length source" "isASCIILower (source ! i)"
  obtains n1 where "headerScan c source start end (normalized @ [source ! i]) False (Suc i) n1 = (Inr (Some h), n')"
proof -
  let ?b = "source ! i"
  have b: "byte_val ?b < 0x80" "\<not> isSpace (byte_val ?b)" "?b \<noteq> slash" "\<not> isQuote ?b"
    using assms(4) by (auto simp: isASCIILower_def isSpace_def isQuote_def)
  have sub: "substr source i m = ?b # take (m - Suc i) (drop (Suc i) source)" if "i < m" for m
    using that assms(3) Cons_nth_drop_Suc [of i source] Suc_diff_Suc [of i m]
    by (metis substr_def take_Suc_Cons)
  have d: "decode_rune (substr source i end) = (byte_val ?b, 1)"
    using sub [OF assms(2)] decode_rune_ascii [OF b(1)] by simp
  have one: "substr source i (Suc i) = [?b]" using sub [of "Suc i"] by simp
  have "scanLexicalSpan c source i end n1 = (Inr (i, lexicalSpanNone, True), n1)" for n1
    using b by (simp add: scanLexicalSpan_def)
  then show ?thesis
    using assms(1-3) that d b(2) one
    by (subst (asm) headerScan.simps) (auto simp: appendDeclarationSpace_def)
qed

lemma headerScan_word:
  "headerScan c source start end normalized False i n = (Inr (Some h), n') \<Longrightarrow>
   has_prefix (drop i source) kw \<Longrightarrow> i + length kw \<le> end \<Longrightarrow> list_all isASCIILower kw \<Longrightarrow> single_line normalized \<Longrightarrow>
   has_prefix h (normalized @ kw)"
proof (induction kw arbitrary: normalized i n)
  case Nil
  then show ?case using headerScan_line by fastforce
next
  case (Cons x kw)
  obtain r where r: "drop i source = x # kw @ r" using Cons.prems(2) by (auto simp: has_prefix_iff)
  then have i: "i < length source" by (metis drop_eq_Nil list.distinct(1) not_le)
  then have ix: "source ! i = x" "drop (Suc i) source = kw @ r"
    using r Cons_nth_drop_Suc [OF i] by (metis list.inject)+
  have "single_line [x]" using Cons.prems(4) by (auto simp: single_line_def isASCIILower_def)
  obtain n1 where "headerScan c source start end (normalized @ [x]) False (Suc i) n1 = (Inr (Some h), n')"
    using headerScan_letter [OF Cons.prems(1)] i ix Cons.prems(3,4) by auto
  then have "has_prefix h ((normalized @ [x]) @ kw)"
    using Cons.prems(3-5) ix \<open>single_line [x]\<close> by (intro Cons.IH) auto
  then show ?case by simp
qed

section \<open>Properties\<close>

lemma token_at_prefix:
  assumes "token_at source k end token"
  shows "has_prefix (drop k source) token" and "length token \<le> end - k" and "k + length token \<le> length source \<or> token = []"
proof -
  obtain r where r: "take (end - k) (drop k source) = token @ r"
    using assms by (auto simp: token_at_def substr_def has_prefix_iff)
  then show "has_prefix (drop k source) token"
    by (metis append.assoc append_take_drop_id has_prefix_append)
  have "length (token @ r) \<le> end - k" "length (token @ r) \<le> length source - k"
    unfolding r [symmetric] by simp_all
  then show "length token \<le> end - k" "k + length token \<le> length source \<or> token = []"
    by (auto, cases token, auto)
qed

text \<open>The token search returns a position inside the range whose byte offset starts one
  of the tokens, delimited as a token.\<close>

theorem findDeclarationToken_sound:
  assumes "findDeclarationToken c source r tokens n = (Inr (Some p), n')"
    and "\<And>t. t \<in> set tokens \<Longrightarrow> t \<noteq> [] \<and> byte_val (hd t) < 0x80"
  shows "\<exists>a b k t. positionAt source a = Start r \<and> positionAt source b = End r \<and> a \<le> k \<and> k < b \<and>
    byteOffset source p = Inr k \<and> t \<in> set tokens \<and> token_at source k b t"
proof -
  obtain a b k n1 n2 n3 where ab: "byteOffsetContext c source (Start r) n = (Inr a, n1)"
      "byteOffsetContext c source (End r) n1 = (Inr b, n2)"
    and k: "tokenScan c source a b tokens 0 0 0 a n2 = (Inr (Some k), n3)" "p = positionAt source k"
    using assms(1)
    by (auto simp: findDeclarationToken_def declarationTokenOffset_def split: if_splits)
  obtain t where t: "a \<le> k" "k < b" "t \<in> set tokens" "token_at source k b t"
    using tokenScan_found [OF k(1)] by (auto simp: list_ex_iff)
  obtain x t' where x: "t = x # t'" "byte_val x < 0x80" using assms(2) [OF t(3)] by (cases t) auto
  have "source ! k = x" "k < length source"
    using token_at_prefix [OF t(4)] x(1) by (auto simp: has_prefix_iff nth_via_drop)
  then have "boundary source k" using ascii_boundary x(2) by blast
  then have "byteOffset source p = Inr k"
    using byteOffsetContext_ok [of background source k 0] k(2) by (simp add: byteOffset_def background_def)
  then show ?thesis
    using byteOffsetContext_Inr [OF ab(1)] byteOffsetContext_Inr [OF ab(2)] t by blast
qed

lemma header_keyword_lower: "header_keyword kind = Some kw \<Longrightarrow> list_all isASCIILower kw"
  by (auto simp: header_keyword_def isASCIILower_def simp del: One_nat_def split: if_splits cong: if_cong)

text \<open>A header that \<open>extractDeclarationHeader\<close> returns is one line that starts with the
  keyword of the symbol's kind.\<close>

theorem extractDeclarationHeader_line:
  assumes "extractDeclarationHeader c source symbol n = (Inr (Some h), n')"
  shows "\<exists>kw. header_keyword (sym_Kind symbol) = Some kw \<and> has_prefix h kw \<and> single_line h"
proof -
  obtain kw a b ko no bo m1 m2 m3 m4 where kw: "header_keyword (sym_Kind symbol) = Some kw"
    and s1: "tokenScan c source a b [kw] 0 0 0 a m1 = (Inr (Some ko), m2)"
    and s2: "skipTrivia c source (ko + length kw) b (ko + length kw) m2 = (Inr (Some no), m3)"
    and s3: "declarationBodyOffset c source (no + length (sym_Name symbol)) b m3 = (Inr (Some bo), m4)"
    and s4: "headerScan c source ko bo [] False ko m4 = (Inr (Some h), n')"
    using assms
    by (fastforce simp: extractDeclarationHeader_def declarationTokenOffset_def skipDeclarationTrivia_def
        normalizeDeclarationHeader_def split: option.splits if_splits)
  have tok: "token_at source ko b kw" using tokenScan_found [OF s1] by simp
  have "ko + length kw \<le> bo"
    using skipTrivia_found [OF s2] bodyScan_found [OF s3 [unfolded declarationBodyOffset_def]] by linarith
  moreover have "list_all isASCIILower kw"
    using kw header_keyword_lower by blast
  ultimately show ?thesis
    using kw headerScan_word [OF s4 token_at_prefix(1) [OF tok]] headerScan_line [OF s4]
    by (simp add: single_line_def)
qed

subsection \<open>Witnesses\<close>

definition class_source :: string where "class_source = ''class  A {}''"

definition class_symbol :: Symbol where
  "class_symbol = \<lparr>sym_Name = ''A'', sym_Kind = SymbolKindClass, sym_File = ''/a.ts'',
     sym_Range = \<lparr>Start = \<lparr>Line = 0, Character = 0\<rparr>, End = \<lparr>Line = 0, Character = 11\<rparr>\<rparr>,
     sym_SelRange = \<lparr>Start = \<lparr>Line = 0, Character = 7\<rparr>, End = \<lparr>Line = 0, Character = 8\<rparr>\<rparr>,
     sym_Signature = [], sym_Detail = []\<rparr>"

lemmas eval_scan =
  class_source_def class_symbol_def extractDeclarationHeader_def header_keyword_def and_found_def and_then_def
  unless_err_def check_ctx_def declarationTokenOffset_def tokenScan.simps skipDeclarationTrivia_def
  skipTrivia.simps declarationBodyOffset_def bodyScan.simps bodyByte_def normalizeDeclarationHeader_def
  headerScan.simps scanContext_def scanLexicalSpan_def isQuote_def token_at_def tokenBoundary_def
  isIdentifierByte_def isASCIIDigit_def isASCIILower_def isASCIIUpper_def bump_def declarationKeywordAt_def
  declarationContextualKeywords_def incompleteDeclarationToken_def bs_enclosed_def isSpace_def
  appendDeclarationSpace_def findDeclarationToken_def not_found_def

theorem extractDeclarationHeader_line_witness:
  "has_prefix ''class A'' ''class'' \<and> single_line ''class A''"
proof -
  have "\<exists>n'. extractDeclarationHeader background class_source class_symbol 0 = (Inr (Some ''class A''), n')"
    by (simp add: eval_scan eval_source del: Position_Validate_None)
  then show ?thesis using extractDeclarationHeader_line by (fastforce simp: header_keyword_def class_symbol_def)
qed

theorem findDeclarationToken_sound_witness:
  "\<exists>a b k t. positionAt class_source a = \<lparr>Line = 0, Character = 0\<rparr> \<and>
     positionAt class_source b = \<lparr>Line = 0, Character = 11\<rparr> \<and> a \<le> k \<and> k < b \<and>
     byteOffset class_source \<lparr>Line = 0, Character = 0\<rparr> = Inr k \<and> t \<in> set [''class''] \<and> token_at class_source k b t"
proof -
  have "\<exists>n'. findDeclarationToken background class_source (sym_Range class_symbol) [''class''] 0 =
      (Inr (Some \<lparr>Line = 0, Character = 0\<rparr>), n')"
    by (simp add: eval_scan eval_source del: Position_Validate_None)
  then obtain n' where h: "findDeclarationToken background class_source (sym_Range class_symbol) [''class''] 0 =
      (Inr (Some \<lparr>Line = 0, Character = 0\<rparr>), n')" by blast
  have "Start (sym_Range class_symbol) = \<lparr>Line = 0, Character = 0\<rparr>"
      "End (sym_Range class_symbol) = \<lparr>Line = 0, Character = 11\<rparr>" by (simp_all add: class_symbol_def)
  then show ?thesis using findDeclarationToken_sound [OF h] by simp
qed

end
