(* ===== verification/Lsp_Signatures.thy ===== *)
theory Lsp_Signatures
  imports Declaration_Headers Lsp_Hover Transition_Systems
begin

text \<open>
  Signatures of symbols (\<^verbatim>\<open>src/internal/lsp/signatures.go\<close>): the plan for one symbol, and the
  bounded pool of workers that asks the server for the signatures no plan could give. The
  pool is a step relation: dispatching, completing, failing and the cancellation of the
  caller interleave in every possible order.
\<close>

section \<open>Plans\<close>

record signaturePlan =
  plan_position :: Position
  plan_direct :: string
  plan_symbol :: Symbol

definition needsSignatureSource :: "Symbol list \<Rightarrow> bool" where
  "needsSignatureSource symbols \<longleftrightarrow>
     list_ex (\<lambda>symbol. sym_Kind symbol = SymbolKindClass \<or> sym_Kind symbol = SymbolKindInterface \<or>
       Start (sym_SelRange symbol) = End (sym_SelRange symbol) \<and> sym_Name symbol \<noteq> ''constructor'') symbols"

definition planSignature :: "ctx \<Rightarrow> Symbol \<Rightarrow> string \<Rightarrow> nat \<Rightarrow> (lsp_error + signaturePlan) \<times> nat" where
  "planSignature c symbol source n =
     (let plan = \<lparr>plan_position = Start (sym_SelRange symbol), plan_direct = [], plan_symbol = symbol\<rparr> in
      and_then
        (if sym_Kind symbol = SymbolKindClass \<or> sym_Kind symbol = SymbolKindInterface
         then extractDeclarationHeader c source symbol n else (Inr None, n))
        (\<lambda>header n1. case header of
           Some h \<Rightarrow> (Inr (plan\<lparr>plan_direct := h\<rparr>), n1)
         | None \<Rightarrow>
             if Start (sym_SelRange symbol) \<noteq> End (sym_SelRange symbol) \<or> sym_Name symbol = ''constructor''
             then (Inr plan, n1)
             else if sym_Name symbol \<in> set [''()'', ''new()'', ''[]''] then
               and_then (textInRange c source (sym_Range symbol) n1) (\<lambda>text n2.
                 (Inr (plan\<lparr>plan_direct := trim_suffix (trim_space text) '';''\<rparr>), n2))
             else if sym_Kind symbol = SymbolKindFunction \<or> sym_Kind symbol = SymbolKindClass then
               and_then (findDeclarationToken c source (sym_Range symbol)
                   (if sym_Kind symbol = SymbolKindFunction then [''function'', ''=>''] else [''class'']) n1)
                 (\<lambda>position n2. case position of
                    Some p \<Rightarrow> (Inr (plan\<lparr>plan_position := p\<rparr>), n2)
                  | None \<Rightarrow> (Inr plan, n2))
             else (Inr plan, n1)))"

section \<open>The pool\<close>

definition maxConcurrentSignatureRequests :: nat where
  "maxConcurrentSignatureRequests = 8"

text \<open>The first loop of \<open>requestSignatures\<close>: the indexes that need a request.\<close>

fun requestIndexes :: "nat \<Rightarrow> signaturePlan list \<Rightarrow> lsp_error + nat list" where
  "requestIndexes i [] = Inr []"
| "requestIndexes i (plan # plans) =
     (if plan_direct plan \<noteq> [] then requestIndexes (Suc i) plans
      else (case toLSPPosition (plan_position plan) of
         Inl e \<Rightarrow> Inl (BadPosition e)
       | Inr _ \<Rightarrow> rbind (requestIndexes (Suc i) plans) (\<lambda>is. Inr (i # is))))"

record pool =
  pl_todo :: "nat list"
  pl_running :: "nat list"
  pl_alive :: nat
  pl_signatures :: "string list"
  pl_firstErr :: "lsp_error option"
  pl_canceled :: bool

definition workCanceled :: "pool \<Rightarrow> bool" where
  "workCanceled s \<longleftrightarrow> pl_canceled s \<or> pl_firstErr s \<noteq> None"

text \<open>
  \<open>answer i\<close> is what the hover request and its decoding give for index \<open>i\<close> when nothing is
  canceled; \<open>cause\<close> is the text of the context's error. A worker that receives an index after
  the cancellation leaves (\<open>skip\<close>); the dispatching loop leaves too (\<open>stop\<close>).
\<close>

inductive pool_step :: "(nat \<Rightarrow> lsp_error + string) \<Rightarrow> string \<Rightarrow> pool \<Rightarrow> pool \<Rightarrow> bool"
  for answer :: "nat \<Rightarrow> lsp_error + string" and cause :: string where
  cancel: "\<not> pl_canceled s \<Longrightarrow> pool_step answer cause s (s\<lparr>pl_canceled := True\<rparr>)"
| dispatch: "pl_todo s = i # rest \<Longrightarrow> length (pl_running s) < pl_alive s \<Longrightarrow>
    pool_step answer cause s (s\<lparr>pl_todo := rest, pl_running := i # pl_running s\<rparr>)"
| stop: "workCanceled s \<Longrightarrow> pl_todo s \<noteq> [] \<Longrightarrow> pool_step answer cause s (s\<lparr>pl_todo := []\<rparr>)"
| skip: "i \<in> set (pl_running s) \<Longrightarrow> workCanceled s \<Longrightarrow>
    pool_step answer cause s (s\<lparr>pl_running := remove1 i (pl_running s), pl_alive := pl_alive s - 1\<rparr>)"
| complete: "i \<in> set (pl_running s) \<Longrightarrow> answer i = Inr signature \<Longrightarrow>
    pool_step answer cause s
      (s\<lparr>pl_running := remove1 i (pl_running s), pl_signatures := (pl_signatures s)[i := signature]\<rparr>)"
| fail: "i \<in> set (pl_running s) \<Longrightarrow> answer i = Inl e \<or> workCanceled s \<and> e = Canceled cause \<Longrightarrow>
    pool_step answer cause s
      (s\<lparr>pl_running := remove1 i (pl_running s), pl_alive := pl_alive s - 1,
         pl_firstErr := (case pl_firstErr s of None \<Rightarrow> Some e | Some e0 \<Rightarrow> Some e0)\<rparr>)"

definition pool_start :: "signaturePlan list \<Rightarrow> nat list \<Rightarrow> pool" where
  "pool_start plans indexes = \<lparr>pl_todo = indexes, pl_running = [],
     pl_alive = min (length indexes) maxConcurrentSignatureRequests,
     pl_signatures = map plan_direct plans, pl_firstErr = None, pl_canceled = False\<rparr>"

definition pool_finished :: "pool \<Rightarrow> bool" where
  "pool_finished s \<longleftrightarrow> pl_todo s = [] \<and> pl_running s = []"

definition pool_result :: "string \<Rightarrow> pool \<Rightarrow> lsp_error + string list" where
  "pool_result cause s =
     (case pl_firstErr s of
        Some e \<Rightarrow> Inl e
      | None \<Rightarrow> if pl_canceled s then Inl (Canceled cause) else Inr (pl_signatures s))"

definition requestSignatures ::
  "(nat \<Rightarrow> lsp_error + string) \<Rightarrow> string \<Rightarrow> signaturePlan list \<Rightarrow> lsp_error + string list \<Rightarrow> bool" where
  "requestSignatures answer cause plans result \<longleftrightarrow>
     (case requestIndexes 0 plans of
        Inl e \<Rightarrow> result = Inl e
      | Inr indexes \<Rightarrow>
          if indexes = [] then result = Inr (map plan_direct plans)
          else \<exists>s. (pool_step answer cause)\<^sup>*\<^sup>* (pool_start plans indexes) s \<and> pool_finished s \<and>
            result = pool_result cause s)"

section \<open>The pool's invariant\<close>

lemma requestIndexes_filter:
  "requestIndexes i plans = Inr is \<Longrightarrow>
   is = filter (\<lambda>j. plan_direct (plans ! (j - i)) = []) [i..<i + length plans]"
proof (induction plans arbitrary: i "is")
  case (Cons plan plans)
  have "[i..<i + length (plan # plans)] = i # [Suc i..<Suc i + length plans]"
    using upt_conv_Cons [of i "i + length (plan # plans)"] by simp
  moreover have "filter (\<lambda>j. plan_direct ((plan # plans) ! (j - i)) = []) [Suc i..<Suc i + length plans] =
      filter (\<lambda>j. plan_direct (plans ! (j - Suc i)) = []) [Suc i..<Suc i + length plans]"
    by (rule filter_cong) (auto simp: nth_Cons' Suc_diff_le diff_Suc split: nat.splits)
  ultimately show ?case using Cons.prems Cons.IH [of "Suc i"]
    by (auto split: if_splits sum.splits)
qed simp

definition pool_inv :: "(nat \<Rightarrow> lsp_error + string) \<Rightarrow> string \<Rightarrow> signaturePlan list \<Rightarrow> nat list \<Rightarrow> pool \<Rightarrow> bool" where
  "pool_inv answer cause plans indexes s \<longleftrightarrow>
     length (pl_signatures s) = length plans \<and>
     (\<forall>i < length plans. i \<notin> set indexes \<longrightarrow> pl_signatures s ! i = plan_direct (plans ! i)) \<and>
     set (pl_todo s) \<union> set (pl_running s) \<subseteq> set indexes \<and> distinct (pl_todo s @ pl_running s) \<and>
     (\<not> workCanceled s \<longrightarrow> pl_alive s = min (length indexes) maxConcurrentSignatureRequests \<and>
       (\<forall>i \<in> set indexes. i \<in> set (pl_todo s) \<or> i \<in> set (pl_running s) \<or> answer i = Inr (pl_signatures s ! i))) \<and>
     length (pl_running s) \<le> pl_alive s \<and> pl_alive s \<le> maxConcurrentSignatureRequests \<and>
     (\<forall>e. pl_firstErr s = Some e \<longrightarrow> e = Canceled cause \<and> pl_canceled s \<or> (\<exists>i \<in> set indexes. answer i = Inl e))"

lemma pool_inv_start:
  assumes "\<And>i. i \<in> set indexes \<Longrightarrow> i < length plans" "distinct indexes"
  shows "pool_inv answer cause plans indexes (pool_start plans indexes)"
  using assms by (simp add: pool_inv_def pool_start_def workCanceled_def)

lemma pool_inv_step:
  assumes inv: "pool_inv answer cause plans indexes s" and "pool_step answer cause s s'"
    and bound: "\<And>i. i \<in> set indexes \<Longrightarrow> i < length plans"
  shows "pool_inv answer cause plans indexes s'"
proof -
  have d: "distinct (pl_running s)" using inv by (simp add: pool_inv_def)
  note rem = set_remove1_eq [OF d] length_remove1 distinct_remove1 [OF d]
  have pos: "i \<in> set (pl_running s) \<Longrightarrow> 0 < length (pl_running s)" for i by (cases "pl_running s") auto
  from assms(2) show ?thesis
  proof cases
    case cancel
    with inv show ?thesis by (auto simp: pool_inv_def workCanceled_def)
  next
    case (dispatch i rest)
    with inv show ?thesis by (auto simp: pool_inv_def workCanceled_def)
  next
    case stop
    with inv show ?thesis by (auto simp: pool_inv_def workCanceled_def)
  next
    case (skip i)
    then show ?thesis using inv pos [of i] by (auto simp: pool_inv_def workCanceled_def rem)
  next
    case (complete i signature)
    then have "i \<in> set indexes" "i < length (pl_signatures s)" using inv bound by (auto simp: pool_inv_def)
    then show ?thesis
      using complete inv pos [of i] by (auto simp: pool_inv_def workCanceled_def nth_list_update rem)
  next
    case (fail i e)
    then have "i \<in> set indexes" using inv by (auto simp: pool_inv_def)
    then show ?thesis
      using fail inv pos [of i] by (auto simp: pool_inv_def workCanceled_def rem split: option.splits)
  qed
qed

definition pool_size :: "pool \<Rightarrow> nat" where
  "pool_size s = 2 * length (pl_todo s) + length (pl_running s) + (if pl_canceled s then 0 else 1)"

lemma pool_step_decreases: "pool_step answer cause s s' \<Longrightarrow> pool_size s' < pool_size s"
  by (erule pool_step.cases)
     (auto simp: pool_size_def length_remove1 neq_Nil_conv dest: length_pos_if_in_set)

lemma pool_progress:
  assumes "pool_inv answer cause plans indexes s" "\<not> pool_finished s" "indexes \<noteq> []"
  shows "\<exists>s'. pool_step answer cause s s'"
proof (cases "pl_running s")
  case (Cons i rest)
  then have "i \<in> set (pl_running s)" by simp
  then show ?thesis using pool_step.complete pool_step.fail by (cases "answer i") blast+
next
  case Nil
  then obtain i rest where todo: "pl_todo s = i # rest"
    using assms(2) by (auto simp: pool_finished_def neq_Nil_conv)
  show ?thesis
  proof (cases "workCanceled s")
    case True
    then show ?thesis using pool_step.stop [OF True] todo by fastforce
  next
    case False
    then have "0 < pl_alive s" using assms(1,3)
      by (simp add: pool_inv_def maxConcurrentSignatureRequests_def)
    then show ?thesis using pool_step.dispatch [OF todo] Nil by fastforce
  qed
qed

text \<open>The pool as a system that always finishes, for every admissible plan.\<close>

definition pool_init :: "(signaturePlan list \<times> nat list) \<Rightarrow> pool \<Rightarrow> bool" where
  "pool_init pi s \<longleftrightarrow> requestIndexes 0 (fst pi) = Inr (snd pi) \<and> snd pi \<noteq> [] \<and> s = pool_start (fst pi) (snd pi)"

lemma requestIndexes_bound: "requestIndexes 0 plans = Inr indexes \<Longrightarrow> i \<in> set indexes \<Longrightarrow> i < length plans"
  and requestIndexes_distinct: "requestIndexes 0 plans = Inr indexes \<Longrightarrow> distinct indexes"
  by (auto dest!: requestIndexes_filter)

interpretation sig_pool: finishing_system "pool_init pi" "pool_step answer cause"
  "\<lambda>s. requestIndexes 0 (fst pi) = Inr (snd pi) \<and> snd pi \<noteq> [] \<and> pool_inv answer cause (fst pi) (snd pi) s"
  pool_finished pool_size
  for pi :: "signaturePlan list \<times> nat list" and answer :: "nat \<Rightarrow> lsp_error + string" and cause :: string
proof unfold_locales
  fix s s'
  show "pool_step answer cause s s' \<Longrightarrow> pool_size s' < pool_size s" by (rule pool_step_decreases)
qed (auto simp: pool_init_def intro: pool_inv_start pool_inv_step pool_progress requestIndexes_distinct
    dest: requestIndexes_bound)

section \<open>Properties\<close>

lemma requestSignatures_cases:
  assumes "requestSignatures answer cause plans result" "requestIndexes 0 plans = Inr indexes" "indexes \<noteq> []"
  obtains s where "pool_inv answer cause plans indexes s" "pool_finished s" "result = pool_result cause s"
proof -
  from assms obtain s where s: "(pool_step answer cause)\<^sup>*\<^sup>* (pool_start plans indexes) s" "pool_finished s"
      "result = pool_result cause s"
    by (auto simp: requestSignatures_def)
  have "pool_init (plans, indexes) (pool_start plans indexes)" using assms by (simp add: pool_init_def)
  from sig_pool.inv_reachable [OF this s(1)] have "pool_inv answer cause plans indexes s" by simp
  then show thesis using that s(2,3) by blast
qed

lemma requestSignatures_Inr:
  assumes "requestSignatures answer cause plans (Inr signatures)"
  shows "length signatures = length plans \<and> (\<forall>i < length plans.
    if plan_direct (plans ! i) \<noteq> [] then signatures ! i = plan_direct (plans ! i)
    else answer i = Inr (signatures ! i))"
proof (cases "requestIndexes 0 plans")
  case (Inl e)
  with assms show ?thesis by (simp add: requestSignatures_def)
next
  case (Inr indexes)
  note idx = requestIndexes_filter [OF Inr]
  have mem: "i \<in> set indexes \<longleftrightarrow> i < length plans \<and> plan_direct (plans ! i) = []" for i by (simp add: idx)
  show ?thesis
  proof (cases "indexes = []")
    case True
    then have "signatures = map plan_direct plans" using assms Inr by (simp add: requestSignatures_def)
    then show ?thesis using mem True by (auto simp del: neq_Nil_conv)
  next
    case False
    from requestSignatures_cases [OF assms Inr False] obtain s where s:
      "pool_inv answer cause plans indexes s" "pool_finished s" "Inr signatures = pool_result cause s" by metis
    then have "pl_firstErr s = None" "\<not> pl_canceled s" "signatures = pl_signatures s"
      by (auto simp: pool_result_def split: option.splits if_splits)
    then show ?thesis using s(1,2) mem by (auto simp: pool_inv_def pool_finished_def workCanceled_def)
  qed
qed

text \<open>Whenever \<open>requestSignatures\<close> succeeds, however its workers interleaved, there is one
  signature per plan, in the order of the plans: the plan's own, or the server's answer for
  exactly that plan.\<close>

theorem requestSignatures_complete:
  assumes "requestSignatures answer cause plans (Inr signatures)"
  shows "length signatures = length plans \<and> (\<forall>i < length plans.
    if plan_direct (plans ! i) \<noteq> [] then signatures ! i = plan_direct (plans ! i)
    else answer i = Inr (signatures ! i))"
  using requestSignatures_Inr [OF assms] .

text \<open>An error that \<open>requestSignatures\<close> reports is genuine: a plan has an invalid position,
  the server's answer for some plan failed with it, or the caller was canceled.\<close>

lemma requestSignatures_error:
  assumes "requestSignatures answer cause plans (Inl e)"
  shows "requestIndexes 0 plans = Inl e \<or> e = Canceled cause \<or>
    (\<exists>i < length plans. plan_direct (plans ! i) = [] \<and> answer i = Inl e)"
proof (cases "requestIndexes 0 plans")
  case (Inr indexes)
  note idx = requestIndexes_filter [OF Inr]
  have ne: "indexes \<noteq> []" using assms Inr by (auto simp: requestSignatures_def)
  from requestSignatures_cases [OF assms Inr ne] obtain s where s:
    "pool_inv answer cause plans indexes s" "Inl e = pool_result cause s" by metis
  then have "pl_firstErr s = Some e \<or> e = Canceled cause"
    by (auto simp: pool_result_def split: option.splits if_splits)
  then show ?thesis using s(1) idx by (auto simp: pool_inv_def)
qed (use assms in \<open>simp add: requestSignatures_def\<close>)

text \<open>C40: at every moment of every run at most eight hover requests are in flight, no index is
  handed out twice, and the workers are never stuck: some run of the pool finishes from every
  state it can reach, and no run goes on forever.\<close>

theorem signature_pool_bounded:
  assumes "requestIndexes 0 plans = Inr indexes" "indexes \<noteq> []"
    and "(pool_step answer cause)\<^sup>*\<^sup>* (pool_start plans indexes) s"
  shows "length (pl_running s) \<le> 8 \<and> distinct (pl_todo s @ pl_running s) \<and>
    (\<exists>s'. (pool_step answer cause)\<^sup>*\<^sup>* s s' \<and> pool_finished s') \<and>
    \<not> (\<exists>f. f 0 = s \<and> (\<forall>i. pool_step answer cause (f i) (f (Suc i))))"
proof -
  have "pool_init (plans, indexes) (pool_start plans indexes)" using assms by (simp add: pool_init_def)
  note inv = sig_pool.inv_reachable [OF this assms(3)]
  then have "pool_inv answer cause plans indexes s" by simp
  then have "length (pl_running s) \<le> 8" "distinct (pl_todo s @ pl_running s)"
    by (auto simp: pool_inv_def maxConcurrentSignatureRequests_def)
  then show ?thesis using sig_pool.finishes [OF inv] sig_pool.no_infinite_run inv by blast
qed

text \<open>
  One schedule among many: one worker answers the indexes in order. Its result is one that
  \<^const>\<open>requestSignatures\<close> allows.
\<close>

definition sequentialSignatures :: "(nat \<Rightarrow> string) \<Rightarrow> signaturePlan list \<Rightarrow> lsp_error + string list" where
  "sequentialSignatures sig plans =
     rbind (requestIndexes 0 plans) (\<lambda>indexes. Inr (foldl (\<lambda>ss i. ss[i := sig i]) (map plan_direct plans) indexes))"

lemma pool_sequential:
  "pl_running s = [] \<Longrightarrow> 0 < pl_alive s \<Longrightarrow>
   (pool_step (\<lambda>i. Inr (sig i)) cause)\<^sup>*\<^sup>* s
     (s\<lparr>pl_todo := [], pl_signatures := foldl (\<lambda>ss i. ss[i := sig i]) (pl_signatures s) (pl_todo s)\<rparr>)"
proof (induction "pl_todo s" arbitrary: s)
  case Nil
  have "s\<lparr>pl_todo := [], pl_signatures := foldl (\<lambda>ss i. ss[i := sig i]) (pl_signatures s) (pl_todo s)\<rparr> = s"
    using Nil(1) by (metis foldl_Nil pool.surjective pool.update_convs(1,4))
  then show ?case by simp
next
  case (Cons i rest)
  let ?s1 = "s\<lparr>pl_todo := rest, pl_running := [i]\<rparr>"
  let ?s2 = "s\<lparr>pl_todo := rest, pl_signatures := (pl_signatures s)[i := sig i]\<rparr>"
  have "pool_step (\<lambda>i. Inr (sig i)) cause s ?s1"
    using pool_step.dispatch [of s i rest "\<lambda>i. Inr (sig i)" cause] Cons.hyps(2) Cons.prems by simp
  moreover have "?s1\<lparr>pl_running := [], pl_signatures := (pl_signatures s)[i := sig i]\<rparr> = ?s2"
    using Cons.prems(1) by simp
  then have "pool_step (\<lambda>i. Inr (sig i)) cause ?s1 ?s2"
    using pool_step.complete [of i ?s1 "\<lambda>i. Inr (sig i)" "sig i" cause] by simp
  moreover have "(pool_step (\<lambda>i. Inr (sig i)) cause)\<^sup>*\<^sup>* ?s2
     (?s2\<lparr>pl_todo := [], pl_signatures := foldl (\<lambda>ss i. ss[i := sig i]) (pl_signatures ?s2) (pl_todo ?s2)\<rparr>)"
    using Cons.hyps(1) [of ?s2] Cons.prems by simp
  ultimately show ?case using Cons.hyps(2) [symmetric] by (simp add: converse_rtranclp_into_rtranclp)
qed

lemma sequentialSignatures_allowed:
  "requestSignatures (\<lambda>i. Inr (sig i)) cause plans (sequentialSignatures sig plans)"
proof (cases "requestIndexes 0 plans")
  case (Inr indexes)
  show ?thesis
  proof (cases "indexes = []")
    case False
    let ?start = "pool_start plans indexes"
    let ?s = "?start\<lparr>pl_todo := [], pl_signatures := foldl (\<lambda>ss i. ss[i := sig i]) (pl_signatures ?start) (pl_todo ?start)\<rparr>"
    have "(pool_step (\<lambda>i. Inr (sig i)) cause)\<^sup>*\<^sup>* ?start ?s"
      using False by (intro pool_sequential) (auto simp: pool_start_def maxConcurrentSignatureRequests_def)
    moreover have "pool_finished ?s" "pool_result cause ?s = sequentialSignatures sig plans"
      by (simp_all add: pool_finished_def pool_start_def pool_result_def sequentialSignatures_def Inr)
    ultimately have "\<exists>s. (pool_step (\<lambda>i. Inr (sig i)) cause)\<^sup>*\<^sup>* ?start s \<and> pool_finished s \<and>
        sequentialSignatures sig plans = pool_result cause s" by (intro exI [of _ ?s]) simp
    then show ?thesis using False by (simp add: requestSignatures_def Inr)
  qed (use Inr in \<open>simp add: requestSignatures_def sequentialSignatures_def\<close>)
qed (simp add: requestSignatures_def sequentialSignatures_def)

subsection \<open>Witnesses\<close>

definition hover_plan :: signaturePlan where
  "hover_plan = \<lparr>plan_position = \<lparr>Line = 1, Character = 4\<rparr>, plan_direct = [], plan_symbol = method_symbol\<rparr>"

definition sample_plans :: "signaturePlan list" where
  "sample_plans = [hover_plan, hover_plan\<lparr>plan_direct := ''class A''\<rparr>]"

lemma sample_indexes: "requestIndexes 0 sample_plans = Inr [0]"
  by code_simp

lemma sample_run:
  assumes "answer 0 = r"
  shows "\<exists>s. (pool_step answer cause)\<^sup>*\<^sup>* (pool_start sample_plans [0]) s \<and> pool_finished s \<and>
    pool_result cause s = (case r of Inl e \<Rightarrow> Inl e | Inr t \<Rightarrow> Inr [t, ''class A''])"
proof -
  let ?s0 = "pool_start sample_plans [0]"
  let ?s1 = "?s0\<lparr>pl_todo := [], pl_running := [0]\<rparr>"
  have 1: "pool_step answer cause ?s0 ?s1"
    using pool_step.dispatch [of ?s0 0 "[]"] by (simp add: pool_start_def maxConcurrentSignatureRequests_def)
  show ?thesis
  proof (cases r)
    case (Inl e)
    then have "pool_step answer cause ?s1 (?s1\<lparr>pl_running := [], pl_alive := pl_alive ?s1 - 1, pl_firstErr := Some e\<rparr>)"
      using pool_step.fail [of 0 ?s1 answer e cause] assms by (simp add: pool_start_def)
    with 1 show ?thesis using Inl
      by (intro exI [of _ "?s1\<lparr>pl_running := [], pl_alive := pl_alive ?s1 - 1, pl_firstErr := Some e\<rparr>"])
         (auto simp: pool_finished_def pool_result_def)
  next
    case (Inr t)
    then have "pool_step answer cause ?s1 (?s1\<lparr>pl_running := [], pl_signatures := [t, ''class A'']\<rparr>)"
      using pool_step.complete [of 0 ?s1 answer t cause] assms
      by (simp add: pool_start_def sample_plans_def hover_plan_def)
    with 1 show ?thesis using Inr
      by (intro exI [of _ "?s1\<lparr>pl_running := [], pl_signatures := [t, ''class A'']\<rparr>"])
         (auto simp: pool_finished_def pool_result_def pool_start_def)
  qed
qed

theorem requestSignatures_complete_witness:
  "length [''f()'', ''class A''] = length sample_plans \<and> (\<lambda>_ :: nat. Inr ''f()'' :: lsp_error + string) 0 = Inr ([''f()'', ''class A''] ! 0)"
proof -
  have "requestSignatures (\<lambda>_. Inr ''f()'') [] sample_plans (Inr [''f()'', ''class A''])"
    using sample_run [of "\<lambda>_. Inr ''f()''" "Inr ''f()''" "[]"] by (fastforce simp: requestSignatures_def sample_indexes)
  from requestSignatures_complete [OF this] show ?thesis by simp
qed

theorem requestSignatures_error_witness:
  "\<exists>i < length sample_plans. plan_direct (sample_plans ! i) = [] \<and> (\<lambda>_ :: nat. Inl MalformedFence :: lsp_error + string) i = Inl MalformedFence"
proof -
  have "requestSignatures (\<lambda>_. Inl MalformedFence) [] sample_plans (Inl MalformedFence)"
    using sample_run [of "\<lambda>_. Inl MalformedFence" "Inl MalformedFence" "[]"]
    by (fastforce simp: requestSignatures_def sample_indexes)
  from requestSignatures_error [OF this] show ?thesis by (simp add: sample_indexes)
qed

theorem signature_pool_bounded_witness:
  "length (pl_running (pool_start sample_plans [0])) \<le> 8 \<and>
   (\<exists>s'. (pool_step (\<lambda>_. Inr ''f()'') [])\<^sup>*\<^sup>* (pool_start sample_plans [0]) s' \<and> pool_finished s')"
  using signature_pool_bounded [OF sample_indexes, of "\<lambda>_. Inr ''f()''" "[]" "pool_start sample_plans [0]"] by simp

end
