(* ===== verification/Lsp_Provider.thy ===== *)
theory Lsp_Provider
  imports Lsp_Open Lsp_Signatures
begin

text \<open>
  The language provider (\<^verbatim>\<open>src/internal/lsp/provider.go\<close> and \<^verbatim>\<open>SymbolSignatures\<close> of \<^verbatim>\<open>signatures.go\<close>):
  the workspace identity and the handshake, the preparation of a file and the four methods of
  the interface, run by one caller after the other. Its \<open>ensureOpen\<close> is the sequential view of the
  callers in \<open>Lsp_Open\<close>, to which it is tied by a simulation.
\<close>

section \<open>Starting\<close>

text \<open>\<^verbatim>\<open>path.Base\<close>: trailing slashes are dropped, then everything up to the last slash.\<close>

definition path_Base :: "string \<Rightarrow> string" where
  "path_Base p =
     (if p = [] then ''.''
      else let stripped = rev (dropWhile (\<lambda>b. b = slash) (rev p));
               base = rev (takeWhile (\<lambda>b. b \<noteq> slash) (rev stripped))
           in if base = [] then [slash] else base)"

definition workspaceIdentity :: "host_env \<Rightarrow> string \<Rightarrow> path_error + string \<times> string \<times> string" where
  "workspaceIdentity env projectRoot =
     rbind (Canonicalize env projectRoot) (\<lambda>canonicalPath.
     rbind (PathToURI env canonicalPath) (\<lambda>uri. Inr (canonicalPath, uri, path_Base canonicalPath)))"

definition initializeProvider :: "'s connection \<Rightarrow> int \<Rightarrow> string \<Rightarrow> string \<Rightarrow> ('s, unit) lsp_call" where
  "initializeProvider t pid rootURI rootName c w =
     (let params = InitializeParams \<lparr>ip_ProcessID = pid, ip_RootURI = rootURI,
        ip_HierarchicalDocumentSymbolSupport = True, ip_ContentFormat = [''markdown''],
        ip_WorkspaceFolders = [(rootURI, rootName)]\<rparr> in
      case conn_call t ''initialize'' params c w of
        (Inl e, w1) \<Rightarrow> (Inl e, w1)
      | (Inr _, w1) \<Rightarrow> conn_notify t ''initialized'' NoParams c w1)"

section \<open>The provider's state\<close>

text \<open>
  Between calls every entry of the map of open files is a published success, so the state is the
  sources of the opened files, next to the connection.
\<close>

record 's provider =
  pv_open :: "string \<rightharpoonup> string"
  pv_conn :: 's

definition on_conn :: "('s, 'a) lsp_call \<Rightarrow> ('s provider, 'a) lsp_call" where
  "on_conn f c w = (case w of (n, p) \<Rightarrow> (case f c (n, pv_conn p) of (r, (n', s)) \<Rightarrow> (r, (n', p\<lparr>pv_conn := s\<rparr>))))"

definition ensureOpen :: "'s connection \<Rightarrow> host_env \<Rightarrow> string \<Rightarrow> ('s provider, unit) lsp_call" where
  "ensureOpen t env canonicalFile c w =
     (case w of (n, p) \<Rightarrow>
      (case ctx_err c n of
         Some e \<Rightarrow> (Inl (Canceled e), (Suc n, p))
       | None \<Rightarrow>
      (case pv_open p canonicalFile of
         Some _ \<Rightarrow> (Inr (), (Suc n, p))
       | None \<Rightarrow>
      (case openFile t env c canonicalFile (Suc n, pv_conn p) of
         ((source, Some e, _), (n', s)) \<Rightarrow> (Inl e, (n', p\<lparr>pv_conn := s\<rparr>))
       | ((source, None, _), (n', s)) \<Rightarrow> (Inr (), (n', p\<lparr>pv_conn := s, pv_open := (pv_open p)(canonicalFile \<mapsto> source)\<rparr>))))))"

definition prepareOpen :: "'s connection \<Rightarrow> host_env \<Rightarrow> string \<Rightarrow> ('s provider, string \<times> string) lsp_call" where
  "prepareOpen t env f c w =
     (case w of (n, p) \<Rightarrow>
      (case ctx_err c n of
         Some e \<Rightarrow> (Inl (Canceled e), (Suc n, p))
       | None \<Rightarrow>
      (case Canonicalize env f of
         Inl e \<Rightarrow> (Inl (BadPath f e), (Suc n, p))
       | Inr canonicalFile \<Rightarrow>
      (case PathToURI env canonicalFile of
         Inl e \<Rightarrow> (Inl (BadPath canonicalFile e), (Suc n, p))
       | Inr uri \<Rightarrow>
      (case ensureOpen t env canonicalFile c (Suc n, p) of
         (Inl e, w1) \<Rightarrow> (Inl e, w1)
       | (Inr _, w1) \<Rightarrow> (Inr (canonicalFile, uri), w1))))))"

section \<open>The methods\<close>

text \<open>The decoders of \<^verbatim>\<open>encoding/json\<close> for the wire types.\<close>

record json_decoders =
  js_locations :: "string \<Rightarrow> string + rawLocation list"
  js_location :: "string \<Rightarrow> string + rawLocation"
  js_symbols :: "string \<Rightarrow> string + lspDocumentSymbol list"

definition lsp_Definition ::
  "'s connection \<Rightarrow> host_env \<Rightarrow> json_decoders \<Rightarrow> string \<Rightarrow> Position \<Rightarrow> ('s provider, Location list) lsp_call" where
  "lsp_Definition t env js f pos c w =
     (case toLSPPosition pos of
        Inl e \<Rightarrow> (Inl (BadPosition e), w)
      | Inr position \<Rightarrow>
     (case prepareOpen t env f c w of
        (Inl e, w1) \<Rightarrow> (Inl e, w1)
      | (Inr (_, uri), w1) \<Rightarrow>
     (case on_conn (conn_call t ''textDocument/definition'' (TextDocumentPositionParams uri position)) c w1 of
        (Inl e, w2) \<Rightarrow> (Inl e, w2)
      | (Inr raw, w2) \<Rightarrow> withPolls (decodeLocations env (js_locations js) (js_location js) c raw) w2)))"

definition lsp_References ::
  "'s connection \<Rightarrow> host_env \<Rightarrow> json_decoders \<Rightarrow> string \<Rightarrow> Position \<Rightarrow> bool \<Rightarrow> ('s provider, Location list) lsp_call" where
  "lsp_References t env js f pos includeDeclaration c w =
     (case toLSPPosition pos of
        Inl e \<Rightarrow> (Inl (BadPosition e), w)
      | Inr position \<Rightarrow>
     (case prepareOpen t env f c w of
        (Inl e, w1) \<Rightarrow> (Inl e, w1)
      | (Inr (_, uri), w1) \<Rightarrow>
     (case on_conn (conn_call t ''textDocument/references'' (ReferenceParams uri position includeDeclaration)) c w1 of
        (Inl e, w2) \<Rightarrow> (Inl e, w2)
      | (Inr raw, w2) \<Rightarrow> withPolls (decodeLocations env (js_locations js) (js_location js) c raw) w2)))"

definition lsp_DocumentSymbols ::
  "'s connection \<Rightarrow> host_env \<Rightarrow> json_decoders \<Rightarrow> string \<Rightarrow> ('s provider, SymbolNode list) lsp_call" where
  "lsp_DocumentSymbols t env js f c w =
     (case prepareOpen t env f c w of
        (Inl e, w1) \<Rightarrow> (Inl e, w1)
      | (Inr (absFile, uri), w1) \<Rightarrow>
     (case on_conn (conn_call t ''textDocument/documentSymbol'' (DocumentSymbolParams uri)) c w1 of
        (Inl e, w2) \<Rightarrow> (Inl e, w2)
      | (Inr raw, w2) \<Rightarrow> withPolls (decodeDocumentSymbols (js_symbols js) c raw absFile) w2))"

text \<open>The loop that plans the signatures.\<close>

fun planSignatures :: "ctx \<Rightarrow> string \<Rightarrow> Symbol list \<Rightarrow> nat \<Rightarrow> (lsp_error + signaturePlan list) \<times> nat" where
  "planSignatures c source [] n = (Inr [], n)"
| "planSignatures c source (symbol # symbols) n =
     (case planSignature c symbol source n of
        (Inl e, n1) \<Rightarrow> (Inl e, n1)
      | (Inr plan, n1) \<Rightarrow>
          (case planSignatures c source symbols n1 of
             (Inl e, n2) \<Rightarrow> (Inl e, n2)
           | (Inr plans, n2) \<Rightarrow> (Inr (plan # plans), n2)))"

text \<open>
  \<open>pool uri plans\<close> is the run of the worker pool that the scheduler chose: one of the results that
  \<^const>\<open>requestSignatures\<close> allows.
\<close>

definition lsp_SymbolSignatures ::
  "'s connection \<Rightarrow> host_env \<Rightarrow> (string \<Rightarrow> signaturePlan list \<Rightarrow> ('s provider, string list) lsp_call) \<Rightarrow>
   string \<Rightarrow> Symbol list \<Rightarrow> ('s provider, string list) lsp_call" where
  "lsp_SymbolSignatures t env pool f symbols c w =
     (if symbols = [] then (Inr [], w)
      else
     (case prepareOpen t env f c w of
        (Inl e, w1) \<Rightarrow> (Inl e, w1)
      | (Inr (canonicalFile, uri), w1) \<Rightarrow>
     (case (if needsSignatureSource symbols then pv_open (snd w1) canonicalFile else Some []) of
        None \<Rightarrow> (Inl (SourceUnavailable canonicalFile), w1)
      | Some source \<Rightarrow>
     (case withPolls (planSignatures c source symbols) w1 of
        (Inl e, w2) \<Rightarrow> (Inl e, w2)
      | (Inr plans, w2) \<Rightarrow> pool uri plans c w2))))"

text \<open>The provider as the tools see it; \<open>err_text\<close> is the text of an error's chain.\<close>

definition textual :: "(lsp_error \<Rightarrow> string) \<Rightarrow> ('s, 'a) lsp_call \<Rightarrow> ('s, 'a) provider_call" where
  "textual err_text f c w = (case f c w of (Inl e, w') \<Rightarrow> (Inl (err_text e), w') | (Inr a, w') \<Rightarrow> (Inr a, w'))"

definition lsp_provider ::
  "'s connection \<Rightarrow> host_env \<Rightarrow> json_decoders \<Rightarrow> (string \<Rightarrow> signaturePlan list \<Rightarrow> ('s provider, string list) lsp_call) \<Rightarrow>
   (lsp_error \<Rightarrow> string) \<Rightarrow> 's provider LanguageProvider" where
  "lsp_provider t env js pool err_text = \<lparr>
     Definition = (\<lambda>f pos. textual err_text (lsp_Definition t env js f pos)),
     References = (\<lambda>f pos incl. textual err_text (lsp_References t env js f pos incl)),
     DocumentSymbols = (\<lambda>f. textual err_text (lsp_DocumentSymbols t env js f)),
     SymbolSignatures = (\<lambda>f symbols. textual err_text (lsp_SymbolSignatures t env pool f symbols))\<rparr>"

section \<open>Results\<close>

lemma textual_Inr [simp]: "textual err_text f c w = (Inr a, w') \<longleftrightarrow> f c w = (Inr a, w')"
  by (auto simp: textual_def split: sum.splits prod.splits)

lemma ensureOpen_Inr:
  assumes "ensureOpen t env f c w = (Inr u, w')"
  shows "\<exists>source. pv_open (snd w') f = Some source"
  using assms by (auto simp: ensureOpen_def split: prod.splits option.splits)

lemma prepareOpen_Inr:
  assumes "prepareOpen t env f c w = (Inr (canonicalFile, uri), w')"
  shows "Canonicalize env f = Inr canonicalFile \<and> PathToURI env canonicalFile = Inr uri \<and>
    (\<exists>source. pv_open (snd w') canonicalFile = Some source)"
  using assms by (auto simp: prepareOpen_def split: prod.splits option.splits sum.splits dest: ensureOpen_Inr)

lemma lsp_Definition_wf: "lsp_Definition t env js f pos c w = (Inr locs, w') \<Longrightarrow> list_all location_wf locs"
  by (auto simp: lsp_Definition_def withPolls_def split: sum.splits prod.splits dest!: decodeLocations_wf)

lemma lsp_References_wf: "lsp_References t env js f pos incl c w = (Inr locs, w') \<Longrightarrow> list_all location_wf locs"
  by (auto simp: lsp_References_def withPolls_def split: sum.splits prod.splits dest!: decodeLocations_wf)

lemma lsp_DocumentSymbols_wf:
  "lsp_DocumentSymbols t env js f c w = (Inr symbols, w') \<Longrightarrow> Canonicalize env f = Inr file \<Longrightarrow> list_all (node_wf file) symbols"
  by (auto simp: lsp_DocumentSymbols_def withPolls_def split: sum.splits prod.splits
      dest!: decodeDocumentSymbols_wf prepareOpen_Inr)

lemma planSignatures_length: "planSignatures c source symbols n = (Inr plans, n') \<Longrightarrow> length plans = length symbols"
  by (induction c source symbols n arbitrary: plans n' rule: planSignatures.induct)
     (auto split: sum.splits prod.splits)

section \<open>The sequential view of opening\<close>

text \<open>A state of the callers represents a provider: published successes, and nothing in flight.\<close>

definition represents :: "open_state \<Rightarrow> 's provider \<Rightarrow> bool" where
  "represents m p \<longleftrightarrow> (\<forall>f. openedSource m f = pv_open p f \<and> (op_files m f \<noteq> None \<longrightarrow> pv_open p f \<noteq> None))"

definition outcome :: "lsp_error + unit \<Rightarrow> lsp_error option" where
  "outcome r = (case r of Inl e \<Rightarrow> Some e | Inr _ \<Rightarrow> None)"

abbreviation (input) open_call :: "'s connection \<Rightarrow> host_env \<Rightarrow> (nat \<Rightarrow> string) \<Rightarrow> open_state \<Rightarrow> open_state \<Rightarrow> bool" where
  "open_call t env cause \<equiv> open_step (openFile_outcome t env) cause"

lemma set_pc_set_pc: "set_pc k a (set_pc k b m) = set_pc k a m"
  by (cases "k < length (op_callers m)") (simp_all add: set_pc_def list_update_beyond)

lemma represents_same:
  assumes "represents m p" "op_files m' = op_files m" "op_transitions m' = op_transitions m"
  shows "represents m' p"
  using assms(1) unfolding represents_def openedSource_def assms(2,3) .

lemma represents_open:
  assumes "represents m p" "pv_open p f = None"
    and "\<And>g. openedSource d g = (if g = f then (if err = None then Some source else None) else openedSource m g)"
    and "\<And>g. op_files d g \<noteq> None \<Longrightarrow> g \<noteq> f \<Longrightarrow> op_files m g \<noteq> None" "err \<noteq> None \<Longrightarrow> op_files d f = None"
  shows "represents d (if err = None then p\<lparr>pv_conn := s, pv_open := (pv_open p)(f \<mapsto> source)\<rparr> else p\<lparr>pv_conn := s\<rparr>)"
  using assms by (cases err) (auto simp: represents_def)

text \<open>A canceled context.\<close>

lemma simulate_canceled:
  assumes "at m k Looping" "\<not> cl_canceled (op_callers m ! k)" "represents m p"
  shows "\<exists>m'. (open_call t env cause)\<^sup>*\<^sup>* m m' \<and> at m' k (Returned (Some (Canceled (cause k)))) \<and> represents m' p"
proof -
  let ?a = "m\<lparr>op_callers := (op_callers m)[k := (op_callers m ! k)\<lparr>cl_canceled := True\<rparr>]\<rparr>"
  let ?b = "set_pc k (Returned (Some (Canceled (cause k)))) ?a"
  have "open_call t env cause m ?a" using assms open_step.cancel by blast
  moreover have "open_call t env cause ?a ?b"
    by (rule open_step.check_canceled) (use assms in simp_all)
  moreover have "represents ?b p" using assms(3) by (rule represents_same) simp_all
  ultimately show ?thesis using assms(1) by (intro exI [of _ ?b]) auto
qed

text \<open>A file that is already open.\<close>

lemma simulate_opened:
  assumes inv: "open_inv files m" and k: "at m k Looping" "\<not> cl_canceled (op_callers m ! k)"
    and rep: "represents m p" and src: "pv_open p (file_of m k) = Some source"
  shows "\<exists>m'. (open_call t env cause)\<^sup>*\<^sup>* m m' \<and> at m' k (Returned None) \<and> represents m' p"
proof -
  have "openedSource m (file_of m k) = Some source" using rep src by (simp add: represents_def)
  then obtain i where i: "op_files m (file_of m k) = Some i" "ot_done (op_transitions m ! i)" "ot_err (op_transitions m ! i) = None"
    by (auto simp: openedSource_def split: option.splits if_splits)
  then have nr: "\<not> ot_retryable (op_transitions m ! i)" using inv unfolding open_inv_def entries_ok_def by metis
  let ?a = "set_pc k Locking m" and ?b = "set_pc k (Waiting i) m" and ?c = "set_pc k (Returned None) m"
  have "open_call t env cause m ?a" using k by (intro open_step.check) simp_all
  moreover have "elect k ?a = ?b" using k i by (simp add: elect_def set_pc_set_pc)
  then have "open_call t env cause ?a ?b" using open_step.lock [where s = ?a and k = k] k by simp
  moreover have "open_call t env cause ?b ?c"
    using open_step.wake [where s = ?b and k = k and i = i] k i nr by (simp add: set_pc_set_pc)
  moreover have "represents ?c p" using rep by (rule represents_same) simp_all
  ultimately show ?thesis using k(1) by (intro exI [of _ ?c]) auto
qed

text \<open>A file that this caller opens.\<close>

lemma simulate_opening:
  assumes inv: "open_inv files m" and k: "at m k Looping" "\<not> cl_canceled (op_callers m ! k)"
    and rep: "represents m p" and none: "pv_open p (file_of m k) = None"
    and out: "openFile_outcome t env (file_of m k) (source, err, retryable)"
  shows "\<exists>m'. (open_call t env cause)\<^sup>*\<^sup>* m m' \<and> at m' k (Returned err) \<and>
    represents m' (if err = None then p\<lparr>pv_conn := s, pv_open := (pv_open p)(file_of m k \<mapsto> source)\<rparr> else p\<lparr>pv_conn := s\<rparr>)"
proof -
  let ?f = "file_of m k" and ?n = "length (op_transitions m)"
  let ?a = "set_pc k Locking m" and ?b = "elect k (set_pc k Locking m)"
  let ?c = "set_pc k (Publishing ?n source err retryable)
    (?b\<lparr>op_opened := (if err = None then op_opened ?b @ [file_of ?b k] else op_opened ?b)\<rparr>)"
  let ?d = "publish k ?n source err retryable ?c"
  have nf: "op_files m ?f = None" using rep none unfolding represents_def by blast
  have old: "i < ?n" if "op_files m g = Some i" for g i using inv that by (simp add: open_inv_def entries_ok_def)
  have b: "op_callers ?b = (op_callers m)[k := (op_callers m ! k)\<lparr>cl_pc := Opening ?n\<rparr>]"
    "op_files ?b = (op_files m)(?f \<mapsto> ?n)"
    "op_transitions ?b = op_transitions m @ [\<lparr>ot_done = False, ot_source = [], ot_err = None, ot_retryable = False\<rparr>]"
    using k nf by (simp_all add: elect_def)
  have "open_call t env cause m ?a" using k by (intro open_step.check) simp_all
  moreover have "open_call t env cause ?a ?b" using k by (intro open_step.lock) simp
  moreover have "open_call t env cause ?b ?c" using k out by (intro open_step.opened) (simp_all add: b)
  moreover have "open_call t env cause ?c ?d" using k by (intro open_step.published) (simp add: b)
  ultimately have run: "(open_call t env cause)\<^sup>*\<^sup>* m ?d" by (meson converse_rtranclp_into_rtranclp rtranclp.rtrancl_refl)
  have d: "op_files ?d = (if err \<noteq> None then (op_files m)(?f := None) else (op_files m)(?f \<mapsto> ?n))"
    "op_transitions ?d = op_transitions m @ [\<lparr>ot_done = True, ot_source = source, ot_err = err, ot_retryable = retryable\<rparr>]"
    using k by (simp_all add: publish_def b)
  have source_d: "openedSource ?d g = (if g = ?f then (if err = None then Some source else None) else openedSource m g)" for g
  proof (cases "g = ?f")
    case True
    then show ?thesis unfolding openedSource_def d by simp
  next
    case False
    then show ?thesis using old [of g] unfolding openedSource_def d
      by (cases "op_files m g") (simp_all add: nth_append)
  qed
  have "represents ?d (if err = None then p\<lparr>pv_conn := s, pv_open := (pv_open p)(?f \<mapsto> source)\<rparr> else p\<lparr>pv_conn := s\<rparr>)"
    by (rule represents_open [OF rep none source_d]) (simp_all add: d(1) split: if_splits)
  moreover have "at ?d k (Returned err)" using k by (simp add: publish_def b)
  ultimately show ?thesis using run by blast
qed

lemma lsp_SymbolSignatures_Inr:
  assumes "lsp_SymbolSignatures t env pool f ss c w = (Inr sigs, w')" "ss \<noteq> []"
  shows "\<exists>uri plans w1 source n n'. pool uri plans c w1 = (Inr sigs, w') \<and> planSignatures c source ss n = (Inr plans, n')"
proof -
  obtain fl uri w1 where prep: "prepareOpen t env f c w = (Inr (fl, uri), w1)"
    using assms by (auto simp: lsp_SymbolSignatures_def split: sum.splits prod.splits)
  obtain source where src: "(if needsSignatureSource ss then pv_open (snd w1) fl else Some []) = Some source"
    using assms prep by (auto simp: lsp_SymbolSignatures_def split: option.splits)
  obtain plans w2 where plans: "withPolls (planSignatures c source ss) w1 = (Inr plans, w2)" "pool uri plans c w2 = (Inr sigs, w')"
    using assms by (auto simp: lsp_SymbolSignatures_def prep src split: sum.splits prod.splits)
  then have "fst (planSignatures c source ss (fst w1)) = Inr plans" using withPolls_fst by (metis prod.collapse)
  then show ?thesis using plans(2) by (metis prod.collapse)
qed

section \<open>Properties\<close>

definition pool_ok :: "(string \<Rightarrow> signaturePlan list \<Rightarrow> ('s, string list) lsp_call) \<Rightarrow> bool" where
  "pool_ok pool \<longleftrightarrow>
     (\<forall>uri plans c w r w'. pool uri plans c w = (r, w') \<longrightarrow> (\<exists>answer cause. requestSignatures answer cause plans r))"

text \<open>C15: a sequential call of \<open>ensureOpen\<close> is a run of the concurrent callers: whatever it returns, a
  caller that runs alone from a state that represents the provider returns the same, and the
  state it leaves represents the provider the call leaves.\<close>

theorem ensureOpen_simulates:
  assumes "open_inv files m" "at m k Looping" "\<not> cl_canceled (op_callers m ! k)" "represents m p" "cause k = ctx_cause c"
    and "ensureOpen t env (file_of m k) c (n, p) = (r, (n', p'))"
  shows "\<exists>m'. (open_step (openFile_outcome t env) cause)\<^sup>*\<^sup>* m m' \<and> at m' k (Returned (outcome r)) \<and> represents m' p'"
proof (cases "ctx_err c n")
  case (Some e)
  then have "e = cause k" using assms(5) by (auto simp: ctx_err_def split: option.splits if_splits)
  then have "r = Inl (Canceled (cause k))" "p' = p" using assms(6) Some by (simp_all add: ensureOpen_def)
  then show ?thesis using simulate_canceled [OF assms(2,3,4)] by (simp add: outcome_def)
next
  case None
  show ?thesis
  proof (cases "pv_open p (file_of m k)")
    case (Some source)
    then have "r = Inr ()" "p' = p" using assms(6) None by (simp_all add: ensureOpen_def)
    then show ?thesis using simulate_opened [OF assms(1-4) Some] by (simp add: outcome_def)
  next
    case new: None
    obtain source err retryable n1 s where out: "openFile t env c (file_of m k) (Suc n, pv_conn p) = ((source, err, retryable), (n1, s))"
      by (metis prod_cases3 surj_pair)
    then have "openFile_outcome t env (file_of m k) (source, err, retryable)" unfolding openFile_outcome_def by blast
    from simulate_opening [OF assms(1-4) new this, of cause s]
    show ?thesis using assms(6) None new out by (cases err) (auto simp: ensureOpen_def outcome_def)
  qed
qed

lemma lsp_provider_signatures:
  assumes "SymbolSignatures (lsp_provider t env js pool err_text) f ss c w = (Inr sigs, w')" "pool_ok pool"
  shows "length sigs = length ss"
proof -
  have sig: "lsp_SymbolSignatures t env pool f ss c w = (Inr sigs, w')" using assms(1) by (simp add: lsp_provider_def)
  show ?thesis
  proof (cases "ss = []")
    case False
    with lsp_SymbolSignatures_Inr [OF sig] obtain uri plans w1 source n n' where
      "pool uri plans c w1 = (Inr sigs, w')" "planSignatures c source ss n = (Inr plans, n')" by blast
    then show ?thesis using assms(2) requestSignatures_Inr planSignatures_length unfolding pool_ok_def by metis
  qed (use sig in \<open>simp add: lsp_SymbolSignatures_def\<close>)
qed


lemma sequential_pool_ok: "pool_ok (\<lambda>uri plans c w. (sequentialSignatures sig plans, w))"
  unfolding pool_ok_def using sequentialSignatures_allowed by blast

text \<open>A position that is not valid is rejected before anything is sent: the error says so and the
  provider, its connection and the polls made are as they were.\<close>

lemma lsp_invalid_position:
  assumes "\<not> wf_position pos"
  shows "(\<exists>e. lsp_Definition t env js f pos c w = (Inl (BadPosition e), w)) \<and>
    (\<exists>e. lsp_References t env js f pos includeDeclaration c w = (Inl (BadPosition e), w))"
proof -
  obtain e where "toLSPPosition pos = Inl e"
    using assms Position_Validate_None [of pos] by (cases "Position_Validate pos") (simp_all add: toLSPPosition_def)
  then show ?thesis by (simp add: lsp_Definition_def lsp_References_def)
qed

interpretation sequential_provider: language_provider
  "lsp_provider t env js (\<lambda>uri plans c w. (sequentialSignatures sig plans, w)) err_text"
  for t :: "'s connection" and env js sig err_text
  by (rule language_provider.intro, drule lsp_provider_signatures) (rule sequential_pool_ok)

subsection \<open>Witnesses\<close>

definition sample_conn :: "unit connection" where
  "sample_conn = \<lparr>conn_call = (\<lambda>_ _ _ w. (Inr ''null'', w)), conn_notify = (\<lambda>_ _ _ w. (Inr (), w)),
     conn_readFile = (\<lambda>_ _. Inr ''class A {}''), conn_unavailable = (\<lambda>_ _. None), conn_isOpen = (\<lambda>_ _. True)\<rparr>"

definition fresh_provider :: "unit provider" where
  "fresh_provider = \<lparr>pv_open = Map.empty, pv_conn = ()\<rparr>"

lemma sample_open: "openFile sample_conn ubuntu_env background ''/a'' (1, ()) = ((''class A {}'', None, False), (3, ()))"
  by code_simp

lemma sample_start: "represents (open_start files) fresh_provider"
  by (simp add: represents_def open_start_def openedSource_def fresh_provider_def)

lemma opener_run: "\<exists>s. (open_step (openFile_outcome sample_conn ubuntu_env) (\<lambda>_. []))\<^sup>*\<^sup>* (open_start [''/a'', ''/a'']) s \<and>
    at s 0 (Returned None)"
proof -
  let ?m = "open_start [''/a'', ''/a'']"
  have "at ?m 0 Looping" "\<not> cl_canceled (op_callers ?m ! 0)" "pv_open fresh_provider (file_of ?m 0) = None"
    by (simp_all add: open_start_def fresh_provider_def)
  moreover have "openFile_outcome sample_conn ubuntu_env (file_of ?m 0) (''class A {}'', None, False)"
    unfolding openFile_outcome_def using sample_open by (auto simp: open_start_def)
  ultimately show ?thesis using simulate_opening [OF open_inv_start _ _ sample_start] by blast
qed

theorem ensureOpen_single_flight_witness:
  "\<exists>s. (open_step (openFile_outcome sample_conn ubuntu_env) (\<lambda>_. []))\<^sup>*\<^sup>* (open_start [''/a'', ''/a'']) s \<and>
     at s 0 (Returned None) \<and> distinct (op_opened s) \<and> (\<exists>source. openedSource s (file_of s 0) = Some source)"
  using opener_run ensureOpen_single_flight by blast

theorem ensureOpen_terminates_witness:
  "\<exists>s'. (open_step (openFile_outcome sample_conn ubuntu_env) (\<lambda>_. []))\<^sup>*\<^sup>* (open_start [''/a'', ''/a'']) s' \<and> open_finished s'"
  using ensureOpen_terminates [OF rtranclp.rtrancl_refl] by blast

theorem ensureOpen_simulates_witness:
  "\<exists>m'. (open_step (openFile_outcome sample_conn ubuntu_env) (\<lambda>_. []))\<^sup>*\<^sup>* (open_start [''/a'']) m' \<and> at m' 0 (Returned None) \<and>
     represents m' (fresh_provider\<lparr>pv_open := [''/a'' \<mapsto> ''class A {}'']\<rparr>)"
proof -
  have "file_of (open_start [''/a'']) 0 = ''/a''" by (simp add: open_start_def)
  then have "ensureOpen sample_conn ubuntu_env (file_of (open_start [''/a'']) 0) background (0, fresh_provider) =
      (Inr (), (3, fresh_provider\<lparr>pv_open := [''/a'' \<mapsto> ''class A {}'']\<rparr>))"
    using sample_open by (simp add: ensureOpen_def fresh_provider_def)
  from ensureOpen_simulates [OF open_inv_start _ _ sample_start _ this, of "\<lambda>_. []"]
  show ?thesis by (simp add: open_start_def background_def outcome_def)
qed


theorem lsp_invalid_position_witness:
  "\<exists>e. lsp_Definition sample_conn ubuntu_env \<lparr>js_locations = Inl, js_location = Inl, js_symbols = Inl\<rparr> ''/a''
     \<lparr>Line = - 1, Character = 0\<rparr> background (0, fresh_provider) = (Inl (BadPosition e), (0, fresh_provider))"
  by (rule conjunct1 [OF lsp_invalid_position]) (simp add: wf_position_def)

end
