(* ===== verification/Lsp_Transport.thy ===== *)
theory Lsp_Transport
  imports Lsp_Framing "HOL-Library.AList" "HOL-Library.Multiset"
begin

text \<open>
  The connection to the language server (\<^verbatim>\<open>src/internal/lsp/transport.go\<close>): its four states, the
  pending requests and their one-shot results, admission of writes, and the way a closing or
  failing connection releases everybody who waits. Each section that runs under the mutex is
  one operation below; the completions that a section leaves to be made after the unlock stay
  in \<open>t_completing\<close>, and the cleanup an abort still owes in \<open>t_cleanup\<close>, so that they interleave
  with everything else.
\<close>

section \<open>State\<close>

datatype transportState = transportOpen | transportClosing | transportClosed | transportAborted
datatype writePolicy = writeExternal | writeServerResponse | writeShutdown | writeExit
datatype conn_error = errProviderClosed | ConnErr string

text \<open>A decoded message; the id, the parameters and the result are raw JSON texts, empty when absent.\<close>

record jsonrpcMessage =
  m_ID :: string
  m_Method :: string
  m_Result :: string
  m_Error :: "(int \<times> string) option"

type_synonym pendingResult = "conn_error + jsonrpcMessage"

datatype cleanup = CloseInput | KillProcess | StartProcessWait

text \<open>
  A pending request is an index into \<open>t_requests\<close>, whose entry is its result once the
  \<^verbatim>\<open>done\<close> channel is closed. \<open>t_unavailable\<close>, \<open>t_inputCloses\<close>, \<open>t_kills\<close> and \<open>t_waits\<close> count how
  often the channel was closed and the process resources were released. \<open>t_issued\<close> holds the
  request ids that were taken and not yet registered.
\<close>

record transport =
  t_state :: transportState
  t_connErr :: "conn_error option"
  t_unavailable :: nat
  t_unavailableCause :: "conn_error option"
  t_pending :: "(string \<times> nat) list"
  t_requests :: "pendingResult option list"
  t_nextID :: int
  t_inputClosed :: bool
  t_inputCloses :: nat
  t_kills :: nat
  t_waits :: nat
  t_issued :: "int set"
  t_completing :: "(nat \<times> pendingResult) list"
  t_cleanup :: "cleanup list"

definition newTransport :: transport where
  "newTransport = \<lparr>t_state = transportOpen, t_connErr = None, t_unavailable = 0, t_unavailableCause = None,
     t_pending = [], t_requests = [], t_nextID = 0, t_inputClosed = False, t_inputCloses = 0, t_kills = 0,
     t_waits = 0, t_issued = {}, t_completing = [], t_cleanup = []\<rparr>"

section \<open>Operations\<close>

definition connectionErrorLocked :: "transport \<Rightarrow> conn_error" where
  "connectionErrorLocked t = (case t_connErr t of Some e \<Rightarrow> e | None \<Rightarrow> errProviderClosed)"

definition unavailableError :: "transport \<Rightarrow> conn_error" where
  "unavailableError t = (case t_unavailableCause t of Some e \<Rightarrow> e | None \<Rightarrow> errProviderClosed)"

definition register :: "string \<Rightarrow> transport \<Rightarrow> (conn_error + nat) \<times> transport" where
  "register key t =
     (if t_state t \<noteq> transportOpen then (Inl (connectionErrorLocked t), t)
      else (let request = length (t_requests t) in
        (Inr request, t\<lparr>t_requests := t_requests t @ [None], t_pending := AList.update key request (t_pending t)\<rparr>)))"

definition transitionFromOpenLocked :: "transportState \<Rightarrow> conn_error \<Rightarrow> transport \<Rightarrow> bool \<times> transport" where
  "transitionFromOpenLocked state cause t =
     (if t_state t \<noteq> transportOpen then (False, t)
      else (True, t\<lparr>t_state := state, t_connErr := Some cause, t_unavailableCause := Some cause,
        t_unavailable := t_unavailable t + 1\<rparr>))"

definition admitWrite :: "writePolicy \<Rightarrow> transport \<Rightarrow> conn_error option" where
  "admitWrite policy t =
     (let allowed = (case policy of
          writeExternal \<Rightarrow> t_state t = transportOpen
        | writeServerResponse \<Rightarrow> t_state t = transportOpen \<or> t_state t = transportClosing
        | _ \<Rightarrow> t_state t = transportClosing)
      in if allowed \<and> \<not> t_inputClosed t then None else Some (connectionErrorLocked t))"

text \<open>The locked part of \<open>complete\<close>, and the one-shot completion of a request.\<close>

definition takePending :: "string \<Rightarrow> transport \<Rightarrow> nat option \<times> transport" where
  "takePending key t =
     (case map_of (t_pending t) key of
        None \<Rightarrow> (None, t)
      | Some request \<Rightarrow> (Some request, t\<lparr>t_pending := AList.delete key (t_pending t)\<rparr>))"

definition completeRequest :: "nat \<Rightarrow> pendingResult \<Rightarrow> transport \<Rightarrow> bool \<times> transport" where
  "completeRequest request result t =
     (case t_requests t ! request of
        Some _ \<Rightarrow> (False, t)
      | None \<Rightarrow> (True, t\<lparr>t_requests := (t_requests t)[request := Some result]\<rparr>))"

definition complete :: "string \<Rightarrow> pendingResult \<Rightarrow> transport \<Rightarrow> bool \<times> transport" where
  "complete key result t =
     (case takePending key t of
        (None, t') \<Rightarrow> (False, t')
      | (Some request, t') \<Rightarrow> completeRequest request result t')"

definition drainPendingLocked :: "transport \<Rightarrow> nat list \<times> transport" where
  "drainPendingLocked t = (map snd (t_pending t), t\<lparr>t_pending := []\<rparr>)"

text \<open>Hand the drained requests over to the completions that follow the unlock.\<close>

definition leaveToComplete :: "conn_error \<Rightarrow> nat list \<times> transport \<Rightarrow> transport" where
  "leaveToComplete cause wt =
     (snd wt)\<lparr>t_completing := t_completing (snd wt) @ map (\<lambda>r. (r, Inl cause)) (fst wt)\<rparr>"

definition beginClose :: "string \<Rightarrow> transport \<Rightarrow> nat option \<times> transport" where
  "beginClose key t =
     (case transitionFromOpenLocked transportClosing errProviderClosed t of
        (False, t') \<Rightarrow> (None, t')
      | (True, t') \<Rightarrow>
          (let t2 = leaveToComplete errProviderClosed (drainPendingLocked t'); shutdown = length (t_requests t2) in
           (Some shutdown, t2\<lparr>t_requests := t_requests t2 @ [None], t_pending := AList.update key shutdown (t_pending t2)\<rparr>)))"

definition finishClose :: "transport \<Rightarrow> transport" where
  "finishClose t =
     (if t_state t \<noteq> transportClosing then t
      else leaveToComplete errProviderClosed (drainPendingLocked (t\<lparr>t_state := transportClosed\<rparr>)))"

definition abort :: "conn_error \<Rightarrow> transport \<Rightarrow> transport" where
  "abort cause t =
     (if t_state t = transportClosed \<or> t_state t = transportAborted then t
      else
        (let t1 = (case transitionFromOpenLocked transportAborted cause t of
             (True, t') \<Rightarrow> t'
           | (False, t') \<Rightarrow> t'\<lparr>t_state := transportAborted, t_connErr := Some cause\<rparr>)
         in (leaveToComplete cause (drainPendingLocked t1))
              \<lparr>t_cleanup := t_cleanup t1 @ [CloseInput, KillProcess, StartProcessWait]\<rparr>))"

definition readerFailed :: "conn_error \<Rightarrow> transport \<Rightarrow> transport" where
  "readerFailed cause t =
     (if t_state t = transportClosing then leaveToComplete cause (drainPendingLocked t) else abort cause t)"

text \<open>The three \<^verbatim>\<open>sync.Once\<close> operations on the process.\<close>

definition closeInput :: "transport \<Rightarrow> transport" where
  "closeInput t = (if t_inputClosed t then t else t\<lparr>t_inputClosed := True, t_inputCloses := t_inputCloses t + 1\<rparr>)"

definition kill :: "transport \<Rightarrow> transport" where
  "kill t = (if 0 < t_kills t then t else t\<lparr>t_kills := t_kills t + 1\<rparr>)"

definition startProcessWait :: "transport \<Rightarrow> transport" where
  "startProcessWait t = (if 0 < t_waits t then t else t\<lparr>t_waits := t_waits t + 1\<rparr>)"

fun perform :: "cleanup \<Rightarrow> transport \<Rightarrow> transport" where
  "perform CloseInput t = closeInput t"
| "perform KillProcess t = kill t"
| "perform StartProcessWait t = startProcessWait t"

section \<open>Steps\<close>

text \<open>
  Callers take an id and register it; responses, cancellations and write errors take a
  pending request by its key; closing, failing and aborting happen at any time. Ids stay
  below the bound of a 64-bit integer.
\<close>

inductive t_step :: "transport \<Rightarrow> transport \<Rightarrow> bool" where
  take_id: "t_nextID t + 1 < 2 ^ 63 \<Longrightarrow>
    t_step t (t\<lparr>t_nextID := t_nextID t + 1, t_issued := insert (t_nextID t + 1) (t_issued t)\<rparr>)"
| register_call: "i \<in> t_issued t \<Longrightarrow> register (itoa i) t = (r, t') \<Longrightarrow>
    t_step t (t'\<lparr>t_issued := t_issued t' - {i}\<rparr>)"
| take_pending: "takePending key t = (Some r, t') \<Longrightarrow>
    t_step t (t'\<lparr>t_completing := t_completing t' @ [(r, result)]\<rparr>)"
| finish_completion: "t_completing t = (r, result) # rest \<Longrightarrow> completeRequest r result t = (b, t') \<Longrightarrow>
    t_step t (t'\<lparr>t_completing := rest\<rparr>)"
| begin_close: "i \<in> t_issued t \<Longrightarrow> beginClose (itoa i) t = (r, t') \<Longrightarrow>
    t_step t (t'\<lparr>t_issued := t_issued t' - {i}\<rparr>)"
| finish_close: "t_step t (finishClose t)"
| reader_failed: "t_step t (readerFailed cause t)"
| aborted: "t_step t (abort cause t)"
| cleanup: "t_cleanup t = c # cs \<Longrightarrow> t_step t ((perform c t)\<lparr>t_cleanup := cs\<rparr>)"
| close_input: "t_step t (closeInput t)"
| kill_process: "t_step t (kill t)"
| wait_process: "t_step t (startProcessWait t)"

section \<open>Invariant\<close>

text \<open>Requests not yet completed: in the table of pending requests or about to be completed.\<close>

definition waiting :: "transport \<Rightarrow> nat list" where
  "waiting t = map snd (t_pending t) @ map fst (t_completing t)"

definition outstanding :: "pendingResult option list \<Rightarrow> nat list" where
  "outstanding rs = filter (\<lambda>r. rs ! r = None) [0..<length rs]"

definition requests_inv :: "transport \<Rightarrow> bool" where
  "requests_inv t \<longleftrightarrow> mset (waiting t) = mset (outstanding (t_requests t))"

definition keys_inv :: "transport \<Rightarrow> bool" where
  "keys_inv t \<longleftrightarrow> distinct (map fst (t_pending t)) \<and> 0 \<le> t_nextID t \<and> t_nextID t < 2 ^ 63 \<and>
     (\<forall>i \<in> t_issued t. 0 < i \<and> i \<le> t_nextID t) \<and>
     (\<forall>k \<in> fst ` set (t_pending t). \<exists>i. k = itoa i \<and> 0 < i \<and> i \<le> t_nextID t \<and> i \<notin> t_issued t)"

definition state_inv :: "transport \<Rightarrow> bool" where
  "state_inv t \<longleftrightarrow>
     t_unavailable t = (if t_state t = transportOpen then 0 else 1) \<and>
     (t_unavailableCause t = None \<longleftrightarrow> t_state t = transportOpen) \<and>
     (t_connErr t = None \<longleftrightarrow> t_state t = transportOpen) \<and>
     (t_state t = transportClosed \<or> t_state t = transportAborted \<longrightarrow> t_pending t = [])"

definition process_inv :: "transport \<Rightarrow> bool" where
  "process_inv t \<longleftrightarrow>
     t_inputCloses t = (if t_inputClosed t then 1 else 0) \<and> t_kills t \<le> 1 \<and> t_waits t \<le> 1 \<and>
     (t_state t = transportAborted \<longrightarrow>
       (t_inputClosed t \<or> CloseInput \<in> set (t_cleanup t)) \<and>
       (0 < t_kills t \<or> KillProcess \<in> set (t_cleanup t)) \<and>
       (0 < t_waits t \<or> StartProcessWait \<in> set (t_cleanup t)))"

definition t_inv :: "transport \<Rightarrow> bool" where
  "t_inv t \<longleftrightarrow> requests_inv t \<and> keys_inv t \<and> state_inv t \<and> process_inv t"

lemmas t_ops = register_def transitionFromOpenLocked_def takePending_def completeRequest_def
  drainPendingLocked_def leaveToComplete_def beginClose_def finishClose_def abort_def readerFailed_def
  closeInput_def kill_def startProcessWait_def

lemma perform_frame [simp]:
  "t_state (perform c t) = t_state t"
  "t_connErr (perform c t) = t_connErr t"
  "t_unavailable (perform c t) = t_unavailable t"
  "t_unavailableCause (perform c t) = t_unavailableCause t"
  "t_pending (perform c t) = t_pending t"
  "t_requests (perform c t) = t_requests t"
  "t_nextID (perform c t) = t_nextID t"
  "t_issued (perform c t) = t_issued t"
  "t_completing (perform c t) = t_completing t"
  by (cases c; simp add: closeInput_def kill_def startProcessWait_def)+

lemma once_frame [simp]:
  "t_state (closeInput t) = t_state t" "t_state (kill t) = t_state t" "t_state (startProcessWait t) = t_state t"
  "t_connErr (closeInput t) = t_connErr t" "t_connErr (kill t) = t_connErr t" "t_connErr (startProcessWait t) = t_connErr t"
  "t_unavailable (closeInput t) = t_unavailable t" "t_unavailable (kill t) = t_unavailable t" "t_unavailable (startProcessWait t) = t_unavailable t"
  "t_unavailableCause (closeInput t) = t_unavailableCause t" "t_unavailableCause (kill t) = t_unavailableCause t" "t_unavailableCause (startProcessWait t) = t_unavailableCause t"
  "t_pending (closeInput t) = t_pending t" "t_pending (kill t) = t_pending t" "t_pending (startProcessWait t) = t_pending t"
  "t_requests (closeInput t) = t_requests t" "t_requests (kill t) = t_requests t" "t_requests (startProcessWait t) = t_requests t"
  "t_nextID (closeInput t) = t_nextID t" "t_nextID (kill t) = t_nextID t" "t_nextID (startProcessWait t) = t_nextID t"
  "t_issued (closeInput t) = t_issued t" "t_issued (kill t) = t_issued t" "t_issued (startProcessWait t) = t_issued t"
  "t_completing (closeInput t) = t_completing t" "t_completing (kill t) = t_completing t" "t_completing (startProcessWait t) = t_completing t"
  by (simp_all add: closeInput_def kill_def startProcessWait_def)

lemmas t_locked = register_def transitionFromOpenLocked_def takePending_def completeRequest_def
  drainPendingLocked_def leaveToComplete_def beginClose_def finishClose_def abort_def readerFailed_def

lemma state_inv_step: "t_step t t' \<Longrightarrow> state_inv t \<Longrightarrow> state_inv t'"
  by (induction rule: t_step.induct)
     (auto simp: state_inv_def t_locked Let_def split: if_splits option.splits prod.splits)

lemma process_inv_step: "t_step t t' \<Longrightarrow> process_inv t \<Longrightarrow> process_inv t'"
proof (induction rule: t_step.induct)
  case (cleanup t c cs)
  then show ?case by (cases c) (auto simp: process_inv_def t_ops)
qed (auto simp: process_inv_def t_ops Let_def split: if_splits option.splits prod.splits)

text \<open>Moving requests between the table and the completions keeps the waiting requests.\<close>

lemma outstanding_snoc: "outstanding (rs @ [None]) = outstanding rs @ [length rs]"
proof -
  have "filter (\<lambda>r. (rs @ [None]) ! r = None) [0..<length rs] = filter (\<lambda>r. rs ! r = None) [0..<length rs]"
    by (rule filter_cong) (auto simp: nth_append)
  then show ?thesis by (simp add: outstanding_def)
qed

lemma outstanding_iff: "r \<in> set (outstanding rs) \<longleftrightarrow> r < length rs \<and> rs ! r = None"
  by (auto simp: outstanding_def)

lemma distinct_outstanding: "distinct (outstanding rs)"
  by (simp add: outstanding_def)

lemma outstanding_update:
  assumes "r < length rs" "rs ! r = None"
  shows "mset (outstanding rs) = add_mset r (mset (outstanding (rs[r := Some v])))"
proof -
  have "set_mset (mset (outstanding rs)) = set_mset (add_mset r (mset (outstanding (rs[r := Some v]))))"
    using assms by (auto simp: outstanding_iff nth_list_update split: if_splits)
  moreover have "distinct (outstanding rs)" "distinct (r # outstanding (rs[r := Some v]))"
    using assms by (auto simp: distinct_outstanding outstanding_iff)
  ultimately show ?thesis using set_eq_iff_mset_eq_distinct [of "outstanding rs" "r # outstanding (rs[r := Some v])"]
    by simp
qed

lemma delete_mset:
  "map_of ps k = Some r \<Longrightarrow> distinct (map fst ps) \<Longrightarrow>
   mset (map snd ps) = add_mset r (mset (map snd (AList.delete k ps)))"
proof (induction ps)
  case (Cons p ps)
  show ?case
  proof (cases "fst p = k")
    case True
    then have "AList.delete k ps = ps" using Cons.prems by (auto intro: delete_id)
    then show ?thesis using True Cons.prems by (cases p) (auto simp: AList.delete_eq)
  next
    case False
    then show ?thesis using Cons by (cases p) (auto simp: AList.delete_eq)
  qed
qed simp

lemma drained_fst [simp]: "image_mset fst (image_mset (\<lambda>x. (snd x, c)) M) = image_mset snd M"
  by (simp add: multiset.map_comp comp_def)

lemma update_fresh: "k \<notin> fst ` set ps \<Longrightarrow> AList.update k v ps = ps @ [(k, v)]"
  by (induction ps) auto

lemma issued_fresh:
  assumes "keys_inv t" "i \<in> t_issued t"
  shows "itoa i \<notin> fst ` set (t_pending t)"
proof
  assume "itoa i \<in> fst ` set (t_pending t)"
  then obtain j where j: "itoa i = itoa j" "0 < j" "j \<le> t_nextID t" "j \<notin> t_issued t"
    using assms(1) unfolding keys_inv_def by blast
  moreover have "in_int64 i" "in_int64 j" using assms j by (auto simp: keys_inv_def in_int64_def)
  ultimately show False using itoa_inject assms(2) by blast
qed

lemma requests_inv_step: "t_step t t' \<Longrightarrow> keys_inv t \<Longrightarrow> requests_inv t \<Longrightarrow> requests_inv t'"
proof (induction rule: t_step.induct)
  case (register_call i t r t')
  then show ?case
    using issued_fresh [of t i]
    by (auto simp: register_def requests_inv_def waiting_def Let_def outstanding_snoc update_fresh split: if_splits)
next
  case (take_pending key t r t' result)
  then show ?case
    using delete_mset [of "t_pending t" key r]
    by (auto simp: takePending_def requests_inv_def waiting_def keys_inv_def split: option.splits)
next
  case (finish_completion t r result rest b t')
  have "r \<in> set (waiting t)" using finish_completion by (simp add: waiting_def)
  then have "r < length (t_requests t)" "t_requests t ! r = None"
    using mset_eq_setD [OF finish_completion.prems(2) [unfolded requests_inv_def]] by (auto simp: outstanding_iff)
  then show ?case
    using finish_completion outstanding_update [of r "t_requests t" result]
    by (auto simp: completeRequest_def requests_inv_def waiting_def split: option.splits)
next
  case (begin_close i t r t')
  then show ?case
    by (auto simp: beginClose_def transitionFromOpenLocked_def drainPendingLocked_def leaveToComplete_def
        requests_inv_def waiting_def Let_def outstanding_snoc comp_def union_commute split: if_splits)
qed (auto simp: t_locked requests_inv_def waiting_def Let_def comp_def union_commute split: if_splits option.splits prod.splits)

lemma keys_inv_step: "t_step t t' \<Longrightarrow> keys_inv t \<Longrightarrow> keys_inv t'"
proof (induction rule: t_step.induct)
  case (take_id t)
  then show ?case by (fastforce simp: keys_inv_def)
next
  case (register_call i t r t')
  then show ?case
    using issued_fresh [of t i]
    by (auto simp: register_def keys_inv_def Let_def update_fresh split: if_splits; fastforce)
next
  case (take_pending key t r t' result)
  then have t': "t' = t\<lparr>t_pending := AList.delete key (t_pending t)\<rparr>"
    by (auto simp: takePending_def split: option.splits)
  have sub: "fst ` set (AList.delete key (t_pending t)) \<subseteq> fst ` set (t_pending t)" by (auto simp: AList.delete_eq)
  have "\<forall>k \<in> fst ` set (AList.delete key (t_pending t)).
      \<exists>i. k = itoa i \<and> 0 < i \<and> i \<le> t_nextID t \<and> i \<notin> t_issued t"
    using take_pending.prems sub unfolding keys_inv_def by blast
  then show ?case
    using take_pending.prems distinct_delete [of "t_pending t" key]
    unfolding keys_inv_def t' by simp
next
  case (begin_close i t r t')
  then show ?case
    by (auto simp: beginClose_def transitionFromOpenLocked_def drainPendingLocked_def leaveToComplete_def
        keys_inv_def Let_def split: if_splits)
qed (auto simp: t_locked keys_inv_def Let_def split: if_splits option.splits prod.splits)

interpretation connection: inductive_invariant "\<lambda>t. t = newTransport" t_step t_inv
proof unfold_locales
  fix t assume "t = newTransport"
  then show "t_inv t"
    by (simp add: newTransport_def t_inv_def requests_inv_def waiting_def outstanding_def keys_inv_def
        state_inv_def process_inv_def)
next
  fix t t' assume "t_inv t" "t_step t t'"
  then show "t_inv t'"
    unfolding t_inv_def using requests_inv_step keys_inv_step state_inv_step process_inv_step by blast
qed

section \<open>Properties\<close>

abbreviation reachable_transport :: "transport \<Rightarrow> bool" where
  "reachable_transport t \<equiv> t_step\<^sup>*\<^sup>* newTransport t"

lemma reachable_inv: "reachable_transport t \<Longrightarrow> t_inv t"
  using connection.inv_reachable by blast

text \<open>C3: no caller is ever lost. A request that has no result yet is in the pending table or
  about to be completed, exactly once; after the connection closed or aborted the table is
  empty, so once the completions in flight are made every request has its result.\<close>

theorem transport_no_lost_waiter:
  assumes "reachable_transport t"
  shows "distinct (map snd (t_pending t) @ map fst (t_completing t)) \<and>
    (\<forall>r < length (t_requests t). t_requests t ! r = None \<longrightarrow>
       r \<in> snd ` set (t_pending t) \<or> r \<in> fst ` set (t_completing t)) \<and>
    (t_state t = transportClosed \<or> t_state t = transportAborted \<longrightarrow> t_pending t = [] \<and>
      (t_completing t = [] \<longrightarrow> None \<notin> set (t_requests t)))"
proof -
  have inv: "requests_inv t" "state_inv t" using reachable_inv [OF assms] by (auto simp: t_inv_def)
  have eq: "mset (waiting t) = mset (outstanding (t_requests t))" using inv(1) by (simp add: requests_inv_def)
  have "distinct (waiting t)" using mset_eq_imp_distinct_iff [OF eq] distinct_outstanding by blast
  moreover have w: "set (waiting t) = {r. r < length (t_requests t) \<and> t_requests t ! r = None}"
    using mset_eq_setD [OF eq] by (auto simp: outstanding_iff)
  moreover have "None \<notin> set (t_requests t)" if "waiting t = []"
    using w that by (auto simp: in_set_conv_nth)
  ultimately show ?thesis using inv(2) by (auto simp: waiting_def state_inv_def)
qed

text \<open>The unavailable channel is closed exactly when the connection leaves its open state
  and never again; the cause that its readers see is the first one and never changes.\<close>

theorem transport_unavailable_once:
  assumes "reachable_transport t" and "t_step t t'"
  shows "t_unavailable t' = (if t_state t' = transportOpen then 0 else 1) \<and>
    (t_state t \<noteq> transportOpen \<longrightarrow> t_unavailableCause t' = t_unavailableCause t \<and> t_unavailableCause t \<noteq> None)"
proof -
  have "state_inv t" using reachable_inv [OF assms(1)] by (simp add: t_inv_def)
  moreover from this have "state_inv t'" using state_inv_step assms(2) by blast
  moreover have "t_state t \<noteq> transportOpen \<Longrightarrow> t_unavailableCause t' = t_unavailableCause t"
    using assms(2) by (cases rule: t_step.cases)
      (auto simp: t_locked Let_def split: if_splits option.splits prod.splits)
  ultimately show ?thesis by (auto simp: state_inv_def)
qed

text \<open>The connection only moves forward: from open to closing or aborted, from closing to
  closed or aborted, and a closed or aborted connection stays what it is; a request is
  registered and an external write admitted only while it is open.\<close>

lemma transport_lifecycle:
  assumes "t_step t t'"
  shows "t_state t' = t_state t \<or>
      t_state t = transportOpen \<and> t_state t' \<in> {transportClosing, transportAborted} \<or>
      t_state t = transportClosing \<and> t_state t' \<in> {transportClosed, transportAborted}"
  using assms
  by (cases rule: t_step.cases; cases "t_state t")
     (auto simp: t_locked Let_def split: if_splits option.splits prod.splits)

text \<open>What the writer may send in each state: external messages only while open, the
  server's responses also while closing, the shutdown handshake only while closing, and nothing
  once the input is closed or the connection is closed or aborted; a refusal carries the
  recorded cause.\<close>

lemma admitWrite_policy:
  "admitWrite policy t =
     (if \<not> t_inputClosed t \<and>
        (t_state t = transportOpen \<and> policy \<in> {writeExternal, writeServerResponse} \<or>
         t_state t = transportClosing \<and> policy \<in> {writeServerResponse, writeShutdown, writeExit})
      then None else Some (connectionErrorLocked t))"
  by (cases policy; cases "t_state t") (simp_all add: admitWrite_def)

text \<open>The input is closed, the process killed and its wait started at most once each, and
  after an abort all three have happened or are still owed by the aborting caller.\<close>

theorem transport_cleanup:
  assumes "reachable_transport t"
  shows "t_inputCloses t \<le> 1 \<and> t_kills t \<le> 1 \<and> t_waits t \<le> 1 \<and>
    (t_state t = transportAborted \<and> t_cleanup t = [] \<longrightarrow> t_inputCloses t = 1 \<and> t_kills t = 1 \<and> t_waits t = 1)"
proof -
  have "process_inv t" using reachable_inv [OF assms] by (simp add: t_inv_def)
  then show ?thesis by (auto simp: process_inv_def)
qed

subsection \<open>Witnesses\<close>

definition waiting_transport :: transport where
  "waiting_transport = newTransport\<lparr>t_nextID := 1, t_requests := [None], t_pending := [(''1'', 0)]\<rparr>"

lemma waiting_transport_reachable: "reachable_transport waiting_transport"
proof -
  let ?t1 = "newTransport\<lparr>t_nextID := 1, t_issued := {1}\<rparr>"
  have one: "itoa 1 = ''1''" by code_simp
  have 1: "t_step newTransport ?t1" using t_step.take_id [of newTransport] by (simp add: newTransport_def)
  have r: "register (itoa 1) ?t1 = (Inr 0, ?t1\<lparr>t_requests := [None], t_pending := [(''1'', 0)]\<rparr>)"
    unfolding one by (simp add: register_def newTransport_def)
  have 2: "t_step ?t1 waiting_transport"
    using t_step.register_call [OF _ r] by (simp add: waiting_transport_def newTransport_def)
  show ?thesis using 1 2 by (meson rtranclp.rtrancl_into_rtrancl rtranclp.rtrancl_refl)
qed

definition aborted_transport :: transport where
  "aborted_transport = abort (ConnErr ''eof'') waiting_transport"

lemma aborted_transport_reachable: "reachable_transport aborted_transport"
  unfolding aborted_transport_def
  using waiting_transport_reachable t_step.aborted by (rule rtranclp.rtrancl_into_rtrancl)

theorem transport_no_lost_waiter_witness:
  "t_state aborted_transport = transportAborted \<and> t_pending aborted_transport = [] \<and>
   0 \<in> fst ` set (t_completing aborted_transport)"
proof -
  have "t_state aborted_transport = transportAborted" "t_requests aborted_transport = [None]"
    by (simp_all add: aborted_transport_def waiting_transport_def newTransport_def t_locked)
  then show ?thesis using transport_no_lost_waiter [OF aborted_transport_reachable] by force
qed

theorem transport_unavailable_once_witness:
  "t_unavailableCause (abort (ConnErr ''again'') aborted_transport) = t_unavailableCause aborted_transport"
proof -
  have "t_state aborted_transport \<noteq> transportOpen"
    by (simp add: aborted_transport_def waiting_transport_def newTransport_def t_locked)
  then show ?thesis
    using transport_unavailable_once [OF aborted_transport_reachable t_step.aborted] by blast
qed

theorem transport_lifecycle_witness: "t_state aborted_transport \<in> {transportOpen, transportClosing, transportAborted}"
proof -
  have "t_state waiting_transport = transportOpen" by (simp add: waiting_transport_def newTransport_def)
  then show ?thesis
    using transport_lifecycle [OF t_step.aborted [of waiting_transport "ConnErr ''eof''"]] by (auto simp: aborted_transport_def)
qed

theorem transport_cleanup_witness: "t_inputCloses aborted_transport \<le> 1 \<and> t_kills aborted_transport \<le> 1"
  using transport_cleanup [OF aborted_transport_reachable] by simp

end
