(* ===== verification/Lsp_Rpc.thy ===== *)
theory Lsp_Rpc
  imports Lsp_Transport
begin

text \<open>
  Requests and responses over the transport (\<^verbatim>\<open>src/internal/lsp/rpc.go\<close>, \<^verbatim>\<open>stderr.go\<close>): the loop
  that reads frames and routes the messages, the outcome of a call, and the bounded tail of
  the server's diagnostics. Decoding a body into a message is \<^verbatim>\<open>encoding/json\<close>'s and enters as
  the parameter \<open>decode\<close>.
\<close>

section \<open>The tail of the diagnostics\<close>

definition stderrBufferCap :: nat where "stderrBufferCap = 8192"

definition stderr_append :: "string \<Rightarrow> string \<Rightarrow> string" where
  "stderr_append buf chunk =
     (let grown = buf @ chunk in
      if stderrBufferCap < length grown then drop (length grown - stderrBufferCap) grown else grown)"

definition stderr_String :: "string \<Rightarrow> string" where
  "stderr_String buf = trim_space buf"

section \<open>The read loop\<close>

text \<open>Where a decoded message goes: a response the client must send, nothing, or a delivery.\<close>

datatype route = MethodNotFound string string | Ignored | Deliver string jsonrpcMessage

definition routeMessage :: "jsonrpcMessage \<Rightarrow> route" where
  "routeMessage msg =
     (if m_Method msg \<noteq> [] \<and> m_ID msg \<noteq> [] then MethodNotFound (m_ID msg) (m_Method msg)
      else if m_Method msg \<noteq> [] then Ignored
      else if m_ID msg \<noteq> [] then Deliver (m_ID msg) msg
      else Ignored)"

definition handleBody ::
  "(string \<Rightarrow> jsonrpcMessage option) \<Rightarrow> string \<Rightarrow> (string \<times> string) list \<times> transport \<Rightarrow> (string \<times> string) list \<times> transport" where
  "handleBody decode data st =
     (case decode data of
        None \<Rightarrow> st
      | Some msg \<Rightarrow>
          (case routeMessage msg of
             MethodNotFound i method \<Rightarrow> (fst st @ [(i, method)], snd st)
           | Ignored \<Rightarrow> st
           | Deliver i message \<Rightarrow> (fst st, snd (complete i (Inr message) (snd st)))))"

definition closedCause :: "frame_error \<Rightarrow> string \<Rightarrow> conn_error" where
  "closedCause e extra =
     ConnErr (''lsp: connection closed: '' @
       (case e of EOF \<Rightarrow> ''EOF'' | UnexpectedEOF \<Rightarrow> ''unexpected EOF''
        | MissingContentLength \<Rightarrow> ''lsp: message missing Content-Length header''
        | BadContentLength v \<Rightarrow> ''lsp: bad Content-Length '' @ v) @
       (if extra \<noteq> [] then '' (stderr: '' @ extra @ '')'' else []))"

lemma readFrame_progress: "readFrame s = (Inr body, rest) \<Longrightarrow> length rest < length s"
proof -
  assume "readFrame s = (Inr body, rest)"
  then obtain n r where "readHeaders (-1) s = (Inr n, r)" "rest = drop (nat n) r"
    by (auto simp: readFrame_def Let_def split: prod.splits sum.splits if_splits)
  then obtain h where "s = h @ r" "h \<noteq> []" using readHeaders_suffix by blast
  then show "length rest < length s" using \<open>rest = _\<close> by (cases h) auto
qed

text \<open>The loop over the server's output; the first component collects the method-not-found answers.\<close>

function readLoop ::
  "(string \<Rightarrow> jsonrpcMessage option) \<Rightarrow> string \<Rightarrow> string \<Rightarrow> (string \<times> string) list \<times> transport \<Rightarrow> (string \<times> string) list \<times> transport" where
  "readLoop decode buf output st =
     (case readFrame output of
        (Inl e, rest) \<Rightarrow> (fst st, readerFailed (closedCause e (stderr_String buf)) (snd st))
      | (Inr data, rest) \<Rightarrow> readLoop decode buf rest (handleBody decode data st))"
  by pat_completeness auto
termination
  by (relation "measure (\<lambda>(decode, buf, output, st). length output)") (auto dest: readFrame_progress [OF sym])

declare readLoop.simps [simp del]

section \<open>Calls\<close>

datatype call_error =
    NotRegistered conn_error
  | CallFailed string conn_error
  | ServerError string int string

text \<open>What \<open>call\<close> makes of the result of its pending request.\<close>

definition callResult :: "string \<Rightarrow> pendingResult \<Rightarrow> call_error + string" where
  "callResult method result =
     (case result of
        Inl e \<Rightarrow> Inl (CallFailed method e)
      | Inr message \<Rightarrow>
          (case m_Error message of
             Some (code, text) \<Rightarrow> Inl (ServerError method code text)
           | None \<Rightarrow> Inr (m_Result message)))"

text \<open>
  \<open>waitPending\<close> with the context done: the caller completes its own request unless somebody
  else already took it, and reports whether it did.
\<close>

definition cancelPending :: "string \<Rightarrow> string \<Rightarrow> transport \<Rightarrow> bool \<times> transport" where
  "cancelPending key cause t = complete key (Inl (ConnErr cause)) t"

section \<open>Properties\<close>

definition last_bytes :: "nat \<Rightarrow> string \<Rightarrow> string" where
  "last_bytes n s = drop (length s - n) s"

lemma last_bytes_append: "last_bytes n (last_bytes n s @ t) = last_bytes n (s @ t)"
  by (cases "length s \<le> n") (auto simp: last_bytes_def add.commute)

lemma stderr_append_last: "stderr_append buf chunk = last_bytes stderrBufferCap (buf @ chunk)"
  by (auto simp: stderr_append_def last_bytes_def Let_def)

text \<open>However the server's diagnostics arrive in chunks, the buffer holds exactly their last
  8192 bytes.\<close>

lemma stderr_tail:
  "foldl stderr_append [] chunks = last_bytes 8192 (concat chunks)"
proof (induction chunks rule: rev_induct)
  case (snoc c cs)
  then show ?case by (simp add: stderr_append_last stderrBufferCap_def last_bytes_append)
qed (simp add: last_bytes_def)

lemma readLoop_frames:
  "list_all frame_fits bodies \<Longrightarrow>
   readLoop decode buf (concat (map frameBytes bodies)) st =
     (let st' = fold (handleBody decode) bodies st in
      (fst st', readerFailed (closedCause EOF (stderr_String buf)) (snd st')))"
proof (induction bodies arbitrary: st)
  case Nil
  have "readFrame [] = (Inl EOF, [])" by (simp add: readFrame_def readHeaders.simps)
  then show ?case by (subst readLoop.simps) simp
next
  case (Cons b bs)
  then have "readFrame (concat (map frameBytes (b # bs))) = (Inr b, concat (map frameBytes bs))"
    using frames.dec_enc [of b "concat (map frameBytes bs)"] by simp
  then show ?case using Cons by (subst readLoop.simps) simp
qed

text \<open>Reading a stream of frames hands every decoded body, in the order of the stream, to the
  request it answers or to the method-not-found replies, skips what does not decode, and at the
  end of the stream releases everybody who still waits.\<close>

theorem readLoop_routes:
  assumes "list_all frame_fits bodies"
  shows "readLoop decode buf (concat (map frameBytes bodies)) ([], t) =
    (let st = fold (handleBody decode) bodies ([], t) in
     (fst st, readerFailed (closedCause EOF (stderr_String buf)) (snd st)))"
  using assms by (rule readLoop_frames)

text \<open>Completing a request is idempotent per key: the first completion stores the result and
  takes the key, every later completion of that key changes nothing and says so. So a response
  and a cancellation that race for one request have exactly one winner.\<close>

theorem complete_once:
  assumes "t_inv t" and "complete key result t = (True, t')"
  shows "complete key result' t' = (False, t') \<and>
    (\<exists>r. map_of (t_pending t) key = Some r \<and> t_requests t' ! r = Some result \<and>
       (\<forall>k. k \<noteq> key \<longrightarrow> map_of (t_pending t') k = map_of (t_pending t) k))"
proof -
  obtain r where r: "map_of (t_pending t) key = Some r"
      "completeRequest r result (t\<lparr>t_pending := AList.delete key (t_pending t)\<rparr>) = (True, t')"
    using assms(2) by (auto simp: complete_def takePending_def split: option.splits)
  have "r \<in> set (waiting t)" using map_of_SomeD [OF r(1)] by (force simp: waiting_def)
  then have "r < length (t_requests t)"
    using assms(1) mset_eq_setD [of "waiting t" "outstanding (t_requests t)"]
    by (auto simp: t_inv_def requests_inv_def outstanding_iff)
  then show ?thesis
    using r by (auto simp: completeRequest_def complete_def takePending_def delete_conv' map_of_delete
        split: option.splits)
qed

subsection \<open>Witnesses\<close>

definition one_answer :: jsonrpcMessage where
  "one_answer = \<lparr>m_ID = ''1'', m_Method = [], m_Result = ''[]'', m_Error = None\<rparr>"

theorem readLoop_routes_witness:
  "t_requests (snd (readLoop (\<lambda>_. Some one_answer) [] (concat (map frameBytes [''{}''])) ([], waiting_transport))) =
   [Some (Inr one_answer)]"
proof -
  have "list_all frame_fits [''{}'']" by (simp add: frame_fits_def in_int64_def)
  from readLoop_routes [OF this, of "\<lambda>_. Some one_answer" "[]" waiting_transport] show ?thesis
    by (simp add: handleBody_def routeMessage_def one_answer_def complete_def takePending_def completeRequest_def
        waiting_transport_def newTransport_def t_locked)
qed

theorem complete_once_witness:
  "fst (complete ''1'' (Inl errProviderClosed) (snd (complete ''1'' (Inr one_answer) waiting_transport))) = False"
proof -
  have inv: "t_inv waiting_transport" using reachable_inv [OF waiting_transport_reachable] .
  have "complete ''1'' (Inr one_answer) waiting_transport =
      (True, snd (complete ''1'' (Inr one_answer) waiting_transport))"
    by (simp add: complete_def takePending_def completeRequest_def waiting_transport_def newTransport_def)
  from complete_once [OF inv this, of "Inl errProviderClosed"] show ?thesis by simp
qed

end
