(* ===== verification/State_Logic.thy ===== *)
theory State_Logic
  imports "HOL-Library.State_Monad"
begin

text \<open>
  Programs in the state monad are verified by what holds after them: \<open>after s m Q\<close> says that running
  \<open>m\<close> from \<open>s\<close> ends in a result and a state that satisfy \<open>Q\<close>, and is computed from the parts of \<open>m\<close>.
\<close>

definition after :: "'s \<Rightarrow> ('s, 'a) state \<Rightarrow> ('a \<Rightarrow> 's \<Rightarrow> bool) \<Rightarrow> bool" where
  "after s m Q \<longleftrightarrow> (case run_state m s of (a, t) \<Rightarrow> Q a t)"

lemma after_bind [simp]: "after s (State_Monad.bind m f) Q = after s m (\<lambda>a u. after u (f a) Q)"
  by (simp add: after_def split: prod.splits)

lemma after_return [simp]: "after s (State_Monad.return a) Q = Q a s"
  by (simp add: after_def)

lemma after_get [simp]: "after s State_Monad.get Q = Q s s"
  by (simp add: after_def State_Monad.get_def)

lemma after_mono: "after s m Q \<Longrightarrow> (\<And>a t. Q a t \<Longrightarrow> R a t) \<Longrightarrow> after s m R"
  by (auto simp: after_def split: prod.splits)

lemma after_conj: "after s m Q \<Longrightarrow> after s m R \<Longrightarrow> after s m (\<lambda>a t. Q a t \<and> R a t)"
  by (simp add: after_def split: prod.splits)

lemma after_always: "(\<And>a t. Q a t) \<Longrightarrow> after s m Q"
  by (simp add: after_def split: prod.splits)

lemma afterD: "after s m Q \<Longrightarrow> run_state m s = (a, t) \<Longrightarrow> Q a t"
  by (simp add: after_def)

end
