(* ===== verification/Lsp_Sections.thy ===== *)
theory Lsp_Sections
  imports Lsp_Transport State_Logic "HOL-Library.Sublist"
begin

text \<open>
  Operations of a connection that take several critical sections (\<^verbatim>\<open>src/internal/lsp/transport.go\<close> and
  \<^verbatim>\<open>framing.go\<close>): writing a message, aborting with the cleanups, waiting for a pending request. Before each
  section the other users of the connection may have acted, and each wait may end by what it waits
  for or by its context; both are parts of the state that the code does not control. The
  locale \<open>section_logic\<close> is what a proof about such programs needs of the users and of the sections.
\<close>

section \<open>Programs\<close>

text \<open>How a frame write ends: all bytes dispatched, a failure after some bytes, or a cancellation before the dispatch.\<close>

datatype frame_end = FrameDispatched | FrameFailed nat conn_error | FrameCanceled

record closing =
  cl_transport :: transport
  cl_moment :: nat
  cl_others :: "nat \<Rightarrow> transport \<Rightarrow> transport"
  cl_expired :: "nat \<Rightarrow> bool"
  cl_ctxErr :: conn_error
  cl_writes :: "nat \<Rightarrow> frame_end"
  cl_exited :: "nat \<Rightarrow> bool"
  cl_frames :: "string list"

type_synonym 'a io = "(closing, 'a) state"

text \<open>One critical section, after the others acted.\<close>

definition critical :: "(transport \<Rightarrow> 'a \<times> transport) \<Rightarrow> 'a io" where
  "critical f = State (\<lambda>s. case f (cl_others s (cl_moment s) (cl_transport s)) of
     (a, t) \<Rightarrow> (a, s\<lparr>cl_transport := t, cl_moment := Suc (cl_moment s)\<rparr>))"

abbreviation (input) "locked_do f \<equiv> critical (\<lambda>t. ((), f t))"

text \<open>What the error of the context is once it is done, whether it is done, how a frame write ends, whether the process was seen to exit.\<close>

definition ctx_err :: "conn_error io" where
  "ctx_err = State (\<lambda>s. (cl_ctxErr s, s))"

definition ctx_done :: "conn_error option io" where
  "ctx_done = State (\<lambda>s. (if cl_expired s (cl_moment s) then Some (cl_ctxErr s) else None, s\<lparr>cl_moment := Suc (cl_moment s)\<rparr>))"

definition write_ends :: "string \<Rightarrow> frame_end io" where
  "write_ends frame = State (\<lambda>s. (cl_writes s (cl_moment s),
     s\<lparr>cl_moment := Suc (cl_moment s), cl_frames := cl_frames s @ (if cl_writes s (cl_moment s) = FrameDispatched then [frame] else [])\<rparr>))"

definition process_exits :: "bool io" where
  "process_exits = State (\<lambda>s. (cl_exited s (cl_moment s), s\<lparr>cl_moment := Suc (cl_moment s)\<rparr>))"

text \<open>\<^verbatim>\<open>fmt.Errorf\<close> with a wrapped cause.\<close>

fun wrapped :: "string \<Rightarrow> conn_error \<Rightarrow> conn_error" where
  "wrapped message (ConnErr cause) = ConnErr (message @ cause)"
| "wrapped message errProviderClosed = ConnErr (message @ ''lsp: provider closed'')"

section \<open>Operations\<close>

text \<open>\<open>abort\<close> as its caller runs it: the locked part, then the three cleanups, each of which takes effect only
  once. The transport keeps the list of cleanups that were due; doing them a second time changes nothing.\<close>

definition runAbort :: "conn_error \<Rightarrow> unit io" where
  "runAbort cause = do {
     gone \<leftarrow> critical (\<lambda>t. (t_state t = transportClosed \<or> t_state t = transportAborted, abort cause t));
     if gone then State_Monad.return ()
     else do {
       _ \<leftarrow> locked_do closeInput;
       _ \<leftarrow> locked_do kill;
       locked_do startProcessWait } }"

definition lockWrite :: "conn_error option io" where
  "lockWrite = do {
     expired \<leftarrow> ctx_done;
     case expired of Some e \<Rightarrow> State_Monad.return (Some e) | None \<Rightarrow> ctx_done }"

text \<open>A frame write that fails, or is canceled before it was dispatched, aborts the connection; a context that is
  done before the frame is built does not.\<close>

definition writeFrameLocked :: "string \<Rightarrow> conn_error option io" where
  "writeFrameLocked frame = do {
     expired \<leftarrow> ctx_done;
     case expired of
       Some e \<Rightarrow> State_Monad.return (Some e)
     | None \<Rightarrow> do {
       ended \<leftarrow> write_ends frame;
       case ended of
         FrameDispatched \<Rightarrow> State_Monad.return None
       | FrameFailed written e \<Rightarrow> do {
           _ \<leftarrow> runAbort (wrapped (''writing LSP frame after '' @ itoa (int written) @ '' bytes: '') e);
           State_Monad.return (Some e) }
       | FrameCanceled \<Rightarrow> do {
           e \<leftarrow> ctx_err;
           _ \<leftarrow> runAbort e;
           State_Monad.return (Some e) } } }"

definition writeAdmittedFrameLocked :: "writePolicy \<Rightarrow> string \<Rightarrow> conn_error option io" where
  "writeAdmittedFrameLocked policy frame = do {
     expired \<leftarrow> ctx_done;
     case expired of
       Some e \<Rightarrow> State_Monad.return (Some e)
     | None \<Rightarrow> do {
       refused \<leftarrow> critical (\<lambda>t. (admitWrite policy t, t));
       case refused of Some e \<Rightarrow> State_Monad.return (Some e) | None \<Rightarrow> writeFrameLocked frame } }"

definition writeMessage :: "writePolicy \<Rightarrow> conn_error option \<Rightarrow> string \<Rightarrow> conn_error option io" where
  "writeMessage policy marshalErr frame = do {
     expired \<leftarrow> ctx_done;
     case expired of
       Some e \<Rightarrow> State_Monad.return (Some e)
     | None \<Rightarrow>
         (case marshalErr of
            Some e \<Rightarrow> State_Monad.return (Some e)
          | None \<Rightarrow> do {
              busy \<leftarrow> lockWrite;
              case busy of Some e \<Rightarrow> State_Monad.return (Some e) | None \<Rightarrow> writeAdmittedFrameLocked policy frame }) }"

text \<open>
  \<^verbatim>\<open>waitPending\<close>: the request is done, or the context is and cancels it. When another goroutine has
  taken the request in between, the wait lasts until that goroutine completes it; \<open>None\<close> is a wait
  that never ends.
\<close>

definition awaitDone :: "nat \<Rightarrow> transport \<Rightarrow> pendingResult option \<times> transport" where
  "awaitDone request t =
     (case t_requests t ! request of
        Some result \<Rightarrow> (Some result, t)
      | None \<Rightarrow>
          (case map_of (t_completing t) request of
             None \<Rightarrow> (None, t)
           | Some result \<Rightarrow> (Some result, (snd (completeRequest request result t))
               \<lparr>t_completing := filter (\<lambda>c. fst c \<noteq> request) (t_completing t)\<rparr>)))"

definition waitPending :: "string \<Rightarrow> nat \<Rightarrow> (pendingResult option \<times> bool) io" where
  "waitPending key request = do {
     answered \<leftarrow> critical (\<lambda>t. (t_requests t ! request, t));
     case answered of
       Some result \<Rightarrow> State_Monad.return (Some result, False)
     | None \<Rightarrow> do {
         e \<leftarrow> ctx_err;
         canceled \<leftarrow> critical (complete key (Inl e));
         result \<leftarrow> critical (awaitDone request);
         State_Monad.return (result, canceled) } }"

section \<open>Reasoning about sections\<close>

text \<open>Programs built from sections that keep what is achieved.\<close>

named_theorems steady_rules \<open>programs built from mild sections\<close>

text \<open>
  \<open>keep\<close> is an invariant of the connection, \<open>prog\<close> the progress that is never taken back, \<open>user\<close> a step of
  another user. Both hold across the locked parts of the shared operations.
\<close>

locale section_logic =
  fixes keep :: "transport \<Rightarrow> bool" and prog :: "transport \<Rightarrow> transport \<Rightarrow> bool" and user :: "transport \<Rightarrow> transport \<Rightarrow> bool"
  assumes prog_refl: "prog t t"
    and prog_trans: "prog t u \<Longrightarrow> prog u v \<Longrightarrow> prog t v"
    and user_keeps: "user t t' \<Longrightarrow> keep t \<Longrightarrow> keep t' \<and> prog t t'"
    and abort_keeps: "keep t \<Longrightarrow> keep (abort cause t) \<and> prog t (abort cause t)"
    and closeInput_keeps: "keep t \<Longrightarrow> keep (closeInput t) \<and> prog t (closeInput t)"
    and kill_keeps: "keep t \<Longrightarrow> keep (kill t) \<and> prog t (kill t)"
    and wait_keeps: "keep t \<Longrightarrow> keep (startProcessWait t) \<and> prog t (startProcessWait t)"
begin

lemma users_keep:
  assumes "user\<^sup>*\<^sup>* t t'" "keep t"
  shows "keep t' \<and> prog t t'"
  using assms
proof (induction rule: rtranclp_induct)
  case (step u v)
  then show ?case using user_keeps prog_trans by blast
qed (simp add: prog_refl)

definition good :: "closing \<Rightarrow> bool" where
  "good s \<longleftrightarrow> (\<forall>n t. user\<^sup>*\<^sup>* t (cl_others s n t)) \<and> keep (cl_transport s)"

definition mild :: "(transport \<Rightarrow> 'a \<times> transport) \<Rightarrow> bool" where
  "mild f \<longleftrightarrow> (\<forall>t. keep t \<longrightarrow> keep (snd (f t)) \<and> prog t (snd (f t)))"

definition goes :: "closing \<Rightarrow> closing \<Rightarrow> bool" where
  "goes s s' \<longleftrightarrow> good s' \<and> prog (cl_transport s) (cl_transport s') \<and> prefix (cl_frames s) (cl_frames s') \<and>
     cl_ctxErr s' = cl_ctxErr s"

lemma goes_refl: "good s \<Longrightarrow> goes s s"
  by (simp add: goes_def prog_refl)

lemma goes_trans: "goes s u \<Longrightarrow> goes u v \<Longrightarrow> goes s v"
  using prog_trans prefix_order.trans by (auto simp: goes_def)

lemma goes_good: "goes s s' \<Longrightarrow> good s'"
  by (simp add: goes_def)

text \<open>One section, after the others acted. The second rule is for a section that is mild in some states only.\<close>

lemma after_section:
  assumes s: "good s"
    and Q: "\<And>a s' t. keep t \<Longrightarrow> prog (cl_transport s) t \<Longrightarrow> user\<^sup>*\<^sup>* (cl_transport s) t \<Longrightarrow> t = cl_others s (cl_moment s) (cl_transport s) \<Longrightarrow>
      a = fst (f t) \<Longrightarrow> cl_transport s' = snd (f t) \<Longrightarrow> (keep (snd (f t)) \<Longrightarrow> prog t (snd (f t)) \<Longrightarrow> goes s s') \<Longrightarrow>
      (keep (snd (f t)) \<Longrightarrow> good s') \<Longrightarrow> cl_frames s' = cl_frames s \<Longrightarrow> cl_ctxErr s' = cl_ctxErr s \<Longrightarrow> Q a s'"
  shows "after s (critical f) Q"
proof -
  let ?t = "cl_others s (cl_moment s) (cl_transport s)"
  have t: "keep ?t" "prog (cl_transport s) ?t" using users_keep [of "cl_transport s" ?t] s by (auto simp: good_def)
  obtain a u where fu: "f ?t = (a, u)" by fastforce
  show ?thesis using Q [OF t _ refl, of a] s fu prog_trans [OF t(2)]
    by (auto simp: after_def critical_def goes_def good_def)
qed

lemma after_critical:
  assumes "good s" "mild f"
    and "\<And>a s' t. goes s s' \<Longrightarrow> keep t \<Longrightarrow> prog (cl_transport s) t \<Longrightarrow>
      a = fst (f t) \<Longrightarrow> cl_transport s' = snd (f t) \<Longrightarrow> Q a s'"
  shows "after s (critical f) Q"
  by (rule after_section [OF assms(1)]) (use assms(2,3) in \<open>auto simp: mild_def\<close>)

definition steady :: "'a io \<Rightarrow> bool" where
  "steady m \<longleftrightarrow> (\<forall>s. good s \<longrightarrow> after s m (\<lambda>_ s'. goes s s'))"

lemma steadyD: "steady m \<Longrightarrow> good s \<Longrightarrow> (\<And>a s'. goes s s' \<Longrightarrow> Q a s') \<Longrightarrow> after s m Q"
  using after_mono [of s m "\<lambda>_. goes s" Q] by (simp add: steady_def)

lemma steady_return [steady_rules]: "steady (State_Monad.return a)"
  by (simp add: steady_def goes_refl)

lemma steady_bind [steady_rules]: "steady m \<Longrightarrow> (\<And>a. steady (f a)) \<Longrightarrow> steady (State_Monad.bind m f)"
  unfolding steady_def
proof (intro allI impI)
  fix s assume m: "\<forall>s. good s \<longrightarrow> after s m (\<lambda>_. goes s)" and f: "\<And>a. \<forall>s. good s \<longrightarrow> after s (f a) (\<lambda>_. goes s)" and s: "good s"
  have "after s m (\<lambda>a u. after u (f a) (\<lambda>_. goes s))"
  proof (rule after_mono [of s m "\<lambda>_. goes s"])
    fix a u assume u: "goes s u"
    then show "after u (f a) (\<lambda>_. goes s)"
      using after_mono [of u "f a" "\<lambda>_. goes u"] f goes_trans by (metis goes_def)
  qed (use m s in blast)
  then show "after s (State_Monad.bind m f) (\<lambda>_. goes s)" by simp
qed

lemma steady_critical: "mild f \<Longrightarrow> steady (critical f)"
  unfolding steady_def by (auto intro: after_critical)

lemma steady_if [steady_rules]: "steady a \<Longrightarrow> steady b \<Longrightarrow> steady (if c then a else b)"
  by simp

lemma steady_option [steady_rules]: "steady a \<Longrightarrow> (\<And>x. steady (f x)) \<Longrightarrow> steady (case o1 of None \<Rightarrow> a | Some x \<Rightarrow> f x)"
  by (cases o1) auto

lemma steady_frame_end [steady_rules]:
  "steady a \<Longrightarrow> (\<And>n e. steady (f n e)) \<Longrightarrow> steady b \<Longrightarrow>
   steady (case fe of FrameDispatched \<Rightarrow> a | FrameFailed n e \<Rightarrow> f n e | FrameCanceled \<Rightarrow> b)"
  by (cases fe) auto

lemma steady_oracles [steady_rules]: "steady ctx_err" "steady ctx_done" "steady (write_ends frame)" "steady process_exits"
  by (simp_all add: steady_def after_def ctx_err_def ctx_done_def write_ends_def process_exits_def goes_def good_def prog_refl)

lemma mild_shared:
  "mild (\<lambda>t. (f t, t))" "mild (\<lambda>t. (f t, abort cause t))" "mild (\<lambda>t. ((), closeInput t))" "mild (\<lambda>t. ((), kill t))"
  "mild (\<lambda>t. ((), startProcessWait t))"
  using prog_refl abort_keeps closeInput_keeps kill_keeps wait_keeps by (auto simp: mild_def)

lemmas steady_shared [steady_rules] = mild_shared [THEN steady_critical]

lemma steady_programs [steady_rules]:
  "steady (runAbort cause)" "steady lockWrite"
  unfolding runAbort_def lockWrite_def by (intro steady_rules)+

lemma steady_writes [steady_rules]:
  "steady (writeAdmittedFrameLocked policy frame)"
  unfolding writeAdmittedFrameLocked_def writeFrameLocked_def by (intro steady_rules)

lemma steady_writeMessage [steady_rules]: "steady (writeMessage policy marshalErr frame)"
  unfolding writeMessage_def by (intro steady_rules)

end

end
