(* ===== verification/Lsp_Lifecycle.thy ===== *)
theory Lsp_Lifecycle
  imports Lsp_Sections
begin

text \<open>
  Closing the connection (\<^verbatim>\<open>src/internal/lsp/lifecycle.go\<close> and \<^verbatim>\<open>closeInputAfterWrites\<close> of \<^verbatim>\<open>transport.go\<close>): the whole
  sequence of \<^verbatim>\<open>close\<close> over the sections of the connection, and what it achieves however the other
  users interleave.
\<close>

section \<open>Operations\<close>

definition closeInputAfterWrites :: "unit io" where
  "closeInputAfterWrites = do {
     closing \<leftarrow> critical (\<lambda>t. (t_state t = transportClosing \<and> \<not> t_inputClosed t, t));
     if \<not> closing then locked_do closeInput
     else do {
       busy \<leftarrow> lockWrite;
       case busy of Some e \<Rightarrow> runAbort e | None \<Rightarrow> locked_do closeInput } }"

text \<open>\<^verbatim>\<open>waitForProcessContext\<close> with its two waits; the result says whether the process was seen to exit in the first.\<close>

definition waitForProcessContext :: "bool \<Rightarrow> bool io" where
  "waitForProcessContext graceful = do {
     _ \<leftarrow> locked_do startProcessWait;
     exited \<leftarrow> (if graceful then process_exits else State_Monad.return False);
     if exited then State_Monad.return True
     else do { _ \<leftarrow> locked_do kill; State_Monad.return False } }"

definition waitForProcess :: "bool io" where
  "waitForProcess = waitForProcessContext True"

definition abortAndWait :: "conn_error \<Rightarrow> bool io" where
  "abortAndWait cause = do { _ \<leftarrow> runAbort cause; waitForProcessContext False }"

text \<open>The first half of \<^verbatim>\<open>close\<close>: take the write gate, leave the open state and send the shutdown request.\<close>

definition beginShutdown :: "conn_error option \<Rightarrow> string \<Rightarrow> (string \<times> nat \<times> conn_error option) option io" where
  "beginShutdown marshalErr frame = do {
     key \<leftarrow> critical (\<lambda>t. (itoa (t_nextID t + 1), t\<lparr>t_nextID := t_nextID t + 1\<rparr>));
     busy \<leftarrow> lockWrite;
     case busy of
       Some e \<Rightarrow> do { _ \<leftarrow> runAbort e; State_Monad.return None }
     | None \<Rightarrow> do {
         shutdown \<leftarrow> critical (beginClose key);
         case shutdown of
           None \<Rightarrow> State_Monad.return None
         | Some request \<Rightarrow> do {
             writeErr \<leftarrow> (case marshalErr of
                Some e \<Rightarrow> State_Monad.return (Some e)
              | None \<Rightarrow> writeAdmittedFrameLocked writeShutdown frame);
             State_Monad.return (Some (key, request, writeErr)) } } }"

definition close :: "conn_error option \<Rightarrow> string \<Rightarrow> string \<Rightarrow> bool io" where
  "close marshalErr shutdownFrame exitFrame = do {
     started \<leftarrow> beginShutdown marshalErr shutdownFrame;
     _ \<leftarrow> (case started of
        None \<Rightarrow> State_Monad.return ()
      | Some (key, request, writeErr) \<Rightarrow> do {
          _ \<leftarrow> (case writeErr of
             Some e \<Rightarrow> locked_do (\<lambda>t. snd (complete key (Inl (wrapped ''writing shutdown request: '' e)) t))
           | None \<Rightarrow> State_Monad.return ());
          _ \<leftarrow> waitPending key request;
          _ \<leftarrow> writeMessage writeExit None exitFrame;
          State_Monad.return () });
     _ \<leftarrow> closeInputAfterWrites;
     exited \<leftarrow> waitForProcessContext True;
     _ \<leftarrow> locked_do finishClose;
     State_Monad.return exited }"

section \<open>Progress of a connection\<close>

text \<open>What the operations of a connection, those that end a close apart, never take back.\<close>

definition later :: "transport \<Rightarrow> transport \<Rightarrow> bool" where
  "later t t' \<longleftrightarrow> (t_state t \<noteq> transportOpen \<longrightarrow> t_state t' \<noteq> transportOpen) \<and>
     (t_state t = transportAborted \<longrightarrow> t_state t' = transportAborted) \<and>
     (t_state t' = transportClosed \<longrightarrow> t_state t = transportClosed) \<and>
     (t_inputClosed t \<longrightarrow> t_inputClosed t') \<and> t_kills t \<le> t_kills t' \<and> t_waits t \<le> t_waits t'"

lemma later_refl [simp]: "later t t"
  by (simp add: later_def)

lemma later_trans: "later t u \<Longrightarrow> later u v \<Longrightarrow> later t v"
  unfolding later_def by (intro conjI) (blast intro: order_trans)+

definition kept :: "transport \<Rightarrow> bool" where
  "kept t \<longleftrightarrow> state_inv t \<and> process_inv t"

text \<open>The other users of the connection: they call, cancel, fail and abort, but \<^verbatim>\<open>closeOnce\<close> leaves closing to one.\<close>

definition user_step :: "transport \<Rightarrow> transport \<Rightarrow> bool" where
  "user_step t t' \<longleftrightarrow> t_step t t' \<and> (t_state t' = t_state t \<or> t_state t' = transportAborted)"

definition fair :: "closing \<Rightarrow> bool" where
  "fair s \<longleftrightarrow> (\<forall>n t. user_step\<^sup>*\<^sup>* t (cl_others s n t))"

lemma user_step_later: "user_step t t' \<Longrightarrow> later t t'"
  unfolding user_step_def
proof (elim conjE)
  assume "t_step t t'" "t_state t' = t_state t \<or> t_state t' = transportAborted"
  then show ?thesis
  proof (induction rule: t_step.induct)
    case (cleanup t c cs)
    then show ?case by (cases c) (auto simp: later_def t_ops)
  qed (auto simp: later_def t_ops Let_def split: if_splits option.splits prod.splits)
qed

text \<open>The sections of a close.\<close>

lemma abort_kept: "kept t \<Longrightarrow> kept (abort cause t) \<and> later t (abort cause t)"
  using state_inv_step [OF t_step.aborted] process_inv_step [OF t_step.aborted]
  by (auto simp: kept_def later_def abort_def transitionFromOpenLocked_def leaveToComplete_def drainPendingLocked_def Let_def)

lemma once_kept:
  "kept t \<Longrightarrow> kept (closeInput t) \<and> later t (closeInput t)" "kept t \<Longrightarrow> kept (kill t) \<and> later t (kill t)"
  "kept t \<Longrightarrow> kept (startProcessWait t) \<and> later t (startProcessWait t)"
  by (auto simp: kept_def later_def state_inv_def process_inv_def closeInput_def kill_def startProcessWait_def)

interpretation closing: section_logic kept later user_step
proof unfold_locales
  fix t u v :: transport and cause
  show "later t t" by simp
  show "later t u \<Longrightarrow> later u v \<Longrightarrow> later t v" by (rule later_trans)
  show "user_step t u \<Longrightarrow> kept t \<Longrightarrow> kept u \<and> later t u"
    using user_step_later state_inv_step process_inv_step by (auto simp: kept_def user_step_def)
qed (simp_all add: abort_kept once_kept)

lemma mild_complete: "closing.mild (\<lambda>t. ((), snd (complete key result t)))"
  by (auto simp: closing.mild_def kept_def later_def state_inv_def process_inv_def complete_def takePending_def completeRequest_def
      split: option.splits)

lemma mild_completing: "closing.mild (complete key result)"
  by (auto simp: closing.mild_def kept_def later_def state_inv_def process_inv_def complete_def takePending_def completeRequest_def
      split: option.splits)

lemma mild_awaitDone: "closing.mild (awaitDone request)"
  by (auto simp: closing.mild_def kept_def later_def state_inv_def process_inv_def awaitDone_def completeRequest_def split: option.splits)

lemma mild_nextID: "closing.mild (\<lambda>t. (g t, t\<lparr>t_nextID := t_nextID t + 1\<rparr>))"
  by (simp add: closing.mild_def kept_def later_def state_inv_def process_inv_def)

lemma mild_beginClose: "closing.mild (beginClose key)"
  by (auto simp: closing.mild_def kept_def later_def state_inv_def process_inv_def beginClose_def transitionFromOpenLocked_def
      leaveToComplete_def drainPendingLocked_def Let_def)

lemmas [steady_rules] = closing.steady_critical [OF mild_complete] closing.steady_critical [OF mild_completing] closing.steady_critical [OF mild_awaitDone] closing.steady_critical [OF mild_nextID] closing.steady_critical [OF mild_beginClose]

lemma steady_waitPending [steady_rules]: "closing.steady (waitPending key request)"
  unfolding waitPending_def by (intro steady_rules)

section \<open>What closing achieves\<close>

text \<open>The close has not finished: only its end makes a connection closed.\<close>

definition unclosed :: "closing \<Rightarrow> bool" where
  "unclosed s \<longleftrightarrow> t_state (cl_transport s) \<noteq> transportClosed"

lemma goes_unclosed: "closing.goes s s' \<Longrightarrow> unclosed s \<Longrightarrow> unclosed s'"
  by (auto simp: closing.goes_def later_def unclosed_def)

lemma goes_left: "closing.goes s s' \<Longrightarrow> t_state (cl_transport s) \<noteq> transportOpen \<Longrightarrow> t_state (cl_transport s') \<noteq> transportOpen"
  by (simp add: closing.goes_def later_def)

lemma goes_aborted: "closing.goes s s' \<Longrightarrow> t_state (cl_transport s) = transportAborted \<Longrightarrow> t_state (cl_transport s') = transportAborted"
  by (simp add: closing.goes_def later_def)

lemma goes_input: "closing.goes s s' \<Longrightarrow> t_inputClosed (cl_transport s) \<Longrightarrow> t_inputClosed (cl_transport s')"
  by (simp add: closing.goes_def later_def)

lemma goes_waits: "closing.goes s s' \<Longrightarrow> 0 < t_waits (cl_transport s) \<Longrightarrow> 0 < t_waits (cl_transport s')"
  by (simp add: closing.goes_def later_def)

lemma sections_do:
  "t_inputClosed (closeInput t)" "process_inv t \<Longrightarrow> 0 < t_waits (startProcessWait t)" "process_inv t \<Longrightarrow> 0 < t_kills (kill t)"
  "t_state (snd (beginClose key t)) \<noteq> transportOpen"
  by (auto simp: closeInput_def startProcessWait_def kill_def beginClose_def transitionFromOpenLocked_def
      leaveToComplete_def drainPendingLocked_def Let_def process_inv_def)

lemma abort_state: "t_state t \<noteq> transportClosed \<Longrightarrow> t_state (abort cause t) = transportAborted"
  by (simp add: abort_def transitionFromOpenLocked_def leaveToComplete_def drainPendingLocked_def Let_def)

lemma after_runAbort:
  assumes s: "closing.good s" "unclosed s" and Q: "\<And>s'. closing.goes s s' \<Longrightarrow> t_state (cl_transport s') = transportAborted \<Longrightarrow> Q () s'"
  shows "after s (runAbort cause) Q"
  unfolding runAbort_def after_bind
proof (rule closing.after_critical [OF s(1) closing.mild_shared(2)], goal_cases)
  case u: (1 gone u t)
  have "t_state t \<noteq> transportClosed" using u(3) s(2) by (auto simp: later_def unclosed_def)
  then have ab: "t_state (cl_transport u) = transportAborted" using u(5) abort_state by simp
  have rest: "closing.steady (do { _ \<leftarrow> locked_do closeInput; _ \<leftarrow> locked_do kill; locked_do startProcessWait })"
    by (intro steady_rules)
  show ?case
  proof (cases gone)
    case False
    have "Q a v" if "closing.goes u v" for a v
      using Q [OF closing.goes_trans [OF u(1) that]] goes_aborted [OF that ab] by simp
    then show ?thesis using False closing.steadyD [OF rest closing.goes_good [OF u(1)], of Q] by simp
  qed (use Q u(1) ab in simp)
qed

lemma after_beginShutdown:
  assumes s: "closing.good s" "unclosed s" and Q: "\<And>r s'. closing.goes s s' \<Longrightarrow> t_state (cl_transport s') \<noteq> transportOpen \<Longrightarrow> Q r s'"
  shows "after s (beginShutdown marshalErr frame) Q"
  unfolding beginShutdown_def after_bind
proof (rule closing.steadyD [OF closing.steady_critical [OF mild_nextID] s(1)], goal_cases)
  case u: (1 key u)
  show ?case
  proof (rule closing.steadyD [OF closing.steady_programs(2) closing.goes_good [OF u]], goal_cases)
    case v: (1 busy v)
    have sv: "closing.goes s v" using closing.goes_trans [OF u v] .
    show ?case
    proof (cases busy)
      case (Some e)
      show ?thesis unfolding Some option.case after_bind
        by (rule after_runAbort [OF closing.goes_good [OF v] goes_unclosed [OF sv s(2)]]) (use Q closing.goes_trans [OF sv] in auto)
    next
      case None
      show ?thesis unfolding None option.case after_bind
      proof (rule closing.after_critical [OF closing.goes_good [OF v] mild_beginClose], goal_cases)
        case w: (1 shutdown w t)
        have left: "t_state (cl_transport w) \<noteq> transportOpen" unfolding w(5) by (rule sections_do(4))
        have sw: "closing.goes s w" using closing.goes_trans [OF sv w(1)] .
        have next_ok: "Q r x" if "closing.goes w x" for r x
          using Q [OF closing.goes_trans [OF sw that]] goes_left [OF that left] by simp
        have writes: "closing.steady (case marshalErr of Some e \<Rightarrow> State_Monad.return (Some e) | None \<Rightarrow> writeAdmittedFrameLocked writeShutdown frame)"
          by (intro steady_rules)
        show ?case
        proof (cases shutdown)
          case None
          then show ?thesis using next_ok closing.goes_refl [OF closing.goes_good [OF w(1)]] by simp
        next
          case (Some request)
          show ?thesis unfolding Some option.case after_bind
            by (rule closing.steadyD [OF writes closing.goes_good [OF w(1)]]) (simp add: next_ok)
        qed
      qed
    qed
  qed
qed

lemma after_closeInputAfterWrites:
  assumes s: "closing.good s" "unclosed s"
    and Q: "\<And>s'. closing.goes s s' \<Longrightarrow> t_inputClosed (cl_transport s') \<or> t_state (cl_transport s') = transportAborted \<Longrightarrow> Q () s'"
  shows "after s closeInputAfterWrites Q"
proof -
  have shut: "after u (locked_do closeInput) Q" if "closing.goes s u" for u
    by (rule closing.after_critical [OF closing.goes_good [OF that] closing.mild_shared(3)]) (simp add: Q closing.goes_trans [OF that] sections_do(1))
  show ?thesis unfolding closeInputAfterWrites_def after_bind
  proof (rule closing.steadyD [OF closing.steady_critical [OF closing.mild_shared(1)] s(1)], goal_cases)
    case u: (1 closing u)
    have locked: "after u lockWrite (\<lambda>busy v. after v (case busy of Some e \<Rightarrow> runAbort e | None \<Rightarrow> locked_do closeInput) Q)"
    proof (rule closing.steadyD [OF closing.steady_programs(2) closing.goes_good [OF u]], goal_cases)
      case v: (1 busy v)
      have sv: "closing.goes s v" using closing.goes_trans [OF u v] .
      show ?case
        using shut [OF sv] after_runAbort [OF closing.goes_good [OF v] goes_unclosed [OF sv s(2)], of Q] Q closing.goes_trans [OF sv]
        by (cases busy) auto
    qed
    show ?case using shut [OF u] locked by simp
  qed
qed

lemma after_waitForProcessContext:
  assumes s: "closing.good s"
    and Q: "\<And>exited s'. closing.goes s s' \<Longrightarrow> 0 < t_waits (cl_transport s') \<Longrightarrow> exited \<or> 0 < t_kills (cl_transport s') \<Longrightarrow> Q exited s'"
  shows "after s (waitForProcessContext graceful) Q"
  unfolding waitForProcessContext_def after_bind
proof (rule closing.after_critical [OF s closing.mild_shared(5)], goal_cases)
  case u: (1 a u t)
  have waits: "0 < t_waits (cl_transport u)" using u(2,5) sections_do(2) by (simp add: kept_def)
  have exits: "closing.steady (if graceful then process_exits else State_Monad.return False)" by (intro steady_rules)
  show ?case
  proof (rule closing.steadyD [OF exits closing.goes_good [OF u(1)]], goal_cases)
    case v: (1 exited v)
    have sv: "closing.goes s v" "0 < t_waits (cl_transport v)" using closing.goes_trans [OF u(1) v] goes_waits [OF v waits] by simp_all
    show ?case
    proof (cases exited)
      case False
      show ?thesis unfolding if_not_P [OF False] after_bind after_return
      proof (rule closing.after_critical [OF closing.goes_good [OF v] closing.mild_shared(4)], goal_cases)
        case w: (1 b w t')
        then show ?case
          using Q [OF closing.goes_trans [OF sv(1) w(1)] goes_waits [OF w(1) sv(2)]] sections_do(3) by (simp add: kept_def)
      qed
    qed (use Q sv in simp)
  qed
qed

text \<open>Aborting a connection and waiting for its process always ends with the process killed and awaited.\<close>

lemma waitForProcessContext_graceless: "run_state (waitForProcessContext False) s = (exited, s') \<Longrightarrow> \<not> exited"
  by (auto simp: waitForProcessContext_def split: prod.splits)

lemma abortAndWait_stops:
  assumes s: "closing.good s" "unclosed s" and run: "run_state (abortAndWait cause) s = (exited, s')"
  shows "t_state (cl_transport s') = transportAborted \<and> 0 < t_waits (cl_transport s') \<and> 0 < t_kills (cl_transport s')"
proof -
  have "\<not> exited" using run by (auto simp: abortAndWait_def dest: waitForProcessContext_graceless split: prod.splits)
  moreover have "after s (abortAndWait cause) (\<lambda>exited v. t_state (cl_transport v) = transportAborted \<and>
      0 < t_waits (cl_transport v) \<and> (exited \<or> 0 < t_kills (cl_transport v)))"
    unfolding abortAndWait_def after_bind
  proof (rule after_runAbort [OF s], goal_cases)
    case u: (1 u)
    show ?case by (rule after_waitForProcessContext [OF closing.goes_good [OF u(1)]]) (use goes_aborted [OF _ u(2)] in blast)
  qed
  from afterD [OF this run] calculation show ?thesis by blast
qed

text \<open>After a close the connection is gone, nobody is pending, the process is awaited, and it exited or was killed.\<close>

definition released :: "bool \<Rightarrow> transport \<Rightarrow> bool" where
  "released exited t \<longleftrightarrow> (t_state t = transportClosed \<or> t_state t = transportAborted) \<and> t_pending t = [] \<and>
     0 < t_waits t \<and> (exited \<or> 0 < t_kills t) \<and>
     (t_inputClosed t \<or> t_state t = transportAborted \<and> CloseInput \<in> set (t_cleanup t))"

lemma released_finishClose:
  assumes "kept t" "t_state t \<noteq> transportOpen" "0 < t_waits t" "exited \<or> 0 < t_kills t"
    and "t_inputClosed t \<or> t_state t = transportAborted"
  shows "released exited (finishClose t)"
  using assms by (cases "t_state t") (auto simp: released_def finishClose_def leaveToComplete_def drainPendingLocked_def kept_def state_inv_def process_inv_def)

lemma released_later:
  assumes "kept t" "later u t" "t_state u \<noteq> transportOpen" "0 < t_waits u" "exited \<or> 0 < t_kills u"
    and "t_inputClosed u \<or> t_state u = transportAborted"
  shows "released exited (finishClose t)"
proof (rule released_finishClose [OF assms(1)])
  show "t_state t \<noteq> transportOpen" "0 < t_waits t" using assms(2-4) by (simp_all add: later_def)
  show "exited \<or> 0 < t_kills t" using assms(2,5) by (auto simp: later_def)
  show "t_inputClosed t \<or> t_state t = transportAborted" using assms(2,6) unfolding later_def by blast
qed

lemma after_finishClose:
  assumes "closing.good s" and Q: "\<And>s' t. kept t \<Longrightarrow> later (cl_transport s) t \<Longrightarrow> cl_transport s' = finishClose t \<Longrightarrow> Q () s'"
  shows "after s (locked_do finishClose) Q"
proof -
  let ?t = "cl_others s (cl_moment s) (cl_transport s)"
  have "kept ?t" "later (cl_transport s) ?t" using closing.users_keep [of "cl_transport s" ?t] assms(1) by (auto simp: closing.good_def fair_def)
  then show ?thesis using Q by (simp add: after_def critical_def)
qed

lemma after_close:
  assumes s: "closing.good s" "unclosed s"
  shows "after s (close marshalErr shutdownFrame exitFrame) (\<lambda>exited s'. released exited (cl_transport s'))"
  unfolding close_def after_bind
proof (rule after_beginShutdown [OF s], goal_cases)
  case u: (1 started u)
  have talk: "closing.steady (case started of None \<Rightarrow> State_Monad.return ()
      | Some (key, request, writeErr) \<Rightarrow> do {
          _ \<leftarrow> (case writeErr of Some e \<Rightarrow> locked_do (\<lambda>t. snd (complete key (Inl (wrapped ''writing shutdown request: '' e)) t)) | None \<Rightarrow> State_Monad.return ());
          _ \<leftarrow> waitPending key request;
          _ \<leftarrow> writeMessage writeExit None exitFrame;
          State_Monad.return () })"
    by (cases started; clarsimp split: prod.splits) (intro steady_rules)+
  show ?case
  proof (rule closing.steadyD [OF talk closing.goes_good [OF u(1)]], goal_cases)
    case v: (1 b v)
    have sv: "closing.goes s v" "t_state (cl_transport v) \<noteq> transportOpen" using closing.goes_trans [OF u(1) v] goes_left [OF v u(2)] by simp_all
    show ?case
    proof (rule after_closeInputAfterWrites [OF closing.goes_good [OF v] goes_unclosed [OF sv(1) s(2)]], goal_cases)
      case w: (1 w)
      show ?case
      proof (rule after_waitForProcessContext [OF closing.goes_good [OF w(1)]], goal_cases)
        case x: (1 exited x)
        have left: "t_state (cl_transport x) \<noteq> transportOpen" using goes_left [OF x(1) goes_left [OF w(1) sv(2)]] .
        have input: "t_inputClosed (cl_transport x) \<or> t_state (cl_transport x) = transportAborted"
          using w(2) goes_input [OF x(1)] goes_aborted [OF x(1)] by blast
        show ?case unfolding after_bind after_return
          by (rule after_finishClose [OF closing.goes_good [OF x(1)]], erule ssubst, rule released_later [OF _ _ left x(2,3) input])
      qed
    qed
  qed
qed

section \<open>Properties\<close>

text \<open>C26: closing the connection always releases it, however the other users interleave, however writes and waits end
  and whichever timers fire: when \<^verbatim>\<open>close\<close> returns the connection is closed or aborted, no request is
  left pending, the process is being awaited and was seen to exit or has been killed, and its input
  is closed or the user that aborted is about to close it.\<close>

theorem transport_close_releases:
  assumes "fair s" "reachable_transport (cl_transport s)" "t_state (cl_transport s) \<noteq> transportClosed"
    and "run_state (close marshalErr shutdownFrame exitFrame) s = (exited, s')"
  shows "released exited (cl_transport s')"
proof -
  have "closing.good s" using reachable_inv [OF assms(2)] assms(1) by (simp add: closing.good_def fair_def kept_def t_inv_def)
  from afterD [OF after_close [OF this] assms(4)] show ?thesis using assms(3) by (simp add: unclosed_def)
qed

section \<open>Witnesses\<close>

text \<open>A server that answers nothing and does not exit: the shutdown times out and the process is killed.\<close>

definition silent_server :: closing where
  "silent_server = \<lparr>cl_transport = newTransport, cl_moment = 0, cl_others = (\<lambda>_ t. t), cl_expired = (\<lambda>_. False), cl_ctxErr = ConnErr ''context deadline exceeded'',
     cl_writes = (\<lambda>_. FrameDispatched), cl_exited = (\<lambda>_. False), cl_frames = []\<rparr>"

theorem transport_close_releases_witness:
  "released False (cl_transport (snd (run_state (close None ''shutdown'' ''exit'') silent_server))) \<and>
   cl_frames (snd (run_state (close None ''shutdown'' ''exit'') silent_server)) = [''shutdown'', ''exit'']"
proof -
  let ?x = "run_state (close None ''shutdown'' ''exit'') silent_server"
  have s: "fair silent_server" "reachable_transport (cl_transport silent_server)" "t_state (cl_transport silent_server) \<noteq> transportClosed"
    by (simp_all add: fair_def silent_server_def newTransport_def)
  have exited: "fst ?x = False" by code_simp
  have "?x = (False, snd ?x)" using exited by (simp add: prod_eq_iff)
  moreover have "cl_frames (snd ?x) = [''shutdown'', ''exit'']" by code_simp
  ultimately show ?thesis using transport_close_releases [OF s, of None "''shutdown''" "''exit''" False "snd ?x"] by blast
qed

end
