(* ===== verification/Lsp_Call.thy ===== *)
theory Lsp_Call
  imports Lsp_Rpc Lsp_Lifecycle
begin

text \<open>
  Requests over a connection (\<^verbatim>\<open>src/internal/lsp/rpc.go\<close>): \<^verbatim>\<open>call\<close>, \<^verbatim>\<open>notify\<close> and the two writes that run in a
  goroutine of their own, as programs over the sections of the connection. The JSON of a message
  is the parameter \<open>marshal\<close>.
\<close>

section \<open>Operations\<close>

datatype 'p rpc_params = Params 'p | cancelParams int

datatype 'p rpc_message =
    rpcRequest int string "'p rpc_params"
  | rpcNotification string "'p rpc_params"
  | rpcErrorResponse string int string

definition writeRpc :: "('p rpc_message \<Rightarrow> conn_error + string) \<Rightarrow> writePolicy \<Rightarrow> 'p rpc_message \<Rightarrow> conn_error option io" where
  "writeRpc marshal policy message =
     (case marshal message of
        Inl e \<Rightarrow> writeMessage policy (Some e) []
      | Inr frame \<Rightarrow> writeMessage policy None frame)"

text \<open>The result of a call, \<open>None\<close> when it never returns, and whether it starts a cancellation.\<close>

definition call ::
  "('p rpc_message \<Rightarrow> conn_error + string) \<Rightarrow> string \<Rightarrow> 'p \<Rightarrow> ((call_error + string) option \<times> bool) io" where
  "call marshal method params = do {
     i \<leftarrow> critical (\<lambda>t. (t_nextID t + 1, t\<lparr>t_nextID := t_nextID t + 1\<rparr>));
     registered \<leftarrow> critical (register (itoa i));
     case registered of
       Inl e \<Rightarrow> State_Monad.return (Some (Inl (NotRegistered e)), False)
     | Inr request \<Rightarrow> do {
         writeErr \<leftarrow> writeRpc marshal writeExternal (rpcRequest i method (Params params));
         _ \<leftarrow> (case writeErr of
            Some e \<Rightarrow> locked_do (\<lambda>t. snd (complete (itoa i) (Inl (wrapped ''writing request: '' e)) t))
          | None \<Rightarrow> State_Monad.return ());
         waited \<leftarrow> waitPending (itoa i) request;
         State_Monad.return (map_option (callResult method) (fst waited), snd waited \<and> writeErr = None) } }"

definition sendCancellation :: "('p rpc_message \<Rightarrow> conn_error + string) \<Rightarrow> int \<Rightarrow> conn_error option io" where
  "sendCancellation marshal i = writeRpc marshal writeExternal (rpcNotification ''$/cancelRequest'' (cancelParams i))"

definition notify :: "('p rpc_message \<Rightarrow> conn_error + string) \<Rightarrow> string \<Rightarrow> 'p \<Rightarrow> conn_error option io" where
  "notify marshal method params = do {
     err \<leftarrow> writeRpc marshal writeExternal (rpcNotification method (Params params));
     State_Monad.return (map_option (wrapped (''lsp: '' @ method @ '': '')) err) }"

definition respondMethodNotFound :: "('p rpc_message \<Rightarrow> conn_error + string) \<Rightarrow> string \<Rightarrow> string \<Rightarrow> conn_error option io" where
  "respondMethodNotFound marshal i method =
     writeRpc marshal writeServerResponse (rpcErrorResponse i (- 32601) (''method not found: '' @ method))"

section \<open>What no user takes back\<close>

definition private_id :: "transport \<Rightarrow> int \<Rightarrow> bool" where
  "private_id t i \<longleftrightarrow> 0 < i \<and> i \<le> t_nextID t \<and> i \<notin> t_issued t"

text \<open>Results stay; an id that somebody keeps to himself gets no new entry in the table; an entry for an old request is an old entry.\<close>

definition grows :: "transport \<Rightarrow> transport \<Rightarrow> bool" where
  "grows t t' \<longleftrightarrow> length (t_requests t) \<le> length (t_requests t') \<and>
     (\<forall>r v. r < length (t_requests t) \<and> t_requests t ! r = Some v \<longrightarrow> t_requests t' ! r = Some v) \<and>
     (\<forall>i. private_id t i \<longrightarrow> private_id t' i \<and> (\<forall>x. (itoa i, x) \<in> set (t_pending t') \<longrightarrow> (itoa i, x) \<in> set (t_pending t))) \<and>
     (\<forall>k r. r < length (t_requests t) \<and> (k, r) \<in> set (t_pending t') \<longrightarrow> (k, r) \<in> set (t_pending t))"

lemma grows_refl: "grows t t"
  by (simp add: grows_def)

lemma grows_trans: "grows t u \<Longrightarrow> grows u v \<Longrightarrow> grows t v"
  unfolding grows_def by (intro conjI; meson order_trans order_less_le_trans)

text \<open>Operations that touch neither requests nor ids, and at most empty the table or take from it.\<close>

lemma grows_shrink:
  assumes "t_requests t' = t_requests t" "t_nextID t \<le> t_nextID t'" "t_issued t' \<subseteq> t_issued t" "set (t_pending t') \<subseteq> set (t_pending t)"
  shows "grows t t'"
  using assms by (auto simp: grows_def private_id_def)

lemma private_itoa: "keys_inv t \<Longrightarrow> private_id t i \<Longrightarrow> j \<in> t_issued t \<Longrightarrow> itoa i \<noteq> itoa j"
  using itoa_inject [of i j] by (force simp: keys_inv_def private_id_def in_int64_def)

lemma set_update_subset: "set (AList.update k v ps) \<subseteq> insert (k, v) (set ps)"
  by (induction ps) auto

lemma result_stays [simp]: "rs ! r = None \<Longrightarrow> rs ! q = Some v \<Longrightarrow> rs[r := x] ! q = Some v"
  by (cases "q = r") auto

lemma grows_step:
  assumes "t_step t t'" "t_inv t"
  shows "grows t t'"
  using assms
proof (induction rule: t_step.induct)
  case (take_id t)
  then show ?case by (auto simp: grows_def private_id_def)
next
  case (register_call i t r t')
  then show ?case
    using private_itoa [of t _ i] set_update_subset [of "itoa i" "length (t_requests t)" "t_pending t"]
    by (auto simp: grows_def private_id_def register_def Let_def nth_append t_inv_def split: if_splits)
next
  case (take_pending key t r t' result)
  then show ?case by (intro grows_shrink) (auto simp: takePending_def AList.delete_eq split: option.splits)
next
  case (finish_completion t r result rest b t')
  then show ?case by (auto simp: grows_def private_id_def completeRequest_def split: option.splits)
next
  case (begin_close i t r t')
  then show ?case
    using private_itoa [of t _ i]
    by (auto simp: grows_def private_id_def beginClose_def transitionFromOpenLocked_def drainPendingLocked_def leaveToComplete_def
        Let_def nth_append t_inv_def split: if_splits)
qed (intro grows_shrink; auto simp: t_locked Let_def split: if_splits)+

interpretation calls: section_logic t_inv grows t_step
proof unfold_locales
  fix t u v :: transport and cause
  show "grows t t" by (rule grows_refl)
  show "grows t u \<Longrightarrow> grows u v \<Longrightarrow> grows t v" by (rule grows_trans)
  have step: "t_inv t \<Longrightarrow> t_step t w \<Longrightarrow> t_inv w \<and> grows t w" for w using grows_step connection.inv_step by blast
  show "t_step t u \<Longrightarrow> t_inv t \<Longrightarrow> t_inv u \<and> grows t u" using step by blast
  show "t_inv t \<Longrightarrow> t_inv (abort cause t) \<and> grows t (abort cause t)" using step t_step.aborted by blast
  show "t_inv t \<Longrightarrow> t_inv (closeInput t) \<and> grows t (closeInput t)" using step t_step.close_input by blast
  show "t_inv t \<Longrightarrow> t_inv (kill t) \<and> grows t (kill t)" using step t_step.kill_process by blast
  show "t_inv t \<Longrightarrow> t_inv (startProcessWait t) \<and> grows t (startProcessWait t)" using step t_step.wait_process by blast
qed

subsection \<open>Completing a request\<close>

lemma waiting_outstanding: "requests_inv t \<Longrightarrow> r \<in> set (waiting t) \<longleftrightarrow> r < length (t_requests t) \<and> t_requests t ! r = None"
  unfolding requests_inv_def using mset_eq_setD outstanding_iff by blast

lemma waiting_distinct: "requests_inv t \<Longrightarrow> distinct (waiting t)"
  unfolding requests_inv_def using mset_eq_imp_distinct_iff distinct_outstanding by blast

lemma complete_keeps: "t_inv t \<Longrightarrow> t_inv (snd (complete key result t)) \<and> grows t (snd (complete key result t))"
proof (cases "map_of (t_pending t) key")
  case (Some r)
  assume inv: "t_inv t"
  let ?t = "t\<lparr>t_pending := AList.delete key (t_pending t), t_completing := t_completing t @ [(r, result)]\<rparr>"
  have step: "t_step t ?t" using t_step.take_pending [of key t r _ result] Some by (simp add: takePending_def)
  have r: "r < length (t_requests t)" "t_requests t ! r = None"
    using waiting_outstanding [of t r] inv map_of_SomeD [OF Some] by (force simp: t_inv_def waiting_def)+
  have inv': "t_inv ?t" using connection.inv_step [OF inv step] .
  have fin: "snd (complete key result t) = ?t\<lparr>t_completing := t_completing t, t_requests := (t_requests t)[r := Some result]\<rparr>"
    using Some r by (simp add: complete_def takePending_def completeRequest_def)
  have "requests_inv (snd (complete key result t))"
    using inv' outstanding_update [OF r, of result] unfolding fin by (simp add: t_inv_def requests_inv_def waiting_def)
  moreover have "keys_inv (snd (complete key result t))" "state_inv (snd (complete key result t))" "process_inv (snd (complete key result t))"
    using inv' unfolding fin by (simp_all add: t_inv_def keys_inv_def state_inv_def process_inv_def)
  moreover have "grows t (snd (complete key result t))"
    unfolding fin using r by (auto simp: grows_def private_id_def AList.delete_eq)
  ultimately show ?thesis by (simp add: t_inv_def)
qed (simp add: complete_def takePending_def grows_refl)

lemma mset_without:
  assumes "distinct (map fst cs)" "(r, v) \<in> set cs"
  shows "mset (map fst cs) = add_mset r (mset (map fst (filter (\<lambda>c. fst c \<noteq> r) cs)))"
  using assms
proof (induction cs)
  case (Cons c cs)
  show ?case
  proof (cases "fst c = r")
    case True
    then have "r \<notin> fst ` set cs" using Cons.prems(1) by auto
    then have "filter (\<lambda>c. fst c \<noteq> r) cs = cs" by (intro filter_True) blast
    then show ?thesis using True by simp
  qed (use Cons in auto)
qed simp

lemma awaitDone_keeps: "t_inv t \<Longrightarrow> t_inv (snd (awaitDone r t)) \<and> grows t (snd (awaitDone r t))"
proof -
  assume inv: "t_inv t"
  consider "snd (awaitDone r t) = t"
    | result where "t_requests t ! r = None" "map_of (t_completing t) r = Some result"
    by (cases "t_requests t ! r"; cases "map_of (t_completing t) r") (auto simp: awaitDone_def)
  then show ?thesis
  proof cases
    case (2 result)
    let ?t = "t\<lparr>t_completing := filter (\<lambda>c. fst c \<noteq> r) (t_completing t), t_requests := (t_requests t)[r := Some result]\<rparr>"
    have t: "snd (awaitDone r t) = ?t" using 2 by (simp add: awaitDone_def completeRequest_def)
    have r: "r < length (t_requests t)"
      using waiting_outstanding [of t r] inv map_of_SomeD [OF 2(2)] by (force simp: t_inv_def waiting_def)
    have "distinct (map fst (t_completing t))" using waiting_distinct inv by (auto simp: t_inv_def waiting_def)
    then have "mset (map fst (t_completing t)) = add_mset r (mset (map fst (filter (\<lambda>c. fst c \<noteq> r) (t_completing t))))"
      using map_of_SomeD [OF 2(2)] by (intro mset_without) auto
    then have "requests_inv ?t"
      using inv outstanding_update [OF r 2(1), of result] by (simp add: t_inv_def requests_inv_def waiting_def)
    moreover have "keys_inv ?t" "state_inv ?t" "process_inv ?t"
      using inv by (simp_all add: t_inv_def keys_inv_def state_inv_def process_inv_def)
    moreover have "grows t ?t" using 2(1) by (auto simp: grows_def private_id_def)
    ultimately show ?thesis unfolding t by (simp add: t_inv_def)
  qed (use inv grows_refl in simp)
qed

lemma completing_calls: "calls.mild (complete key result)" "calls.mild (awaitDone r)" "calls.mild (\<lambda>t. ((), snd (complete key result t)))"
  by (simp_all add: calls.mild_def complete_keeps awaitDone_keeps)

lemmas steady_completing_calls [steady_rules] = completing_calls [THEN calls.steady_critical]

section \<open>One call\<close>

text \<open>The caller's request: its id is his alone, the key stands for his request and for no other.\<close>

definition registered :: "int \<Rightarrow> nat \<Rightarrow> transport \<Rightarrow> bool" where
  "registered i r t \<longleftrightarrow> private_id t i \<and> r < length (t_requests t) \<and>
     (\<forall>x. (itoa i, x) \<in> set (t_pending t) \<longrightarrow> x = r) \<and> (\<forall>k. (k, r) \<in> set (t_pending t) \<longrightarrow> k = itoa i)"

lemma registered_grows: "grows t t' \<Longrightarrow> registered i r t \<Longrightarrow> registered i r t'"
  unfolding registered_def
proof (elim conjE, intro conjI allI impI)
  assume g: "grows t t'" and i: "private_id t i" and r: "r < length (t_requests t)"
    and x: "\<forall>x. (itoa i, x) \<in> set (t_pending t) \<longrightarrow> x = r" and k: "\<forall>k. (k, r) \<in> set (t_pending t) \<longrightarrow> k = itoa i"
  show "private_id t' i" "r < length (t_requests t')" using g i r by (auto simp: grows_def)
  show "y = r" if "(itoa i, y) \<in> set (t_pending t')" for y using g i x that unfolding grows_def by blast
  show "l = itoa i" if "(l, r) \<in> set (t_pending t')" for l using g r k that unfolding grows_def by blast
qed

lemma result_grows: "grows t t' \<Longrightarrow> registered i r t \<Longrightarrow> t_requests t ! r = Some v \<Longrightarrow> t_requests t' ! r = Some v"
  unfolding grows_def registered_def by blast

lemma complete_own:
  assumes "registered i r t"
  shows "r \<notin> snd ` set (t_pending (snd (complete (itoa i) result t)))"
    and "fst (complete (itoa i) result t) \<Longrightarrow> t_requests (snd (complete (itoa i) result t)) ! r = Some result"
proof -
  have keys: "(k, r) \<in> set (t_pending t) \<Longrightarrow> k = itoa i" for k using assms unfolding registered_def by blast
  have "t_pending (snd (complete (itoa i) result t)) = AList.delete (itoa i) (t_pending t)"
  proof (cases "map_of (t_pending t) (itoa i)")
    case None
    then have "itoa i \<notin> fst ` set (t_pending t)" by (simp add: map_of_eq_None_iff)
    then show ?thesis using None by (simp add: complete_def takePending_def delete_id)
  qed (simp add: complete_def takePending_def completeRequest_def split: option.splits)
  then show "r \<notin> snd ` set (t_pending (snd (complete (itoa i) result t)))" using keys by (auto simp: AList.delete_eq)
  assume won: "fst (complete (itoa i) result t)"
  then obtain x where x: "map_of (t_pending t) (itoa i) = Some x" by (cases "map_of (t_pending t) (itoa i)") (auto simp: complete_def takePending_def)
  then have "x = r" "r < length (t_requests t)" using assms map_of_SomeD [OF x] unfolding registered_def by blast+
  then show "t_requests (snd (complete (itoa i) result t)) ! r = Some result"
    using won x by (auto simp: complete_def takePending_def completeRequest_def split: option.splits)
qed

text \<open>A request that is in no table is done, or a goroutine has yet to complete it: waiting for it ends.\<close>

lemma awaitDone_ends:
  assumes "t_inv t" "r < length (t_requests t)" "r \<notin> snd ` set (t_pending t)"
  shows "\<exists>v. fst (awaitDone r t) = Some v \<and> t_requests (snd (awaitDone r t)) ! r = Some v"
proof (cases "t_requests t ! r")
  case None
  then have "r \<in> set (waiting t)" using waiting_outstanding assms by (auto simp: t_inv_def)
  then have "map_of (t_completing t) r \<noteq> None" using assms(3) by (auto simp: waiting_def map_of_eq_None_iff)
  then show ?thesis using None assms(2) by (auto simp: awaitDone_def completeRequest_def)
qed (simp add: awaitDone_def)

definition settled :: "nat \<Rightarrow> conn_error \<Rightarrow> pendingResult option \<times> bool \<Rightarrow> transport \<Rightarrow> bool" where
  "settled r e waited t \<longleftrightarrow> (\<exists>v. fst waited = Some v \<and> t_requests t ! r = Some v \<and> (snd waited \<longrightarrow> v = Inl e))"

lemma after_waitPending:
  assumes s: "calls.good s" "registered i r (cl_transport s)"
    and Q: "\<And>waited s'. calls.goes s s' \<Longrightarrow> settled r (cl_ctxErr s) waited (cl_transport s') \<Longrightarrow> Q waited s'"
  shows "after s (waitPending (itoa i) r) Q"
  unfolding waitPending_def after_bind
proof (rule calls.after_critical [OF s(1) calls.mild_shared(1)], goal_cases)
  case u: (1 answered u t)
  show ?case
  proof (cases answered)
    case (Some v)
    then show ?thesis using u by (auto intro!: Q simp: settled_def)
  next
    case None
    have su: "calls.goes s u" by (rule u(1))
    have err: "after u ctx_err R" if "R (cl_ctxErr s) u" for R
      using that su by (simp add: after_def ctx_err_def calls.goes_def)
    show ?thesis unfolding None option.case after_bind
    proof (rule err, rule calls.after_critical [OF calls.goes_good [OF su] completing_calls(1)], goal_cases)
      case v: (1 canceled v tv)
      have own: "registered i r tv" using registered_grows s(2) u(3) v(3) su by (metis calls.goes_def)
      note c = complete_own [OF own, of "Inl (cl_ctxErr s)"]
      have rv: "registered i r (cl_transport v)" using registered_grows own complete_keeps [OF v(2)] unfolding v(5) by blast
      show ?case
      proof (rule calls.after_critical [OF calls.goes_good [OF v(1)] completing_calls(2)], goal_cases)
        case w: (1 result w tw)
        have out: "r \<notin> snd ` set (t_pending tw)"
        proof
          assume "r \<in> snd ` set (t_pending tw)"
          then obtain k where "(k, r) \<in> set (t_pending tw)" by auto
          then have "(k, r) \<in> set (t_pending (cl_transport v))" using w(3) rv unfolding grows_def registered_def by blast
          then show False using c(1) unfolding v(5) by force
        qed
        have rw: "registered i r tw" using registered_grows w(3) rv by blast
        have ends: "\<exists>v. result = Some v \<and> t_requests (cl_transport w) ! r = Some v"
          using awaitDone_ends [OF w(2) _ out] rw w(4,5) unfolding registered_def by simp
        have mine: "t_requests (cl_transport w) ! r = Some (Inl (cl_ctxErr s))" if canceled
        proof -
          have "t_requests (cl_transport v) ! r = Some (Inl (cl_ctxErr s))" using c(2) that v(4,5) by simp
          then show ?thesis using result_grows [OF _ rv] calls.goes_def w(1) by blast
        qed
        show ?case unfolding after_return
          by (rule Q [OF calls.goes_trans [OF su calls.goes_trans [OF v(1) w(1)]]]) (use ends mine in \<open>auto simp: settled_def\<close>)
      qed
    qed
  qed
qed

text \<open>The two first sections: the id is new, and under a new id the request is new.\<close>

definition fresh :: "int \<Rightarrow> transport \<Rightarrow> bool" where
  "fresh i t \<longleftrightarrow> private_id t i \<and> itoa i \<notin> fst ` set (t_pending t)"

lemma fresh_grows:
  assumes "grows t t'" "fresh i t"
  shows "fresh i t'"
proof -
  have i: "private_id t i" "\<And>x. (itoa i, x) \<notin> set (t_pending t)" using assms(2) by (force simp: fresh_def)+
  then have "private_id t' i" "\<And>x. (itoa i, x) \<notin> set (t_pending t')" using assms(1) unfolding grows_def by blast+
  then show ?thesis by (auto simp: fresh_def)
qed

lemma next_fresh:
  assumes inv: "t_inv t" and room: "t_nextID t + 1 < 2 ^ 63"
  shows "t_inv (t\<lparr>t_nextID := t_nextID t + 1\<rparr>) \<and> grows t (t\<lparr>t_nextID := t_nextID t + 1\<rparr>) \<and>
    fresh (t_nextID t + 1) (t\<lparr>t_nextID := t_nextID t + 1\<rparr>)"
proof -
  let ?u = "t\<lparr>t_nextID := t_nextID t + 1\<rparr>"
  have k: "keys_inv t" using inv by (simp add: t_inv_def)
  have "itoa (t_nextID t + 1) \<noteq> itoa j" if "0 < j" "j \<le> t_nextID t" for j
    using that room itoa_inject [of "t_nextID t + 1" j] by (auto simp: in_int64_def)
  then have "itoa (t_nextID t + 1) \<notin> fst ` set (t_pending t)" using k unfolding keys_inv_def by blast
  moreover have "keys_inv (t\<lparr>t_nextID := t_nextID t + 1\<rparr>)" using k room by (fastforce simp: keys_inv_def)
  moreover have "t_nextID t + 1 \<notin> t_issued t" "0 \<le> t_nextID t" using k by (auto simp: keys_inv_def)
  moreover have "requests_inv ?u" "state_inv ?u" "process_inv ?u"
    using inv by (simp_all add: t_inv_def requests_inv_def waiting_def state_inv_def process_inv_def)
  moreover have "grows t ?u" by (rule grows_shrink) simp_all
  ultimately show ?thesis by (simp add: t_inv_def fresh_def private_id_def)
qed

lemma issued_inv:
  assumes inv: "t_inv t" and i: "fresh i t"
  shows "t_inv (t\<lparr>t_issued := insert i (t_issued t)\<rparr>)"
proof -
  let ?u = "t\<lparr>t_issued := insert i (t_issued t)\<rparr>"
  have "keys_inv ?u" unfolding keys_inv_def
  proof (intro conjI ballI)
    have k: "keys_inv t" using inv by (simp add: t_inv_def)
    show "distinct (map fst (t_pending ?u))" "0 \<le> t_nextID ?u" "t_nextID ?u < 2 ^ 63" using k by (simp_all add: keys_inv_def)
    show "0 < j" "j \<le> t_nextID ?u" if "j \<in> t_issued ?u" for j
      using that k i by (auto simp: keys_inv_def fresh_def private_id_def)
    fix key assume key: "key \<in> fst ` set (t_pending ?u)"
    then obtain j where "key = itoa j" "0 < j" "j \<le> t_nextID t" "j \<notin> t_issued t" using k unfolding keys_inv_def by auto
    moreover have "j \<noteq> i" using key i \<open>key = itoa j\<close> by (auto simp: fresh_def)
    ultimately show "\<exists>j. key = itoa j \<and> 0 < j \<and> j \<le> t_nextID ?u \<and> j \<notin> t_issued ?u" by auto
  qed
  then show ?thesis using inv by (simp add: t_inv_def requests_inv_def waiting_def state_inv_def process_inv_def)
qed

lemma register_fresh:
  assumes inv: "t_inv t" and i: "fresh i t"
  shows "t_inv (snd (register (itoa i) t))"
    and "fst (register (itoa i) t) = Inr r \<Longrightarrow> registered i r (snd (register (itoa i) t))"
    and "fst (register (itoa i) t) = Inl e \<Longrightarrow> snd (register (itoa i) t) = t"
proof -
  let ?u = "t\<lparr>t_issued := insert i (t_issued t)\<rparr>"
  let ?v = "(snd (register (itoa i) ?u))\<lparr>t_issued := t_issued (snd (register (itoa i) ?u)) - {i}\<rparr>"
  have "t_inv ?u" by (rule issued_inv [OF assms])
  moreover have "t_step ?u ?v" by (rule t_step.register_call [of i]) (simp_all add: prod_eq_iff)
  ultimately have "t_inv ?v" using connection.inv_step by blast
  moreover have "?v = snd (register (itoa i) t)" using i by (simp add: register_def Let_def fresh_def private_id_def)
  ultimately show "t_inv (snd (register (itoa i) t))" by simp
  have old: "x < length (t_requests t)" if "(k, x) \<in> set (t_pending t)" for k x
    using waiting_outstanding [of t x] inv that by (force simp: t_inv_def waiting_def)
  have key: "(itoa i, x) \<notin> set (t_pending t)" for x using i by (force simp: fresh_def)
  show "fst (register (itoa i) t) = Inr r \<Longrightarrow> registered i r (snd (register (itoa i) t))"
  proof -
    assume "fst (register (itoa i) t) = Inr r"
    then have u: "snd (register (itoa i) t) = t\<lparr>t_requests := t_requests t @ [None], t_pending := t_pending t @ [(itoa i, r)]\<rparr>"
      and r: "r = length (t_requests t)"
      using i by (auto simp: register_def Let_def fresh_def update_fresh split: if_splits)
    have "(k, r) \<notin> set (t_pending t)" for k using old r by blast
    moreover have "private_id t i" using i by (simp add: fresh_def)
    ultimately show ?thesis unfolding registered_def u using key r by (simp add: private_id_def)
  qed
  show "fst (register (itoa i) t) = Inl e \<Longrightarrow> snd (register (itoa i) t) = t" by (auto simp: register_def Let_def split: if_splits)
qed

lemma steady_writeRpc [steady_rules]: "calls.steady (writeRpc marshal policy message)"
  unfolding writeRpc_def by (cases "marshal message") (simp_all add: calls.steady_writeMessage)

text \<open>A write without an error has dispatched its frame.\<close>

definition wrote :: "string \<Rightarrow> conn_error option \<Rightarrow> closing \<Rightarrow> bool" where
  "wrote frame err s \<longleftrightarrow> (err = None \<longrightarrow> frame \<in> set (cl_frames s))"

lemma wrote_Some [simp]: "wrote frame (Some e) s"
  by (simp add: wrote_def)

lemma after_ctx_done: "after s ctx_done Q = (let t = s\<lparr>cl_moment := Suc (cl_moment s)\<rparr> in
    if cl_expired s (cl_moment s) then Q (Some (cl_ctxErr s)) t else Q None t)"
  by (simp add: after_def ctx_done_def Let_def)

lemma after_ctx_err: "after s ctx_err Q = Q (cl_ctxErr s) s"
  by (simp add: after_def ctx_err_def)

lemma after_write_ends: "after s (write_ends frame) Q = (let e = cl_writes s (cl_moment s) in
    Q e (s\<lparr>cl_moment := Suc (cl_moment s), cl_frames := cl_frames s @ (if e = FrameDispatched then [frame] else [])\<rparr>))"
  by (simp add: after_def write_ends_def Let_def)

lemma wrote_failing: "after s m (\<lambda>_. wrote frame (Some e))"
  by (rule after_always) simp

lemma writeFrameLocked_wrote: "after s (writeFrameLocked frame) (wrote frame)"
proof (cases "cl_expired s (cl_moment s)")
  case False
  show ?thesis using False unfolding writeFrameLocked_def after_bind after_ctx_done after_write_ends Let_def
    by (cases "cl_writes s (Suc (cl_moment s))") (simp_all add: after_always after_ctx_err after_write_ends Let_def wrote_def)
qed (simp add: writeFrameLocked_def after_ctx_done Let_def)

lemma writeMessage_wrote: "after s (writeMessage policy marshalErr frame) (wrote frame)"
proof -
  have admitted: "after u (writeAdmittedFrameLocked policy frame) (wrote frame)" for u
  proof -
    have "after v (critical (\<lambda>t. (admitWrite policy t, t)))
        (\<lambda>refused w. after w (case refused of Some e \<Rightarrow> State_Monad.return (Some e) | None \<Rightarrow> writeFrameLocked frame) (wrote frame))" for v
      by (rule after_always) (simp add: writeFrameLocked_wrote split: option.split)
    then show ?thesis unfolding writeAdmittedFrameLocked_def after_bind after_ctx_done Let_def by simp
  qed
  have "after u lockWrite (\<lambda>busy v. after v (case busy of Some e \<Rightarrow> State_Monad.return (Some e)
      | None \<Rightarrow> writeAdmittedFrameLocked policy frame) (wrote frame))" for u
    by (rule after_always) (simp add: admitted split: option.split)
  then show ?thesis unfolding writeMessage_def after_bind after_ctx_done Let_def
    by (simp split: option.split)
qed

lemma writeRpc_wrote:
  "after s (writeRpc marshal policy message) (\<lambda>err s'. err = None \<longrightarrow> (\<exists>frame. marshal message = Inr frame \<and> frame \<in> set (cl_frames s')))"
proof (cases "marshal message")
  case (Inl e)
  have "after s (writeMessage policy (Some e) []) (\<lambda>err s'. err \<noteq> None)"
    unfolding writeMessage_def by (simp add: after_ctx_done Let_def)
  then show ?thesis unfolding writeRpc_def Inl sum.case by (rule after_mono) simp
next
  case (Inr frame)
  show ?thesis unfolding writeRpc_def Inr sum.case
    by (rule after_mono [OF writeMessage_wrote]) (simp add: wrote_def)
qed

text \<open>What a call returns: an error at once, or what it makes of the result of its request.\<close>

definition settled_call ::
  "('p rpc_message \<Rightarrow> conn_error + string) \<Rightarrow> string \<Rightarrow> 'p \<Rightarrow> conn_error \<Rightarrow> (call_error + string) option \<times> bool \<Rightarrow> closing \<Rightarrow> bool" where
  "settled_call marshal method params ctxErr out s' \<longleftrightarrow>
     (\<exists>r v. r < length (t_requests (cl_transport s')) \<and> t_requests (cl_transport s') ! r = Some v \<and>
        fst out = Some (callResult method v) \<and>
        (snd out \<longrightarrow> v = Inl ctxErr \<and>
          (\<exists>i frame. marshal (rpcRequest i method (Params params)) = Inr frame \<and> frame \<in> set (cl_frames s'))))"

definition answered_call ::
  "('p rpc_message \<Rightarrow> conn_error + string) \<Rightarrow> string \<Rightarrow> 'p \<Rightarrow> closing \<Rightarrow> (call_error + string) option \<times> bool \<Rightarrow> closing \<Rightarrow> bool" where
  "answered_call marshal method params s out s' \<longleftrightarrow>
     (\<exists>e. out = (Some (Inl (NotRegistered e)), False) \<and> cl_frames s' = cl_frames s) \<or>
     settled_call marshal method params (cl_ctxErr s) out s'"

lemma after_settle:
  assumes s: "calls.good s" "registered i r (cl_transport s)"
  shows "after s (do {
      writeErr \<leftarrow> writeRpc marshal writeExternal (rpcRequest i method (Params params));
      _ \<leftarrow> (case writeErr of
         Some e \<Rightarrow> locked_do (\<lambda>t. snd (complete (itoa i) (Inl (wrapped ''writing request: '' e)) t))
       | None \<Rightarrow> State_Monad.return ());
      waited \<leftarrow> waitPending (itoa i) r;
      State_Monad.return (map_option (callResult method) (fst waited), snd waited \<and> writeErr = None) })
    (settled_call marshal method params (cl_ctxErr s))"
  unfolding after_bind
proof (rule after_mono [OF after_conj [OF calls.steadyD [OF steady_writeRpc s(1)] writeRpc_wrote]], assumption, goal_cases)
  case u: (1 writeErr u)
  have undo: "calls.steady (case writeErr of
      Some e \<Rightarrow> locked_do (\<lambda>t. snd (complete (itoa i) (Inl (wrapped ''writing request: '' e)) t)) | None \<Rightarrow> State_Monad.return ())"
    by (intro steady_rules)
  show ?case
  proof (rule calls.steadyD [OF undo calls.goes_good [OF conjunct1 [OF u]]], goal_cases)
    case v: (1 x v)
    have sv: "calls.goes s v" using calls.goes_trans u v by blast
    have rv: "registered i r (cl_transport v)" using registered_grows sv s(2) calls.goes_def by blast
    show ?case
    proof (rule after_waitPending [OF calls.goes_good [OF v] rv], goal_cases)
      case w: (1 waited w)
      have err: "cl_ctxErr v = cl_ctxErr s" using sv by (simp add: calls.goes_def)
      have sent: "frame \<in> set (cl_frames w)" if "frame \<in> set (cl_frames u)" for frame
        using that calls.goes_trans [OF v w(1)] set_mono_prefix by (auto simp: calls.goes_def)
      have "registered i r (cl_transport w)" using registered_grows rv w(1) calls.goes_def by blast
      then have "r < length (t_requests (cl_transport w))" by (simp only: registered_def)
      moreover obtain x where x: "fst waited = Some x" "t_requests (cl_transport w) ! r = Some x" "snd waited \<longrightarrow> x = Inl (cl_ctxErr s)"
        using w(2) unfolding err settled_def by blast
      ultimately show ?case unfolding settled_call_def after_return
        by (intro exI [of _ r] exI [of _ x]) (use u sent in auto)
    qed
  qed
qed

lemma after_rpc_call:
  assumes s: "calls.good s" and room: "t_nextID (cl_others s (cl_moment s) (cl_transport s)) + 1 < 2 ^ 63"
  shows "after s (call marshal method params) (answered_call marshal method params s)"
  unfolding call_def after_bind
proof (rule calls.after_section [OF s], goal_cases)
  case u: (1 i u t)
  note new = next_fresh [of t]
  have room: "t_nextID t + 1 < 2 ^ 63" using room u(4) by simp
  have su: "calls.goes s u" using u(1,7) new room by simp
  have i: "fresh i (cl_transport u)" using u(1,5,6) new room by simp
  show ?case
  proof (rule calls.after_section [OF calls.goes_good [OF su]], goal_cases)
    case v: (1 reg v tv)
    have i: "fresh i tv" using fresh_grows [OF v(2) i] .
    note reg = register_fresh [OF v(1) i]
    have frames: "cl_frames v = cl_frames s" "cl_ctxErr v = cl_ctxErr s" using u(9,10) v(9,10) by simp_all
    show ?case
    proof (cases reg)
      case (Inl e)
      then show ?thesis using u(9) v(9) by (simp add: answered_call_def frames)
    next
      case (Inr r)
      have "calls.good v" using v(8) reg(1) by simp
      moreover have "registered i r (cl_transport v)" using reg(2) v(5,6) Inr by simp
      ultimately show ?thesis unfolding Inr sum.case
        by (rule after_mono [OF after_settle]) (simp add: answered_call_def frames(2))
    qed
  qed
qed

section \<open>The shutdown request\<close>

text \<open>The wait of \<open>close\<close> for the answer to its shutdown request ends as well: the request is registered like a call's.\<close>

lemma beginClose_fresh:
  assumes inv: "t_inv t" and i: "fresh i t"
  shows "t_inv (snd (beginClose (itoa i) t))"
    and "fst (beginClose (itoa i) t) = Some r \<Longrightarrow> registered i r (snd (beginClose (itoa i) t))"
proof -
  let ?u = "t\<lparr>t_issued := insert i (t_issued t)\<rparr>"
  let ?v = "(snd (beginClose (itoa i) ?u))\<lparr>t_issued := t_issued (snd (beginClose (itoa i) ?u)) - {i}\<rparr>"
  note ops = beginClose_def transitionFromOpenLocked_def drainPendingLocked_def leaveToComplete_def
  have "t_step ?u ?v" by (rule t_step.begin_close [of i]) (simp_all add: prod_eq_iff)
  then have "t_inv ?v" using connection.inv_step issued_inv [OF assms] by blast
  moreover have "?v = snd (beginClose (itoa i) t)" using i by (simp add: ops Let_def fresh_def private_id_def)
  ultimately show "t_inv (snd (beginClose (itoa i) t))" by simp
  assume "fst (beginClose (itoa i) t) = Some r"
  then show "registered i r (snd (beginClose (itoa i) t))"
    using i unfolding registered_def by (auto simp: ops Let_def fresh_def private_id_def split: if_splits)
qed

definition awaitable :: "(string \<times> nat \<times> conn_error option) option \<Rightarrow> closing \<Rightarrow> bool" where
  "awaitable started s \<longleftrightarrow> calls.good s \<and>
     (\<forall>key r err. started = Some (key, r, err) \<longrightarrow> (\<exists>i. key = itoa i \<and> registered i r (cl_transport s)))"

lemma after_beginShutdown_awaitable:
  assumes s: "calls.good s" and room: "t_nextID (cl_others s (cl_moment s) (cl_transport s)) + 1 < 2 ^ 63"
  shows "after s (beginShutdown marshalErr frame) awaitable"
  unfolding beginShutdown_def after_bind
proof (rule calls.after_section [OF s], goal_cases)
  case u: (1 key u t)
  have room: "t_nextID t + 1 < 2 ^ 63" using room u(4) by simp
  note new = next_fresh [OF u(1) room]
  have su: "calls.good u" using u(8) new by simp
  have i: "fresh (t_nextID t + 1) (cl_transport u)" "key = itoa (t_nextID t + 1)" using u(5,6) new by simp_all
  show ?case
  proof (rule calls.steadyD [OF calls.steady_programs(2) su], goal_cases)
    case v: (1 busy v)
    have fv: "fresh (t_nextID t + 1) (cl_transport v)" using v fresh_grows i(1) calls.goes_def by blast
    show ?case
    proof (cases busy)
      case (Some e)
      show ?thesis unfolding Some option.case after_bind
        by (rule calls.steadyD [OF calls.steady_programs(1) calls.goes_good [OF v]]) (simp add: awaitable_def calls.goes_good)
    next
      case None
      show ?thesis unfolding None option.case after_bind
      proof (rule calls.after_section [OF calls.goes_good [OF v]], goal_cases)
        case w: (1 shutdown w tw)
        note bc = beginClose_fresh [OF w(1) fresh_grows [OF w(2) fv]]
        have gw: "calls.good w" using w(8) bc(1) unfolding i(2) by simp
        have writes: "calls.steady (case marshalErr of Some e \<Rightarrow> State_Monad.return (Some e) | None \<Rightarrow> writeAdmittedFrameLocked writeShutdown frame)"
          by (intro steady_rules)
        show ?case
        proof (cases shutdown)
          case None
          then show ?thesis using gw by (simp add: awaitable_def)
        next
          case (Some r)
          have rw: "registered (t_nextID t + 1) r (cl_transport w)" using bc(2) [of r] w(5,6) Some unfolding i(2) by simp
          show ?thesis unfolding Some option.case after_bind after_return
          proof (rule calls.steadyD [OF writes gw], goal_cases)
            case x: (1 err x)
            have "registered (t_nextID t + 1) r (cl_transport x)" using registered_grows rw x calls.goes_def by blast
            then show ?case using calls.goes_good [OF x] i(2) unfolding awaitable_def by blast
          qed
        qed
      qed
    qed
  qed
qed

text \<open>So the wait returns, after the completion that follows a failed write too.\<close>

lemma shutdown_wait_ends:
  assumes "awaitable (Some (key, r, writeErr)) s"
  shows "after s (do {
      _ \<leftarrow> (case writeErr of Some e \<Rightarrow> locked_do (\<lambda>t. snd (complete key (Inl (wrapped ''writing shutdown request: '' e)) t)) | None \<Rightarrow> State_Monad.return ());
      waitPending key r }) (\<lambda>waited _. fst waited \<noteq> None)"
  unfolding after_bind
proof -
  obtain i where i: "calls.good s" "key = itoa i" "registered i r (cl_transport s)" using assms by (auto simp: awaitable_def)
  have undo: "calls.steady (case writeErr of
      Some e \<Rightarrow> locked_do (\<lambda>t. snd (complete key (Inl (wrapped ''writing shutdown request: '' e)) t)) | None \<Rightarrow> State_Monad.return ())"
    by (intro steady_rules)
  show "after s (case writeErr of
      Some e \<Rightarrow> locked_do (\<lambda>t. snd (complete key (Inl (wrapped ''writing shutdown request: '' e)) t)) | None \<Rightarrow> State_Monad.return ())
      (\<lambda>_ u. after u (waitPending key r) (\<lambda>waited _. fst waited \<noteq> None))"
  proof (rule calls.steadyD [OF undo i(1)], goal_cases)
    case u: (1 x u)
    have ru: "registered i r (cl_transport u)" using registered_grows u i(3) calls.goes_def by blast
    show ?case unfolding i(2)
      by (rule after_waitPending [OF calls.goes_good [OF u] ru]) (auto simp: settled_def)
  qed
qed

section \<open>Properties\<close>

text \<open>The other users of the connection do what its operations do.\<close>

definition with_users :: "closing \<Rightarrow> bool" where
  "with_users s \<longleftrightarrow> (\<forall>n t. t_step\<^sup>*\<^sup>* t (cl_others s n t))"


section \<open>Witnesses\<close>

definition plain_marshal :: "string rpc_message \<Rightarrow> conn_error + string" where
  "plain_marshal message = (case message of
     rpcRequest i method (Params params) \<Rightarrow> Inr (method @ params)
   | rpcNotification method (Params params) \<Rightarrow> Inr (method @ params)
   | _ \<Rightarrow> Inr [])"


end
