(* ===== verification/Lsp_Startup.thy ===== *)
theory Lsp_Startup
  imports Lsp_Provider Lsp_Call
begin

text \<open>
  Starting a provider (\<^verbatim>\<open>New\<close> and \<^verbatim>\<open>initializeProvider\<close> of \<^verbatim>\<open>src/internal/lsp/provider.go\<close>) as a program over the sections of
  its connection: the checks before the process starts, the handshake while the reader loop and
  the server act, and the release of the process when the handshake fails.
\<close>

section \<open>Operations\<close>

datatype startup_error =
    BadProjectRoot string path_error
  | PipeFailed string string
  | StartingFailed string string
  | HandshakeFailed call_error
  | InitializedFailed conn_error

text \<open>The errors of the three pipes and of the start of the process, in this order.\<close>

record process_outcomes =
  po_stdin :: "string option"
  po_stdout :: "string option"
  po_stderr :: "string option"
  po_start :: "string option"

definition tsgoCommand :: "Config \<Rightarrow> string" where
  "tsgoCommand cfg = (if cfg_TsgoPath cfg = [] then ''tsgo'' else cfg_TsgoPath cfg)"

definition startProcess :: "Config \<Rightarrow> process_outcomes \<Rightarrow> startup_error option" where
  "startProcess cfg po =
     (case po_stdin po of Some e \<Rightarrow> Some (PipeFailed ''stdin'' e)
      | None \<Rightarrow>
     (case po_stdout po of Some e \<Rightarrow> Some (PipeFailed ''stdout'' e)
      | None \<Rightarrow>
     (case po_stderr po of Some e \<Rightarrow> Some (PipeFailed ''stderr'' e)
      | None \<Rightarrow> map_option (StartingFailed (tsgoCommand cfg)) (po_start po))))"

definition handshakeParams :: "int \<Rightarrow> string \<Rightarrow> string \<Rightarrow> params" where
  "handshakeParams pid rootURI rootName = InitializeParams \<lparr>ip_ProcessID = pid, ip_RootURI = rootURI,
     ip_HierarchicalDocumentSymbolSupport = True, ip_ContentFormat = [''markdown''], ip_WorkspaceFolders = [(rootURI, rootName)]\<rparr>"

text \<open>The handshake over the shared connection; the outer option is a call that never returns.\<close>

definition handshake :: "(params rpc_message \<Rightarrow> conn_error + string) \<Rightarrow> params \<Rightarrow> startup_error option option io" where
  "handshake marshal params = do {
     out \<leftarrow> call marshal ''initialize'' params;
     case fst out of
       None \<Rightarrow> State_Monad.return None
     | Some result \<Rightarrow>
         (case result of
            Inl e \<Rightarrow> State_Monad.return (Some (Some (HandshakeFailed e)))
          | Inr _ \<Rightarrow> do {
              err \<leftarrow> notify marshal ''initialized'' NoParams;
              State_Monad.return (Some (map_option InitializedFailed err)) }) }"

definition New ::
  "host_env \<Rightarrow> Config \<Rightarrow> int \<Rightarrow> process_outcomes \<Rightarrow> (params rpc_message \<Rightarrow> conn_error + string) \<Rightarrow> (startup_error + unit) option io" where
  "New env cfg pid po marshal =
     (case workspaceIdentity env (cfg_ProjectRoot cfg) of
        Inl e \<Rightarrow> State_Monad.return (Some (Inl (BadProjectRoot (cfg_ProjectRoot cfg) e)))
      | Inr (_, rootURI, rootName) \<Rightarrow>
          (case startProcess cfg po of
             Some e \<Rightarrow> State_Monad.return (Some (Inl e))
           | None \<Rightarrow> do {
               outcome \<leftarrow> handshake marshal (handshakeParams pid rootURI rootName);
               case outcome of
                 None \<Rightarrow> State_Monad.return None
               | Some failed \<Rightarrow>
                   (case failed of
                      None \<Rightarrow> State_Monad.return (Some (Inr ()))
                    | Some e \<Rightarrow> do { _ \<leftarrow> abortAndWait errProviderClosed; State_Monad.return (Some (Inl e)) }) }))"

section \<open>Lemmas\<close>

lemma mild_register: "closing.mild (register key)"
  by (auto simp: closing.mild_def kept_def later_def state_inv_def process_inv_def register_def Let_def)

lemmas [steady_rules] = closing.steady_critical [OF mild_register]

lemma steady_write [steady_rules]: "closing.steady (writeRpc marshal policy message)"
  unfolding writeRpc_def by (cases "marshal message") (simp_all add: closing.steady_writeMessage)

lemma steady_call: "closing.steady (call marshal method params)"
proof -
  have "closing.steady (case registered of
      Inl e \<Rightarrow> State_Monad.return (Some (Inl (NotRegistered e)), False)
    | Inr request \<Rightarrow> do {
        writeErr \<leftarrow> writeRpc marshal writeExternal (rpcRequest i method (Params params));
        _ \<leftarrow> (case writeErr of
           Some e \<Rightarrow> locked_do (\<lambda>t. snd (complete (itoa i) (Inl (wrapped ''writing request: '' e)) t))
         | None \<Rightarrow> State_Monad.return ());
        waited \<leftarrow> waitPending (itoa i) request;
        State_Monad.return (map_option (callResult method) (fst waited), snd waited \<and> writeErr = None) })" for registered i
  proof (cases registered)
    case (Inl e)
    show ?thesis unfolding Inl sum.case by (rule closing.steady_return)
  next
    case (Inr request)
    show ?thesis unfolding Inr sum.case by (intro steady_rules)
  qed
  then show ?thesis unfolding call_def
    by (intro closing.steady_bind closing.steady_critical [OF mild_nextID] closing.steady_critical [OF mild_register])
qed

lemma steady_notify: "closing.steady (notify marshal method params)"
  unfolding notify_def by (intro steady_rules)

lemma fair_users: "fair s \<Longrightarrow> with_users s"
  unfolding fair_def with_users_def using mono_rtranclp [of user_step t_step] by (auto simp: user_step_def)

text \<open>What a failed handshake leaves: the connection aborted, the process killed and awaited.\<close>

definition stopped :: "closing \<Rightarrow> bool" where
  "stopped s \<longleftrightarrow> t_state (cl_transport s) = transportAborted \<and> 0 < t_waits (cl_transport s) \<and> 0 < t_kills (cl_transport s)"

definition started :: "(params rpc_message \<Rightarrow> conn_error + string) \<Rightarrow> closing \<Rightarrow> bool" where
  "started marshal s \<longleftrightarrow>
     (\<exists>frame. marshal (rpcNotification ''initialized'' (Params NoParams)) = Inr frame \<and> frame \<in> set (cl_frames s))"

lemma after_abortAndWait: "closing.good s \<Longrightarrow> unclosed s \<Longrightarrow> after s (abortAndWait cause) (\<lambda>_. stopped)"
  using abortAndWait_stops by (auto simp: after_def stopped_def split: prod.splits)

lemma notify_wrote:
  "after s (notify marshal ''initialized'' NoParams) (\<lambda>err s'. err = None \<longrightarrow> started marshal s')"
  unfolding notify_def after_bind after_return
  by (rule after_mono [OF writeRpc_wrote]) (auto simp: started_def)

lemma after_handshake:
  assumes s: "closing.good s" "calls.good s" and room: "t_nextID (cl_others s (cl_moment s) (cl_transport s)) + 1 < 2 ^ 63"
  shows "after s (handshake marshal params) (\<lambda>outcome s'. closing.goes s s' \<and> outcome \<noteq> None \<and> (outcome = Some None \<longrightarrow> started marshal s'))"
  unfolding handshake_def after_bind
proof (rule after_mono [OF after_conj [OF after_rpc_call [OF s(2) room] closing.steadyD [OF steady_call s(1)]]], assumption, goal_cases)
  case u: (1 out u)
  then obtain result where result: "fst out = Some result" by (auto simp: answered_call_def settled_call_def)
  have su: "closing.goes s u" using u by blast
  show ?case
  proof (cases result)
    case (Inr v)
    have "after u (notify marshal ''initialized'' NoParams) (\<lambda>err v. (err = None \<longrightarrow> started marshal v) \<and> closing.goes u v)"
      by (rule after_conj [OF notify_wrote closing.steadyD [OF steady_notify closing.goes_good [OF su]]])
    then show ?thesis unfolding result Inr option.case sum.case after_bind after_return
      by (rule after_mono) (use closing.goes_trans [OF su] in auto)
  qed (simp add: result su)
qed

section \<open>Properties\<close>

text \<open>C27: starting a provider always returns, however the server and the reader loop interleave: it fails before there is a
  process, and then it has touched nothing; or it fails in the handshake, and then the connection is aborted, and the process has been
  killed and is being awaited; or it succeeds, and then the \<^verbatim>\<open>initialized\<close> notification is on the wire.\<close>

theorem New_releases:
  assumes "fair s" "cl_transport s = newTransport" "t_nextID (cl_others s (cl_moment s) newTransport) + 1 < 2 ^ 63"
    and "run_state (New env cfg pid po marshal) s = (out, s')"
  shows "(\<exists>e. out = Some (Inl e) \<and> s' = s \<and> (\<not> isOk (workspaceIdentity env (cfg_ProjectRoot cfg)) \<or> startProcess cfg po = Some e)) \<or>
    (\<exists>e. out = Some (Inl e) \<and> stopped s') \<or> (out = Some (Inr ()) \<and> started marshal s')"
proof (cases "isOk (workspaceIdentity env (cfg_ProjectRoot cfg)) \<and> startProcess cfg po = None")
  case False
  then show ?thesis using assms(4)
    by (cases "workspaceIdentity env (cfg_ProjectRoot cfg)"; cases "startProcess cfg po") (auto simp: New_def)
next
  case True
  then obtain path rootURI rootName where root: "workspaceIdentity env (cfg_ProjectRoot cfg) = Inr (path, rootURI, rootName)"
    by (cases "workspaceIdentity env (cfg_ProjectRoot cfg)") auto
  have "t_inv (cl_transport s)" using reachable_inv [of newTransport] assms(2) by simp
  then have s: "closing.good s" "calls.good s" "unclosed s" using assms(1,2) fair_users [OF assms(1)]
    by (simp_all add: closing.good_def calls.good_def fair_def with_users_def kept_def t_inv_def unclosed_def newTransport_def)
  let ?Q = "\<lambda>out s'. (\<exists>e. out = Some (Inl e) \<and> stopped s') \<or> (out = Some (Inr ()) \<and> started marshal s')"
  have "after s (New env cfg pid po marshal) ?Q"
    using True unfolding New_def root sum.case prod.case after_bind
  proof (simp, rule_tac after_mono [OF after_handshake [OF s(1,2)]], goal_cases)
    case 1
    then show ?case using assms(2,3) by simp
  next
    case (2 outcome u)
    have u: "closing.good u" "unclosed u" using 2 closing.goes_good goes_unclosed [OF _ s(3)] by blast+
    then show ?case using 2 after_mono [OF after_abortAndWait [OF u, of errProviderClosed]] by (auto split: option.splits)
  qed
  from afterD [OF this assms(4)] show ?thesis by blast
qed

section \<open>Witnesses\<close>

definition startup_marshal :: "params rpc_message \<Rightarrow> conn_error + string" where
  "startup_marshal message = (case message of
     rpcRequest i method _ \<Rightarrow> Inr method | rpcNotification method _ \<Rightarrow> Inr method | _ \<Rightarrow> Inr [])"

definition startup_config :: Config where
  "startup_config = \<lparr>cfg_ProjectRoot = ''/w'', cfg_SessionID = ''s'', cfg_GraphMode = ''graph'', cfg_TsgoPath = [], cfg_JSONLPath = [],
     cfg_ControlSocket = [], cfg_MaxResults = 0\<rparr>"

text \<open>A server that does not answer.\<close>

theorem New_releases_witness:
  "stopped (snd (run_state (New ubuntu_env startup_config 7 \<lparr>po_stdin = None, po_stdout = None, po_stderr = None, po_start = None\<rparr> startup_marshal) silent_server))"
proof -
  let ?x = "run_state (New ubuntu_env startup_config 7 \<lparr>po_stdin = None, po_stdout = None, po_stderr = None, po_start = None\<rparr> startup_marshal) silent_server"
  have s: "fair silent_server" "cl_transport silent_server = newTransport" "t_nextID (cl_others silent_server (cl_moment silent_server) newTransport) + 1 < 2 ^ 63"
    by (simp_all add: fair_def silent_server_def newTransport_def)
  have "?x = (fst ?x, snd ?x)" by simp
  note cases = New_releases [OF s this]
  have "cl_frames (snd ?x) = [''initialize'']" by code_simp
  then have "snd ?x \<noteq> silent_server" "\<not> started startup_marshal (snd ?x)"
    by (auto simp: silent_server_def started_def startup_marshal_def)
  with cases show ?thesis by blast
qed

end
