(* ===== verification/Telemetry_Diagnostic.thy ===== *)
theory Telemetry_Diagnostic
  imports Transition_Systems "HOL-Library.Sublist"
begin

text \<open>
  The diagnostic dispatcher (\<^verbatim>\<open>src/internal/telemetry/diagnostic.go\<close>): reports from telemetry callers go
  to a bounded queue that one worker hands to the callback, which may be slow, panic or never return.
  Reporters, worker and \<^verbatim>\<open>closeBy\<close> interleave as a step relation; that the deadline passes is a step.
  An error is its text.
\<close>

section \<open>State\<close>

datatype diag_worker = WorkerIdle | Calling string | WorkerDone

datatype closer = NotClosing | AwaitingDone | CloseReturned "string list"

record diagnosticDispatcher =
  dg_capacity :: nat
  dg_queue :: "string list"
  dg_worker :: diag_worker
  dg_closed :: bool
  dg_closer :: closer
  dg_drops :: nat
  dg_panics :: nat
  dg_timeouts :: nat
  dg_todo :: "string list"
  dg_reported :: nat
  dg_queued :: "string list"
  dg_delivered :: "string list"

text \<open>\<open>dg_todo\<close> are the reports still to come; the last three fields are histories.\<close>

definition newDiagnosticDispatcher :: "nat \<Rightarrow> string list \<Rightarrow> diagnosticDispatcher" where
  "newDiagnosticDispatcher capacity reports =
     \<lparr>dg_capacity = (if capacity = 0 then 64 else capacity), dg_queue = [], dg_worker = WorkerIdle, dg_closed = False,
      dg_closer = NotClosing, dg_drops = 0, dg_panics = 0, dg_timeouts = 0, dg_todo = reports, dg_reported = 0,
      dg_queued = [], dg_delivered = []\<rparr>"

section \<open>Operations\<close>

text \<open>\<^verbatim>\<open>report\<close> under the read lock: it never waits, neither for room nor for the worker.\<close>

definition report :: "string \<Rightarrow> diagnosticDispatcher \<Rightarrow> diagnosticDispatcher" where
  "report err d =
     (if dg_closed d then d\<lparr>dg_drops := dg_drops d + 1\<rparr>
      else if length (dg_queue d) < dg_capacity d
      then d\<lparr>dg_queue := dg_queue d @ [err], dg_queued := dg_queued d @ [err]\<rparr>
      else d\<lparr>dg_drops := dg_drops d + 1\<rparr>)"

definition callDiagnostic :: "bool \<Rightarrow> string \<Rightarrow> diagnosticDispatcher \<Rightarrow> diagnosticDispatcher" where
  "callDiagnostic panicked err d =
     d\<lparr>dg_worker := WorkerIdle, dg_delivered := dg_delivered d @ [err],
       dg_panics := dg_panics d + (if panicked then 1 else 0)\<rparr>"

definition closeErrors :: "diagnosticDispatcher \<Rightarrow> string list" where
  "closeErrors d =
     (if 0 < dg_drops d then [''telemetry: '' @ itoa (int (dg_drops d)) @ '' diagnostics dropped''] else []) @
     (if 0 < dg_panics d then [''telemetry: diagnostic callback panicked '' @ itoa (int (dg_panics d)) @ '' times''] else []) @
     (if 0 < dg_timeouts d then [''telemetry: diagnostic shutdown timeout''] else [])"

definition finishCloseBy :: "bool \<Rightarrow> diagnosticDispatcher \<Rightarrow> diagnosticDispatcher" where
  "finishCloseBy completed d =
     (let d' = (if completed then d else d\<lparr>dg_timeouts := dg_timeouts d + 1\<rparr>) in d'\<lparr>dg_closer := CloseReturned (closeErrors d')\<rparr>)"

section \<open>Steps\<close>

inductive dg_step :: "diagnosticDispatcher \<Rightarrow> diagnosticDispatcher \<Rightarrow> bool" where
  reporting: "dg_todo d = err # rest \<Longrightarrow> dg_step d (report err (d\<lparr>dg_todo := rest, dg_reported := Suc (dg_reported d)\<rparr>))"
| take_next: "dg_worker d = WorkerIdle \<Longrightarrow> dg_queue d = err # rest \<Longrightarrow>
    dg_step d (d\<lparr>dg_worker := Calling err, dg_queue := rest\<rparr>)"
| call_ends: "dg_worker d = Calling err \<Longrightarrow> dg_step d (callDiagnostic panicked err d)"
| stop_worker: "dg_worker d = WorkerIdle \<Longrightarrow> dg_queue d = [] \<Longrightarrow> dg_closed d \<Longrightarrow> dg_step d (d\<lparr>dg_worker := WorkerDone\<rparr>)"
| close_queue: "dg_closer d = NotClosing \<Longrightarrow> dg_step d (d\<lparr>dg_closed := True, dg_closer := AwaitingDone\<rparr>)"
| close_done: "dg_closer d = AwaitingDone \<Longrightarrow> dg_worker d = WorkerDone \<Longrightarrow> dg_step d (finishCloseBy True d)"
| close_late: "dg_closer d = AwaitingDone \<Longrightarrow> dg_step d (finishCloseBy False d)"

text \<open>The steps of a callback that never returns are all but its end.\<close>

inductive stalled_step :: "diagnosticDispatcher \<Rightarrow> diagnosticDispatcher \<Rightarrow> bool" where
  "dg_step d d' \<Longrightarrow> dg_delivered d' = dg_delivered d \<Longrightarrow> stalled_step d d'"

section \<open>The invariant\<close>

definition in_call :: "diag_worker \<Rightarrow> string list" where
  "in_call w = (case w of Calling err \<Rightarrow> [err] | _ \<Rightarrow> [])"

lemma in_call_simps [simp]: "in_call WorkerIdle = []" "in_call (Calling e) = [e]" "in_call WorkerDone = []"
  by (simp_all add: in_call_def)

definition dg_inv :: "diagnosticDispatcher \<Rightarrow> bool" where
  "dg_inv d \<longleftrightarrow> 0 < dg_capacity d \<and> length (dg_queue d) \<le> dg_capacity d \<and>
     dg_queued d = dg_delivered d @ in_call (dg_worker d) @ dg_queue d \<and>
     dg_reported d = dg_drops d + length (dg_queued d) \<and> dg_panics d \<le> length (dg_delivered d) \<and>
     (dg_closed d \<longleftrightarrow> dg_closer d \<noteq> NotClosing) \<and> (dg_worker d = WorkerDone \<longrightarrow> dg_closed d \<and> dg_queue d = []) \<and>
     (dg_closer d = NotClosing \<or> dg_closer d = AwaitingDone \<longrightarrow> dg_timeouts d = 0) \<and> dg_timeouts d \<le> 1"

lemma dg_inv_start: "dg_inv (newDiagnosticDispatcher capacity reports)"
  by (simp add: dg_inv_def newDiagnosticDispatcher_def)

lemma dg_inv_step:
  assumes "dg_inv d" "dg_step d d'"
  shows "dg_inv d'"
  using assms(2,1)
  by (induction rule: dg_step.induct)
    (auto simp: dg_inv_def report_def callDiagnostic_def finishCloseBy_def Let_def split: diag_worker.splits)

section \<open>Progress\<close>

definition dg_size :: "diagnosticDispatcher \<Rightarrow> nat" where
  "dg_size d = 3 * length (dg_todo d) + 2 * length (dg_queue d) +
     (case dg_worker d of Calling _ \<Rightarrow> 2 | WorkerIdle \<Rightarrow> 1 | WorkerDone \<Rightarrow> 0) +
     (case dg_closer d of NotClosing \<Rightarrow> 2 | AwaitingDone \<Rightarrow> 1 | CloseReturned _ \<Rightarrow> 0)"

text \<open>No reporter is left and \<^verbatim>\<open>closeBy\<close> has returned: what the callers of the dispatcher wait for.\<close>

definition callers_done :: "diagnosticDispatcher \<Rightarrow> bool" where
  "callers_done d \<longleftrightarrow> dg_todo d = [] \<and> (\<exists>errs. dg_closer d = CloseReturned errs)"

lemma dg_step_decreases: "dg_step d d' \<Longrightarrow> dg_size d' < dg_size d"
  by (induction rule: dg_step.induct)
    (auto simp: dg_size_def report_def callDiagnostic_def finishCloseBy_def Let_def split: diag_worker.splits)

lemma callers_progress:
  assumes "\<not> callers_done d"
  shows "\<exists>d'. stalled_step d d'"
proof (cases "dg_todo d")
  case Nil
  then consider "dg_closer d = NotClosing" | "dg_closer d = AwaitingDone" using assms by (cases "dg_closer d") (auto simp: callers_done_def)
  then show ?thesis
  proof cases
    case 1
    from stalled_step.intros [OF dg_step.close_queue [OF this]] show ?thesis by auto
  next
    case 2
    then have "dg_step d (finishCloseBy (dg_worker d = WorkerDone) d)"
      by (cases "dg_worker d = WorkerDone") (auto intro: dg_step.close_done dg_step.close_late)
    moreover have "dg_delivered (finishCloseBy b d) = dg_delivered d" for b by (simp add: finishCloseBy_def Let_def)
    ultimately show ?thesis by (blast intro: stalled_step.intros)
  qed
next
  case (Cons err rest)
  moreover have "dg_delivered (report err (d\<lparr>dg_todo := rest, dg_reported := n\<rparr>)) = dg_delivered d" for n by (simp add: report_def)
  ultimately show ?thesis using stalled_step.intros [OF dg_step.reporting] by blast
qed

interpretation diagnostics: finishing_system "\<lambda>d. d = newDiagnosticDispatcher capacity reports" stalled_step dg_inv callers_done dg_size
  for capacity :: nat and reports :: "string list"
proof unfold_locales
  fix d d' :: diagnosticDispatcher
  show "d = newDiagnosticDispatcher capacity reports \<Longrightarrow> dg_inv d" by (simp add: dg_inv_start)
  show "dg_inv d \<Longrightarrow> stalled_step d d' \<Longrightarrow> dg_inv d'" by (auto elim!: stalled_step.cases intro: dg_inv_step)
  show "dg_inv d \<Longrightarrow> \<not> callers_done d \<Longrightarrow> \<exists>d'. stalled_step d d'" by (rule callers_progress)
  show "dg_inv d \<Longrightarrow> stalled_step d d' \<Longrightarrow> dg_size d' < dg_size d" by (auto elim!: stalled_step.cases intro: dg_step_decreases)
qed

text \<open>With callbacks that return every run drains the queue.\<close>

definition drained :: "diagnosticDispatcher \<Rightarrow> bool" where
  "drained d \<longleftrightarrow> callers_done d \<and> dg_worker d = WorkerDone"

interpretation diagnostic_runs: finishing_system "\<lambda>d. d = newDiagnosticDispatcher capacity reports" dg_step dg_inv drained dg_size
  for capacity :: nat and reports :: "string list"
proof unfold_locales
  fix d d' :: diagnosticDispatcher
  show "d = newDiagnosticDispatcher capacity reports \<Longrightarrow> dg_inv d" by (simp add: dg_inv_start)
  show "dg_inv d \<Longrightarrow> dg_step d d' \<Longrightarrow> dg_inv d'" by (rule dg_inv_step)
  show "dg_inv d \<Longrightarrow> dg_step d d' \<Longrightarrow> dg_size d' < dg_size d" by (rule dg_step_decreases)
  assume inv: "dg_inv d" and todo: "\<not> drained d"
  show "\<exists>d'. dg_step d d'"
  proof (cases "callers_done d")
    case False
    then show ?thesis using callers_progress by (blast elim: stalled_step.cases)
  next
    case True
    then have "dg_closed d" using inv by (auto simp: dg_inv_def callers_done_def)
    then show ?thesis using True todo
      by (cases "dg_worker d"; cases "dg_queue d") (auto simp: drained_def intro: dg_step.intros)
  qed
qed

section \<open>Properties\<close>

text \<open>C30: every diagnostic is delivered to the callback, waiting, or counted as dropped, exactly once; the queue is
  bounded; the callback gets them one at a time in the order of the queue; and no callback, not
  even one that never returns, keeps a reporter or the shutdown from returning.\<close>

theorem diagnostics_accounting:
  assumes "dg_step\<^sup>*\<^sup>* (newDiagnosticDispatcher capacity reports) d"
  shows "dg_reported d = dg_drops d + length (dg_delivered d) + length (in_call (dg_worker d)) + length (dg_queue d) \<and>
    length (dg_queue d) \<le> dg_capacity d \<and> prefix (dg_delivered d) (dg_queued d) \<and> dg_panics d \<le> length (dg_delivered d) \<and>
    (\<exists>d'. dg_step\<^sup>*\<^sup>* d d' \<and> drained d') \<and>
    (\<exists>d'. stalled_step\<^sup>*\<^sup>* d d' \<and> callers_done d' \<and> dg_delivered d' = dg_delivered d) \<and>
    \<not> (\<exists>f. f 0 = d \<and> (\<forall>i. dg_step (f i) (f (Suc i))))"
proof -
  have inv: "dg_inv d" by (rule diagnostic_runs.inv_reachable [OF refl assms])
  obtain d' where d': "stalled_step\<^sup>*\<^sup>* d d'" "callers_done d'" using diagnostics.finishes [OF inv] by blast
  have "dg_delivered d' = dg_delivered d" using d'(1) by (induction rule: rtranclp_induct) (auto elim: stalled_step.cases)
  moreover have "\<not> (\<exists>f. f 0 = d \<and> (\<forall>i. dg_step (f i) (f (Suc i))))"
    using diagnostic_runs.no_infinite_run inv by blast
  ultimately show ?thesis using inv d' diagnostic_runs.finishes [OF inv] unfolding dg_inv_def by auto
qed

section \<open>Witnesses\<close>

theorem diagnostics_accounting_witness:
  "\<exists>d. stalled_step\<^sup>*\<^sup>* (newDiagnosticDispatcher 1 [''a'', ''b'']) d \<and> callers_done d \<and> dg_delivered d = []"
  using diagnostics_accounting [OF rtranclp.rtrancl_refl, of 1 "[''a'', ''b'']"]
  by (auto simp: newDiagnosticDispatcher_def)

end
