(* ===== verification/Control_Publication.thy ===== *)
theory Control_Publication
  imports Go_Path State_Logic
begin

text \<open>
  Ownership of the control socket's path (\<^verbatim>\<open>src/internal/mcp/control_publication.go\<close>, \<^verbatim>\<open>Start\<close> of
  \<^verbatim>\<open>control.go\<close>). The code is written as the sequence of its system calls over a file system in
  which other processes may act before every call and any call may fail; both are parts of the
  state that the code does not control, so what is proved holds for all of them. A history records
  what this process renamed, linked and unlinked.
\<close>

section \<open>The file system\<close>

text \<open>A name leads to a directory or to an inode that can have several names; inodes are compared by \<^verbatim>\<open>os.SameFile\<close>.\<close>

datatype node = Directory | Inode nat

datatype errno = EIO | ENOENT | EEXIST | EPERM | ENOTEMPTY | EADDRINUSE | ECONNREFUSED | ECONNRESET | ENOTCONN | EWOULDBLOCK | EAGAIN

text \<open>The error types of \<^verbatim>\<open>os\<close> and \<^verbatim>\<open>net\<close>: \<^verbatim>\<open>os.IsNotExist\<close> and \<^verbatim>\<open>os.IsExist\<close> look into the first two only, \<^verbatim>\<open>errors.Is\<close> into all.\<close>

datatype go_error = PathError errno | LinkError errno | OpError errno

fun errnoOf :: "go_error \<Rightarrow> errno" where
  "errnoOf (PathError e) = e"
| "errnoOf (LinkError e) = e"
| "errnoOf (OpError e) = e"

fun underlyingError :: "go_error \<Rightarrow> errno option" where
  "underlyingError (PathError e) = Some e"
| "underlyingError (LinkError e) = Some e"
| "underlyingError (OpError e) = None"

definition os_IsNotExist :: "go_error \<Rightarrow> bool" where
  "os_IsNotExist err \<longleftrightarrow> underlyingError err = Some ENOENT"

definition os_IsExist :: "go_error \<Rightarrow> bool" where
  "os_IsExist err \<longleftrightarrow> underlyingError err \<in> {Some EEXIST, Some ENOTEMPTY}"

datatype fs_event = Renamed string string node | Linked string node | Unlinked string node

type_synonym names = "string \<rightharpoonup> node"

record fsys =
  fs_names :: names
  fs_calls :: nat
  fs_others :: "nat \<Rightarrow> names \<Rightarrow> names"
  fs_fault :: "nat \<Rightarrow> errno option"
  fs_random :: "nat \<Rightarrow> string"
  fs_socket :: "nat \<Rightarrow> bool"
  fs_live :: "nat \<Rightarrow> bool"
  fs_nextInode :: nat
  fs_listening :: bool
  fs_locked :: bool
  fs_log :: "fs_event list"

type_synonym 'a io = "(fsys, 'a) state"

text \<open>Before a system call the others act; then it may fail.\<close>

definition sys_call :: "errno option io" where
  "sys_call = State (\<lambda>s. (fs_fault s (fs_calls s),
     s\<lparr>fs_names := fs_others s (fs_calls s) (fs_names s), fs_calls := Suc (fs_calls s)\<rparr>))"

text \<open>A call that succeeds when nothing prevents it: \<open>f\<close> gives its error or its result and the new state.\<close>

definition sys_do :: "(fsys \<Rightarrow> errno + 'a \<times> fsys) \<Rightarrow> (errno + 'a) io" where
  "sys_do f = State_Monad.bind sys_call (\<lambda>fault.
     State (\<lambda>s. case fault of
        Some e \<Rightarrow> (Inl e, s)
      | None \<Rightarrow> (case f s of Inl e \<Rightarrow> (Inl e, s) | Inr (a, s') \<Rightarrow> (Inr a, s'))))"

definition record_event :: "fs_event \<Rightarrow> fsys \<Rightarrow> fsys" where
  "record_event ev s = s\<lparr>fs_log := fs_log s @ [ev]\<rparr>"

definition set_name :: "string \<Rightarrow> node option \<Rightarrow> fsys \<Rightarrow> fsys" where
  "set_name p x s = s\<lparr>fs_names := (fs_names s)(p := x)\<rparr>"

definition os_Lstat :: "string \<Rightarrow> (errno + node) io" where
  "os_Lstat p = sys_do (\<lambda>s. case fs_names s p of None \<Rightarrow> Inl ENOENT | Some x \<Rightarrow> Inr (x, s))"

definition os_Link :: "string \<Rightarrow> string \<Rightarrow> (errno + unit) io" where
  "os_Link old new = sys_do (\<lambda>s. case fs_names s old of
      None \<Rightarrow> Inl ENOENT
    | Some Directory \<Rightarrow> Inl EPERM
    | Some (Inode n) \<Rightarrow>
        if fs_names s new \<noteq> None then Inl EEXIST
        else Inr ((), record_event (Linked new (Inode n)) (set_name new (Some (Inode n)) s)))"

text \<open>\<^verbatim>\<open>os.Rename\<close> into a directory that this process has just made, so the new name is free.\<close>

definition os_Rename :: "string \<Rightarrow> string \<Rightarrow> (errno + unit) io" where
  "os_Rename old new = sys_do (\<lambda>s. case fs_names s old of
      None \<Rightarrow> Inl ENOENT
    | Some x \<Rightarrow> Inr ((), record_event (Renamed old new x) (set_name new (Some x) (set_name old None s))))"

text \<open>The private directories of this process hold at most the name \<^verbatim>\<open>socket\<close>.\<close>

definition quarantine_of :: "string \<Rightarrow> string" where
  "quarantine_of dir = path_clean (dir @ ''/socket'')"

definition os_Remove :: "string \<Rightarrow> (errno + unit) io" where
  "os_Remove p = sys_do (\<lambda>s. case fs_names s p of
      None \<Rightarrow> Inl ENOENT
    | Some x \<Rightarrow>
        if x = Directory \<and> fs_names s (quarantine_of p) \<noteq> None then Inl ENOTEMPTY
        else Inr ((), record_event (Unlinked p x) (set_name p None s)))"

text \<open>\<^verbatim>\<open>filepath.Join\<close> of two elements, which leaves out empty ones, \<^verbatim>\<open>filepath.Dir\<close>, and \<^verbatim>\<open>os.MkdirTemp\<close>, which makes a directory under a name that did not exist.\<close>

definition path_join :: "string \<Rightarrow> string \<Rightarrow> string" where
  "path_join a b =
     (if a = [] then (if b = [] then [] else path_clean b)
      else if b = [] then path_clean a else path_clean (a @ [slash] @ b))"

definition path_dir :: "string \<Rightarrow> string" where
  "path_dir p = path_clean (rev (dropWhile (\<lambda>b. b \<noteq> slash) (rev p)))"

definition temp_name :: "string \<Rightarrow> string \<Rightarrow> string \<Rightarrow> string" where
  "temp_name dir prefix random = dir @ (if dir \<noteq> [] \<and> last dir = slash then [] else [slash]) @ prefix @ random"

definition os_MkdirTemp :: "string \<Rightarrow> string \<Rightarrow> (errno + string) io" where
  "os_MkdirTemp dir prefix = sys_do (\<lambda>s.
     let p = temp_name dir prefix (fs_random s (fs_calls s)) in
     if fs_names s p \<noteq> None \<or> fs_names s (quarantine_of p) \<noteq> None then Inl EEXIST
     else Inr (p, set_name p (Some Directory) s))"

section \<open>Publication\<close>

datatype install_error =
    MkdirFailed errno
  | RenameFailed go_error
  | CheckingQuarantined errno
  | ChangedPreserved string errno
  | Changed
  | RemoveStaleFailed errno
  | LinkFailed errno
  | RemoveStagedFailed errno

definition restorePathNoReplace :: "string \<Rightarrow> string \<Rightarrow> (errno + unit) io" where
  "restorePathNoReplace quarantine publicPath = do {
     r \<leftarrow> os_Link quarantine publicPath;
     case r of Inl e \<Rightarrow> State_Monad.return (Inl e) | Inr _ \<Rightarrow> os_Remove quarantine }"

text \<open>The part of \<open>installStagedSocket\<close> that moves a stale socket away.\<close>

definition restoreChanged :: "string \<Rightarrow> string \<Rightarrow> string \<Rightarrow> errno option \<Rightarrow> install_error io" where
  "restoreChanged quarantineDir quarantine publicPath statErr = do {
     restoreErr \<leftarrow> restorePathNoReplace quarantine publicPath;
     _ \<leftarrow> (case restoreErr of Inr _ \<Rightarrow> os_Remove quarantineDir | Inl e \<Rightarrow> State_Monad.return (Inl e));
     State_Monad.return (case statErr of
        Some e \<Rightarrow> CheckingQuarantined e
      | None \<Rightarrow> (case restoreErr of Inl e \<Rightarrow> ChangedPreserved quarantine e | Inr _ \<Rightarrow> Changed)) }"

definition checkQuarantined :: "string \<Rightarrow> string \<Rightarrow> node \<Rightarrow> install_error option io" where
  "checkQuarantined quarantineDir publicPath staleInfo = do {
     stat \<leftarrow> os_Lstat (quarantine_of quarantineDir);
     case stat of
       Inl statErr \<Rightarrow> do {
         e \<leftarrow> restoreChanged quarantineDir (quarantine_of quarantineDir) publicPath (Some statErr);
         State_Monad.return (Some e) }
     | Inr currentInfo \<Rightarrow>
         if currentInfo \<noteq> staleInfo then do {
           e \<leftarrow> restoreChanged quarantineDir (quarantine_of quarantineDir) publicPath None;
           State_Monad.return (Some e) }
         else do {
           removed \<leftarrow> os_Remove (quarantine_of quarantineDir);
           case removed of
             Inl e \<Rightarrow> State_Monad.return (Some (RemoveStaleFailed e))
           | Inr _ \<Rightarrow> do {
               _ \<leftarrow> os_Remove quarantineDir;
               State_Monad.return None } } }"

definition quarantineStale :: "string \<Rightarrow> node \<Rightarrow> install_error option io" where
  "quarantineStale publicPath staleInfo = do {
     made \<leftarrow> os_MkdirTemp (path_dir publicPath) ''.cg-install-'';
     case made of
       Inl e \<Rightarrow> State_Monad.return (Some (MkdirFailed e))
     | Inr quarantineDir \<Rightarrow> do {
         moved \<leftarrow> os_Rename publicPath (quarantine_of quarantineDir);
         case moved of
           Inl e \<Rightarrow> do {
             _ \<leftarrow> os_Remove quarantineDir;
             State_Monad.return (if \<not> os_IsNotExist (LinkError e) then Some (RenameFailed (LinkError e)) else None) }
         | Inr _ \<Rightarrow> checkQuarantined quarantineDir publicPath staleInfo } }"

definition installStagedSocket :: "string \<Rightarrow> string \<Rightarrow> node option \<Rightarrow> install_error option io" where
  "installStagedSocket stagedPath publicPath staleInfo = do {
     blocked \<leftarrow> (case staleInfo of None \<Rightarrow> State_Monad.return None | Some stale \<Rightarrow> quarantineStale publicPath stale);
     case blocked of
       Some err \<Rightarrow> State_Monad.return (Some err)
     | None \<Rightarrow> do {
         linked \<leftarrow> os_Link stagedPath publicPath;
         case linked of
           Inl e \<Rightarrow> State_Monad.return (Some (LinkFailed e))
         | Inr _ \<Rightarrow> do {
             removed \<leftarrow> os_Remove stagedPath;
             case removed of
               Inl e \<Rightarrow> do {
                 _ \<leftarrow> os_Remove publicPath;
                 State_Monad.return (Some (RemoveStagedFailed e)) }
             | Inr _ \<Rightarrow> State_Monad.return None } } }"

definition removeOwnedSocket :: "string \<Rightarrow> node \<Rightarrow> unit io" where
  "removeOwnedSocket path socketInfo = do {
     made \<leftarrow> os_MkdirTemp (path_dir path) ''.cg-clean-'';
     case made of
       Inl _ \<Rightarrow> State_Monad.return ()
     | Inr quarantineDir \<Rightarrow> do {
         moved \<leftarrow> os_Rename path (quarantine_of quarantineDir);
         case moved of
           Inl _ \<Rightarrow> do { _ \<leftarrow> os_Remove quarantineDir; State_Monad.return () }
         | Inr _ \<Rightarrow> do {
             info \<leftarrow> os_Lstat (quarantine_of quarantineDir);
             if info = Inr socketInfo then do {
               _ \<leftarrow> os_Remove (quarantine_of quarantineDir);
               _ \<leftarrow> os_Remove quarantineDir;
               State_Monad.return () }
             else do {
               restored \<leftarrow> restorePathNoReplace (quarantine_of quarantineDir) path;
               case restored of
                 Inr _ \<Rightarrow> do { _ \<leftarrow> os_Remove quarantineDir; State_Monad.return () }
               | Inl _ \<Rightarrow> State_Monad.return () } } } }"

section \<open>The view of one process\<close>

text \<open>
  Other processes know the public name only: a staged name is random, and the quarantine lies in a
  directory of mode 0700. So they may do anything to the public name and nothing to the others.
\<close>

definition calm :: "string \<Rightarrow> fsys \<Rightarrow> bool" where
  "calm public s \<longleftrightarrow> (\<forall>n nm p. p \<noteq> public \<longrightarrow> fs_others s n nm p = nm p) \<and>
     (\<forall>n. \<forall>prefix \<in> {''.cg-install-'', ''.cg-clean-''}. let p = temp_name (path_dir public) prefix (fs_random s n) in
        p \<noteq> public \<and> quarantine_of p \<noteq> public \<and> quarantine_of p \<noteq> p) \<and>
     (\<forall>n. path_join (path_dir public) (''.cg-'' @ fs_random s n) \<noteq> public)"

text \<open>What the process alone decides: the names but the public one, and its history.\<close>

definition priv :: "string \<Rightarrow> fsys \<Rightarrow> names" where
  "priv public s = (fs_names s)(public := None)"

text \<open>The lock and the listener that the process holds.\<close>

definition held :: "fsys \<Rightarrow> bool \<times> bool" where
  "held s = (fs_locked s, fs_listening s)"

definition same_view :: "string \<Rightarrow> fsys \<Rightarrow> fsys \<Rightarrow> bool" where
  "same_view public s t \<longleftrightarrow> calm public t \<and> priv public t = priv public s \<and> fs_log t = fs_log s \<and> held t = held s"

lemma run_sys_do:
  "run_state (sys_do f) s =
     (let u = s\<lparr>fs_names := fs_others s (fs_calls s) (fs_names s), fs_calls := Suc (fs_calls s)\<rparr> in
      case fs_fault s (fs_calls s) of
        Some e \<Rightarrow> (Inl e, u)
      | None \<Rightarrow> (case f u of Inl e \<Rightarrow> (Inl e, u) | Inr (a, t) \<Rightarrow> (Inr a, t)))"
  by (simp add: sys_do_def sys_call_def Let_def)

lemma interference: "calm public s \<Longrightarrow> same_view public s (s\<lparr>fs_names := fs_others s n (fs_names s), fs_calls := m\<rparr>)"
  by (auto simp: same_view_def calm_def priv_def held_def)

lemma after_sys_do:
  assumes "calm public s" "\<And>e t. same_view public s t \<Longrightarrow> Q (Inl e) t"
    and "\<And>u a t. same_view public s u \<Longrightarrow> f u = Inr (a, t) \<Longrightarrow> Q (Inr a) t"
  shows "after s (sys_do f) Q"
proof -
  let ?u = "s\<lparr>fs_names := fs_others s (fs_calls s) (fs_names s), fs_calls := Suc (fs_calls s)\<rparr>"
  have "same_view public s ?u" by (rule interference [OF assms(1)])
  then show ?thesis using assms(2,3) unfolding after_def run_sys_do Let_def
    by (cases "fs_fault s (fs_calls s)"; cases "f ?u") (auto split: prod.splits)
qed

named_theorems sys_rules \<open>rules for one system call\<close>

subsection \<open>The system calls on that view\<close>

lemma priv_other: "q \<noteq> public \<Longrightarrow> fs_names s q = priv public s q"
  by (simp add: priv_def)

lemma priv_set_name [simp]: "priv public (set_name q x s) = (if q = public then priv public s else (priv public s)(q := x))"
  by (simp add: priv_def set_name_def fun_upd_twist)

lemma priv_public [simp]: "priv public s public = None" "(priv public s)(public := None) = priv public s"
  by (simp_all add: priv_def)

lemma event_simps [simp]:
  "priv public (record_event ev s) = priv public s" "fs_log (record_event ev s) = fs_log s @ [ev]" "fs_log (set_name q x s) = fs_log s"
  "held (record_event ev s) = held s" "held (set_name q x s) = held s"
  "calm public (record_event ev s) = calm public s" "calm public (set_name q x s) = calm public s"
  by (simp_all add: priv_def record_event_def set_name_def held_def calm_def)

lemma after_Lstat [sys_rules]:
  assumes "calm public s" "q \<noteq> public"
    and "\<And>e t. same_view public s t \<Longrightarrow> Q (Inl e) t"
    and "\<And>x t. same_view public s t \<Longrightarrow> priv public s q = Some x \<Longrightarrow> Q (Inr x) t"
  shows "after s (os_Lstat q) Q"
  unfolding os_Lstat_def
  by (rule after_sys_do [OF assms(1)]) (use assms in \<open>auto simp: same_view_def priv_other [OF assms(2)] split: option.splits\<close>)

lemma after_Link [sys_rules]:
  assumes "calm public s" "q \<noteq> public"
    and "\<And>e t. same_view public s t \<Longrightarrow> Q (Inl e) t"
    and "\<And>n t. calm public t \<Longrightarrow> priv public t = priv public s \<Longrightarrow> held t = held s \<Longrightarrow> priv public s q = Some (Inode n) \<Longrightarrow>
      fs_log t = fs_log s @ [Linked public (Inode n)] \<Longrightarrow> Q (Inr ()) t"
  shows "after s (os_Link q public) Q"
  unfolding os_Link_def
  by (rule after_sys_do [OF assms(1)])
    (use assms in \<open>auto simp: same_view_def priv_other [OF assms(2)] split: option.splits node.splits if_splits\<close>)

lemma after_Rename [sys_rules]:
  assumes "calm public s" "q \<noteq> public"
    and "\<And>e t. same_view public s t \<Longrightarrow> Q (Inl e) t"
    and "\<And>x t. calm public t \<Longrightarrow> priv public t = (priv public s)(q \<mapsto> x) \<Longrightarrow> held t = held s \<Longrightarrow>
      fs_log t = fs_log s @ [Renamed public q x] \<Longrightarrow> Q (Inr ()) t"
  shows "after s (os_Rename public q) Q"
  unfolding os_Rename_def
  by (rule after_sys_do [OF assms(1)]) (use assms in \<open>auto simp: same_view_def split: option.splits\<close>)

lemma after_Remove [sys_rules]:
  assumes "calm public s"
    and "\<And>e t. same_view public s t \<Longrightarrow> Q (Inl e) t"
    and "\<And>x t. calm public t \<Longrightarrow> priv public t = (priv public s)(q := None) \<Longrightarrow> held t = held s \<Longrightarrow>
      (q \<noteq> public \<longrightarrow> priv public s q = Some x) \<Longrightarrow> fs_log t = fs_log s @ [Unlinked q x] \<Longrightarrow> Q (Inr ()) t"
  shows "after s (os_Remove q) Q"
  unfolding os_Remove_def
proof (rule after_sys_do [OF assms(1)])
  fix u t and a :: unit
  assume u: "same_view public s u" and f: "(case fs_names u q of None \<Rightarrow> Inl ENOENT
    | Some x \<Rightarrow> if x = Directory \<and> fs_names u (quarantine_of q) \<noteq> None then Inl ENOTEMPTY
        else Inr ((), record_event (Unlinked q x) (set_name q None u))) = Inr (a, t)"
  then obtain x where x: "fs_names u q = Some x" "t = record_event (Unlinked q x) (set_name q None u)"
    by (auto split: option.splits if_splits)
  have "q \<noteq> public \<longrightarrow> priv public s q = Some x" using u x(1) priv_other [of q public u] by (simp add: same_view_def)
  moreover have "priv public t = (priv public s)(q := None)" using u x(2) by (auto simp: same_view_def)
  ultimately show "Q (Inr a) t" using u x(2) assms(3) [of t x] by (simp add: same_view_def)
qed (rule assms(2))

lemma after_MkdirTemp [sys_rules]:
  assumes "calm public s" "prefix \<in> {''.cg-install-'', ''.cg-clean-''}"
    and "\<And>e t. same_view public s t \<Longrightarrow> Q (Inl e) t"
    and "\<And>d t. calm public t \<Longrightarrow> priv public t = (priv public s)(d \<mapsto> Directory) \<Longrightarrow> held t = held s \<Longrightarrow> fs_log t = fs_log s \<Longrightarrow>
      d \<noteq> public \<Longrightarrow> quarantine_of d \<noteq> public \<Longrightarrow> quarantine_of d \<noteq> d \<Longrightarrow>
      priv public s d = None \<Longrightarrow> priv public s (quarantine_of d) = None \<Longrightarrow> Q (Inr d) t"
  shows "after s (os_MkdirTemp (path_dir public) prefix) Q"
  unfolding os_MkdirTemp_def
proof (rule after_sys_do [OF assms(1)])
  fix u d t
  assume u: "same_view public s u"
    and f: "(let p = temp_name (path_dir public) prefix (fs_random u (fs_calls u)) in
     if fs_names u p \<noteq> None \<or> fs_names u (quarantine_of p) \<noteq> None then Inl EEXIST
     else Inr (p, set_name p (Some Directory) u)) = Inr (d, t)"
  have d: "d = temp_name (path_dir public) prefix (fs_random u (fs_calls u))"
    "fs_names u d = None" "fs_names u (quarantine_of d) = None" "t = set_name d (Some Directory) u"
    using f by (auto simp: Let_def split: if_splits)
  have "calm public u" using u by (simp add: same_view_def)
  then have ne: "d \<noteq> public" "quarantine_of d \<noteq> public" "quarantine_of d \<noteq> d"
    unfolding d(1) calm_def Let_def using assms(2) by blast+
  then show "Q (Inr d) t" using u d(2-4) by (intro assms(4)) (simp_all add: same_view_def priv_other [of _ public])
qed (rule assms(3))

section \<open>What a process may unlink\<close>

text \<open>
  Every node that the history unlinks is expendable from the start or was given a name by this
  process before: nothing that belongs to another process loses the name it had.
\<close>

fun justified :: "node set \<Rightarrow> fs_event list \<Rightarrow> bool" where
  "justified ok [] = True"
| "justified ok (Linked p x # l) = justified (insert x ok) l"
| "justified ok (Unlinked p x # l) = (x \<in> ok \<and> justified ok l)"
| "justified ok (Renamed p q x # l) = justified ok l"

text \<open>Every node taken from the public name is still in its quarantine or was linked back, unless it was \<open>expendable\<close>.\<close>

definition taken_kept :: "node set \<Rightarrow> names \<Rightarrow> string \<Rightarrow> fs_event list \<Rightarrow> bool" where
  "taken_kept expendable nm public l \<longleftrightarrow> (\<forall>q x. Renamed public q x \<in> set l \<longrightarrow> x \<in> expendable \<or> nm q = Some x \<or> Linked public x \<in> set l)"

lemma justified_mono: "justified ok l \<Longrightarrow> ok \<subseteq> ok' \<Longrightarrow> justified ok' l"
proof (induction ok l arbitrary: ok' rule: justified.induct)
  case (2 ok p x l)
  from "2.IH" [of "insert x ok'"] "2.prems" show ?case by auto
qed auto

lemma justified_append: "justified ok a \<Longrightarrow> justified ok b \<Longrightarrow> justified ok (a @ b)"
  by (induction ok a rule: justified.induct) (auto intro: justified_mono)

text \<open>
  From \<open>s\<close> to \<open>t\<close> a process behaved: names it had are untouched, what it unlinked was its to
  unlink and what it took from the public name is kept.
\<close>

definition orderly :: "node set \<Rightarrow> string \<Rightarrow> fsys \<Rightarrow> fsys \<Rightarrow> bool" where
  "orderly ok public s t \<longleftrightarrow> calm public t \<and> held t = held s \<and>
     (\<forall>p. priv public s p \<noteq> None \<longrightarrow> priv public t p = priv public s p) \<and>
     (\<exists>evs. fs_log t = fs_log s @ evs \<and> justified (insert Directory ok) evs \<and> taken_kept ok (priv public t) public evs)"

lemma after_restore:
  assumes "calm public s" "q \<noteq> public" "priv public s q = Some x"
    and "\<And>e t. calm public t \<Longrightarrow> priv public t = priv public s \<Longrightarrow> held t = held s \<Longrightarrow>
      fs_log t = fs_log s \<or> fs_log t = fs_log s @ [Linked public x] \<Longrightarrow> Q (Inl e) t"
    and "\<And>t. calm public t \<Longrightarrow> priv public t = (priv public s)(q := None) \<Longrightarrow> held t = held s \<Longrightarrow>
      fs_log t = fs_log s @ [Linked public x, Unlinked q x] \<Longrightarrow> Q (Inr ()) t"
  shows "after s (restorePathNoReplace q public) Q"
  unfolding restorePathNoReplace_def
  by (simp, rule after_Link [OF assms(1,2)])
    (use assms in \<open>auto simp: same_view_def intro!: after_Remove\<close>)

text \<open>The outcome of looking at what was moved to the quarantine: \<open>x\<close> is the node found there.\<close>

definition settled :: "string \<Rightarrow> string \<Rightarrow> node \<Rightarrow> node \<Rightarrow> fsys \<Rightarrow> fsys \<Rightarrow> bool" where
  "settled d public expendable x s t \<longleftrightarrow> calm public t \<and> held t = held s \<and>
     (\<forall>p. p \<noteq> d \<longrightarrow> p \<noteq> quarantine_of d \<longrightarrow> priv public t p = priv public s p) \<and>
     (\<exists>evs. fs_log t = fs_log s @ evs \<and> justified {Directory, expendable} evs \<and> (\<forall>q y. Renamed public q y \<notin> set evs) \<and>
       (x = expendable \<or> priv public t (quarantine_of d) = Some x \<or> Linked public x \<in> set evs))"

lemma after_restoreChanged:
  assumes "calm public s" "quarantine_of d \<noteq> public" "quarantine_of d \<noteq> d" "d \<noteq> public"
    and "priv public s (quarantine_of d) = Some x" "priv public s d = Some Directory"
    and "\<And>e t. settled d public y x s t \<Longrightarrow> Q e t"
  shows "after s (restoreChanged d (quarantine_of d) public statErr) Q"
  unfolding restoreChanged_def after_bind
proof (rule after_restore [OF assms(1,2,5)], goal_cases)
  case (1 e t)
  then show ?case using assms(5) by (auto intro!: assms(7) simp: settled_def)
next
  case t: (2 t)
  then show ?case using assms(2-6) by (auto intro!: after_Remove [OF t(1)] assms(7) simp: settled_def same_view_def)
qed

lemma settled_same: "same_view public s u \<Longrightarrow> settled d public y x u t = settled d public y x s t"
  by (simp add: settled_def same_view_def)

lemma after_checkQuarantined:
  assumes s: "calm public s" "quarantine_of d \<noteq> public" "quarantine_of d \<noteq> d" "d \<noteq> public"
    and x: "priv public s (quarantine_of d) = Some x" "priv public s d = Some Directory"
    and Q: "\<And>r t. settled d public stale x s t \<Longrightarrow> (r = None \<longrightarrow> x = stale) \<Longrightarrow> Q r t"
  shows "after s (checkQuarantined d public stale) Q"
proof -
  have restored: "after u (restoreChanged d (quarantine_of d) public se) (\<lambda>e v. Q (Some e) v)"
    if "same_view public s u" for u se
    using that x s by (intro after_restoreChanged [where x = x and y = stale]) (auto simp: same_view_def settled_same [OF that] intro: Q)
  show ?thesis unfolding checkQuarantined_def after_bind
  proof (rule after_Lstat [OF s(1,2)], goal_cases)
    case u: (2 y u)
    then have y: "y = x" using x by simp
    show ?case
    proof (cases "x = stale")
      case True
      then show ?thesis using u x s y by (auto intro!: after_Remove [where public = public] Q simp: settled_def same_view_def)
    qed (use restored [OF u(1), of None] y in simp)
  qed (use restored in simp)
qed

lemma after_quarantineStale:
  assumes s: "calm public s"
    and Q: "\<And>r t. orderly {stale} public s t \<Longrightarrow>
      (r = None \<longrightarrow> (\<forall>q x. Renamed public q x \<in> set (drop (length (fs_log s)) (fs_log t)) \<longrightarrow> x = stale)) \<Longrightarrow> Q r t"
  shows "after s (quarantineStale public stale) Q"
  unfolding quarantineStale_def after_bind
proof (rule after_MkdirTemp [OF s], goal_cases)
  case (2 e t)
  then show ?case by (auto intro!: Q simp: orderly_def same_view_def taken_kept_def)
next
  case t: (3 d t)
  show ?case unfolding sum.case after_bind
  proof (rule after_Rename [OF t(1,6)], goal_cases)
    case (1 e u)
    then show ?case using t
      by (auto simp: same_view_def orderly_def taken_kept_def intro!: after_Remove [where public = public] Q)
  next
    case u: (2 x u)
    show ?case unfolding sum.case
    proof (rule after_checkQuarantined [OF u(1) t(6,7,5), where x = x], goal_cases)
      case v: (3 r v)
      then obtain evs where e: "fs_log v = fs_log u @ evs" "justified {Directory, stale} evs" "\<forall>q y. Renamed public q y \<notin> set evs"
        "x = stale \<or> priv public v (quarantine_of d) = Some x \<or> Linked public x \<in> set evs"
        and v1: "calm public v" "held v = held u" "\<forall>p. p \<noteq> d \<longrightarrow> p \<noteq> quarantine_of d \<longrightarrow> priv public v p = priv public u p"
        by (auto simp: settled_def)
      have "orderly {stale} public s v" unfolding orderly_def
      proof (intro conjI exI [of _ "Renamed public (quarantine_of d) x # evs"] allI impI)
        fix p assume "priv public s p \<noteq> None"
        then have "p \<noteq> d" "p \<noteq> quarantine_of d" using t by auto
        then show "priv public v p = priv public s p" using v1(3) u(2) t(2) by simp
      qed (use e v1 u t in \<open>auto simp: taken_kept_def\<close>)
      then show ?case by (rule Q) (use e v(2) u t in auto)
    qed (use u t in auto)
  qed
qed simp

lemma taken_kept_names: "taken_kept ok (priv public t) public l \<Longrightarrow> taken_kept ok (fs_names t) public l"
  by (auto simp: taken_kept_def priv_def split: if_splits)

lemma taken_kept_mono:
  assumes "taken_kept ok nm public l" "\<And>q x. Renamed public q x \<in> set l' \<Longrightarrow> Renamed public q x \<in> set l"
    and "set l \<subseteq> set l'" "\<And>q x. nm q = Some x \<Longrightarrow> Renamed public q x \<in> set l \<Longrightarrow> nm' q = Some x"
  shows "taken_kept ok nm' public l'"
  using assms unfolding taken_kept_def by blast

definition stale_nodes :: "node option \<Rightarrow> node set" where
  "stale_nodes staleInfo = set_option staleInfo"

lemma after_stale:
  assumes s: "calm public s"
    and Q: "\<And>r t. orderly (stale_nodes staleInfo) public s t \<Longrightarrow>
      (r = None \<longrightarrow> (\<forall>q x. Renamed public q x \<in> set (drop (length (fs_log s)) (fs_log t)) \<longrightarrow> x \<in> stale_nodes staleInfo)) \<Longrightarrow> Q r t"
  shows "after s (case staleInfo of None \<Rightarrow> State_Monad.return None | Some stale \<Rightarrow> quarantineStale public stale) Q"
proof (cases staleInfo)
  case None
  then show ?thesis using s by (auto intro!: Q simp: orderly_def taken_kept_def)
next
  case (Some stale)
  then show ?thesis using Q by (auto intro!: after_quarantineStale [OF s] simp: stale_nodes_def)
qed

text \<open>What \<open>installStagedSocket\<close> does to the file system, whatever the others do and whichever call fails.\<close>

definition installed :: "string \<Rightarrow> string \<Rightarrow> node \<Rightarrow> node option \<Rightarrow> fsys \<Rightarrow> install_error option \<Rightarrow> fsys \<Rightarrow> bool" where
  "installed staged public own staleInfo s r t \<longleftrightarrow> calm public t \<and> held t = held s \<and>
     (\<exists>evs. fs_log t = fs_log s @ evs \<and>
       ((\<forall>e. r \<noteq> Some (RemoveStagedFailed e)) \<longrightarrow> justified (insert own (insert Directory (stale_nodes staleInfo))) evs) \<and>
       taken_kept (stale_nodes staleInfo) (priv public t) public evs \<and>
       (r = None \<longrightarrow> Linked public own \<in> set evs \<and> priv public t staged = None \<and>
         (\<forall>q x. Renamed public q x \<in> set evs \<longrightarrow> x \<in> stale_nodes staleInfo)) \<and>
       (r \<noteq> None \<longrightarrow> priv public t staged = Some own))"

lemma after_installStagedSocket:
  assumes s: "calm public s" "staged \<noteq> public" "priv public s staged = Some own"
    and Q: "\<And>r t. installed staged public own staleInfo s r t \<Longrightarrow> Q r t"
  shows "after s (installStagedSocket staged public staleInfo) Q"
  unfolding installStagedSocket_def after_bind
proof (rule after_stale [OF s(1)], goal_cases)
  case q: (1 r t)
  then obtain evs where t: "calm public t" "held t = held s" "priv public t staged = Some own" "fs_log t = fs_log s @ evs"
    "justified (insert Directory (stale_nodes staleInfo)) evs" "taken_kept (stale_nodes staleInfo) (priv public t) public evs"
    using s by (auto simp: orderly_def)
  have ok: "justified (insert own (insert Directory (stale_nodes staleInfo))) evs" by (rule justified_mono [OF t(5)]) auto
  show ?case
  proof (cases r)
    case (Some e)
    then show ?thesis using t ok by (auto intro!: Q simp: installed_def intro: justified_mono)
  next
    case None
    then have st: "\<forall>q x. Renamed public q x \<in> set evs \<longrightarrow> x \<in> stale_nodes staleInfo" using q(2) t(4) by simp
    show ?thesis unfolding None option.case after_bind
    proof (rule after_Link [OF t(1) s(2)], goal_cases)
      case (1 e u)
      then show ?case using t ok by (auto intro!: Q simp: installed_def same_view_def)
    next
      case u: (2 n u)
      then have own: "own = Inode n" using t(3) by simp
      have ok': "justified (insert own (insert Directory (stale_nodes staleInfo))) (evs @ [Linked public own, Unlinked staged own])"
        by (rule justified_append [OF ok]) simp
      show ?case unfolding sum.case after_bind
      proof (rule after_Remove [OF u(1)], goal_cases)
        case v: (1 e v)
        show ?case unfolding sum.case after_bind
          by (rule after_Remove [where public = public])
            (use v u t own st s in \<open>auto intro!: Q simp: installed_def same_view_def taken_kept_def\<close>)
      next
        case (2 x v)
        then show ?case using u t own st ok' s by (auto intro!: Q simp: installed_def taken_kept_def)
      qed
    qed
  qed
qed

lemma after_removeOwnedSocket:
  assumes s: "calm public s"
    and Q: "\<And>t. orderly {own} public s t \<Longrightarrow> Q () t"
  shows "after s (removeOwnedSocket public own) Q"
  unfolding removeOwnedSocket_def after_bind
proof (rule after_MkdirTemp [OF s], goal_cases)
  case (2 e t)
  then show ?case by (auto intro!: Q simp: orderly_def same_view_def taken_kept_def)
next
  case t: (3 d t)
  show ?case unfolding sum.case after_bind
  proof (rule after_Rename [OF t(1,6)], goal_cases)
    case (1 e u)
    then show ?case using t
      by (auto simp: same_view_def orderly_def taken_kept_def intro!: after_Remove [where public = public] Q)
  next
    case u: (2 x u)
    have restored: "after v (restorePathNoReplace (quarantine_of d) public) (\<lambda>restored w. after w (case restored of
        Inr _ \<Rightarrow> State_Monad.bind (os_Remove d) (\<lambda>_. State_Monad.return ()) | Inl _ \<Rightarrow> State_Monad.return ()) Q)"
      if v: "same_view public u v" for v
      by (rule after_restore [where x = x])
        (use v u t in \<open>auto intro!: after_Remove [where public = public] Q simp: orderly_def same_view_def taken_kept_def\<close>)
    show ?case unfolding sum.case after_bind
    proof (rule after_Lstat [OF u(1) t(6)], goal_cases)
      case v: (2 y v)
      then have y: "y = x" using u by simp
      show ?case
      proof (cases "x = own")
        case True
        then show ?thesis using v u t y
          by (auto intro!: after_Remove [where public = public] Q simp: orderly_def same_view_def taken_kept_def)
      qed (use restored [OF v(1)] y in simp)
    qed (use restored in simp)
  qed
qed simp

section \<open>Without interference\<close>

definition quiet :: "fsys \<Rightarrow> bool" where
  "quiet s \<longleftrightarrow> fs_others s = (\<lambda>_ nm. nm) \<and> fs_fault s = (\<lambda>_. None)"

text \<open>The name of the next private directory is free, as is the name in it.\<close>

definition room :: "string \<Rightarrow> string \<Rightarrow> fsys \<Rightarrow> bool" where
  "room public prefix s \<longleftrightarrow> (let d = temp_name (path_dir public) prefix (fs_random s (Suc (fs_calls s))) in
     fs_names s d = None \<and> fs_names s (quarantine_of d) = None)"

lemma run_quiet:
  "quiet s \<Longrightarrow> run_state (sys_do f) s = (let u = s\<lparr>fs_calls := Suc (fs_calls s)\<rparr> in case f u of Inl e \<Rightarrow> (Inl e, u) | Inr (a, t) \<Rightarrow> (Inr a, t))"
  by (simp add: run_sys_do quiet_def Let_def)

lemma quiet_simps [simp]:
  "quiet (set_name p x s) = quiet s" "quiet (record_event ev s) = quiet s" "quiet (s\<lparr>fs_calls := n\<rparr>) = quiet s"
  "fs_names (set_name p x s) = (fs_names s)(p := x)" "fs_names (record_event ev s) = fs_names s"
  by (simp_all add: quiet_def set_name_def record_event_def)

lemmas os_defs = os_Lstat_def os_Link_def os_Rename_def os_Remove_def os_MkdirTemp_def

lemma installStagedSocket_quiet:
  assumes "quiet s" "calm public s" "room public ''.cg-install-'' s" "staged \<noteq> public"
    and "fs_names s staged = Some (Inode k)" "fs_names s public = staleInfo" "staleInfo \<noteq> Some Directory"
  shows "fst (run_state (installStagedSocket staged public staleInfo) s) = None \<and>
    quiet (snd (run_state (installStagedSocket staged public staleInfo) s)) \<and>
    fs_names (snd (run_state (installStagedSocket staged public staleInfo) s)) = (fs_names s)(public \<mapsto> Inode k, staged := None)"
proof (cases staleInfo)
  case None
  then show ?thesis using assms by (simp add: installStagedSocket_def os_defs run_quiet Let_def)
next
  case (Some x)
  define d where "d = temp_name (path_dir public) ''.cg-install-'' (fs_random s (Suc (fs_calls s)))"
  have free: "fs_names s d = None" "fs_names s (quarantine_of d) = None" using assms(3) by (simp_all add: room_def d_def Let_def)
  have ne: "d \<noteq> public" "quarantine_of d \<noteq> public" "quarantine_of d \<noteq> d"
    using assms(2) unfolding calm_def d_def Let_def by blast+
  have "staged \<noteq> d" "staged \<noteq> quarantine_of d" using free assms(5) by auto
  then show ?thesis using assms Some free ne
    by (auto simp: installStagedSocket_def quarantineStale_def checkQuarantined_def os_defs run_quiet Let_def fun_eq_iff simp flip: d_def)
qed

lemma removeOwnedSocket_quiet:
  assumes "quiet s" "calm public s" "room public ''.cg-clean-'' s" "fs_names s public = Some (Inode k)"
  shows "fs_names (snd (run_state (removeOwnedSocket public own) s)) =
    (if own = Inode k then (fs_names s)(public := None) else fs_names s)"
proof -
  define d where "d = temp_name (path_dir public) ''.cg-clean-'' (fs_random s (Suc (fs_calls s)))"
  have free: "fs_names s d = None" "fs_names s (quarantine_of d) = None" using assms(3) by (simp_all add: room_def d_def Let_def)
  have ne: "d \<noteq> public" "quarantine_of d \<noteq> public" "quarantine_of d \<noteq> d"
    using assms(2) unfolding calm_def d_def Let_def by blast+
  show ?thesis using assms free ne
    by (auto simp: removeOwnedSocket_def restorePathNoReplace_def os_defs run_quiet Let_def fun_eq_iff simp flip: d_def)
qed

section \<open>Properties\<close>


text \<open>C23: releasing the path never destroys what belongs to another process either: a socket that replaced this
  process's one is put back or stays in the quarantine. Without interference the owner frees the
  name, and any other node keeps it.\<close>

theorem removeOwnedSocket_safe:
  assumes "calm public s" "fs_log s = []" "run_state (removeOwnedSocket public own) s = ((), t)"
  shows "taken_kept {own} (fs_names t) public (fs_log t) \<and> justified {own, Directory} (fs_log t) \<and>
    (quiet s \<and> room public ''.cg-clean-'' s \<and> fs_names s public = Some (Inode k) \<longrightarrow>
      fs_names t = (if own = Inode k then (fs_names s)(public := None) else fs_names s))"
proof -
  from afterD [OF after_removeOwnedSocket [OF assms(1)] assms(3), of "\<lambda>_. orderly {own} public s"]
  have "orderly {own} public s t" by blast
  then have "taken_kept {own} (fs_names t) public (fs_log t) \<and> justified {own, Directory} (fs_log t)"
    using assms(2) taken_kept_names by (auto simp: orderly_def insert_commute)
  then show ?thesis using removeOwnedSocket_quiet [OF _ assms(1), of k own] assms(3) by auto
qed

text \<open>Publishing and releasing without interference: a stale socket is replaced, a free name is taken, and
  releasing the path then leaves it free, with no staged name and no private directory left behind.\<close>

theorem publication_roundtrip:
  assumes "quiet s" "calm public s" "room public ''.cg-install-'' s" "staged \<noteq> public"
    and "fs_names s staged = Some (Inode k)" "fs_names s public = staleInfo" "staleInfo \<noteq> Some Directory"
    and "run_state (installStagedSocket staged public staleInfo) s = (r, t)"
    and "room public ''.cg-clean-'' t" "run_state (removeOwnedSocket public (Inode k)) t = ((), u)"
  shows "r = None \<and> fs_names t = (fs_names s)(public \<mapsto> Inode k, staged := None) \<and>
    fs_names u = (fs_names s)(public := None, staged := None)"
proof -
  have t: "r = None" "fs_names t = (fs_names s)(public \<mapsto> Inode k, staged := None)" "quiet t"
    using installStagedSocket_quiet [OF assms(1-7)] assms(8) by auto
  have "priv public s staged = Some (Inode k)" using assms(4,5) by (simp add: priv_def)
  from afterD [OF after_installStagedSocket [OF assms(2,4) this] assms(8), of "installed staged public (Inode k) staleInfo s"]
  have calm: "calm public t" by (simp add: installed_def)
  show ?thesis using t removeOwnedSocket_quiet [OF t(3) calm assms(9), of k "Inode k"] assms(4,10) by (auto simp: fun_upd_twist)
qed

text \<open>
  The exception in the first property is real: when the staged name cannot be removed, the
  publication is rolled back by removing the public name, without looking at what it leads to.
  A socket that another process published in between is unlinked.
\<close>

definition raced_fs :: "fsys" where
  "raced_fs = \<lparr>fs_names = [''/r/c.sock'' \<mapsto> Inode 1, ''/r/.cg-7'' \<mapsto> Inode 2], fs_calls = 0,
     fs_others = (\<lambda>n nm. if n = 1 then nm(''/r/c.sock'' \<mapsto> Inode 9) else nm), fs_fault = (\<lambda>_. None), fs_random = (\<lambda>_. ''7''),
     fs_socket = (\<lambda>_. True), fs_live = (\<lambda>_. False), fs_nextInode = 3, fs_listening = True, fs_locked = True, fs_log = []\<rparr>"

definition rollback_fs :: "fsys" where
  "rollback_fs = raced_fs\<lparr>fs_names := [''/r/.cg-7'' \<mapsto> Inode 2], fs_fault := (\<lambda>n. if n = 1 then Some EIO else None),
     fs_others := (\<lambda>n nm. if n = 2 then nm(''/r/c.sock'' \<mapsto> Inode 9) else nm)\<rparr>"

lemma rollback_unlinks_foreign:
  "fst (run_state (installStagedSocket ''/r/.cg-7'' ''/r/c.sock'' None) rollback_fs) = Some (RemoveStagedFailed EIO) \<and>
   Unlinked ''/r/c.sock'' (Inode 9) \<in> set (fs_log (snd (run_state (installStagedSocket ''/r/.cg-7'' ''/r/c.sock'' None) rollback_fs)))"
  by code_simp

section \<open>Witnesses\<close>

lemma sample_paths:
  "path_dir ''/r/c.sock'' = ''/r''" "quarantine_of ''/r/.cg-install-7'' = ''/r/.cg-install-7/socket''"
  "quarantine_of ''/r/.cg-clean-7'' = ''/r/.cg-clean-7/socket''" "path_join ''/r'' ''.cg-7'' = ''/r/.cg-7''"
  by code_simp+

lemma calm_sample:
  "calm ''/r/c.sock'' raced_fs" "calm ''/r/c.sock'' (raced_fs\<lparr>fs_others := (\<lambda>_ nm. nm)\<rparr>)"
  by (auto simp: calm_def raced_fs_def sample_paths temp_name_def Let_def)


theorem removeOwnedSocket_safe_witness:
  "justified {Inode 1, Directory} (fs_log (snd (run_state (removeOwnedSocket ''/r/c.sock'' (Inode 1)) raced_fs))) \<and>
   fs_names (snd (run_state (removeOwnedSocket ''/r/c.sock'' (Inode 1)) raced_fs)) ''/r/c.sock'' = Some (Inode 9)"
proof -
  let ?x = "run_state (removeOwnedSocket ''/r/c.sock'' (Inode 1)) raced_fs"
  have "fs_log raced_fs = []" by (simp add: raced_fs_def)
  moreover have "?x = ((), snd ?x)" by (simp add: prod_eq_iff)
  ultimately have "justified {Inode 1, Directory} (fs_log (snd ?x))"
    using removeOwnedSocket_safe [OF calm_sample(1), of "Inode 1" "snd ?x" 9] by blast
  moreover have "fs_names (snd ?x) ''/r/c.sock'' = Some (Inode 9)" by code_simp
  ultimately show ?thesis by blast
qed

definition quiet_fs :: "fsys" where
  "quiet_fs = raced_fs\<lparr>fs_others := (\<lambda>_ nm. nm)\<rparr>"

definition published_fs :: "fsys" where
  "published_fs = snd (run_state (installStagedSocket ''/r/.cg-7'' ''/r/c.sock'' (Some (Inode 1))) quiet_fs)"

theorem publication_roundtrip_witness:
  "fs_names published_fs = (fs_names quiet_fs)(''/r/c.sock'' \<mapsto> Inode 2, ''/r/.cg-7'' := None) \<and>
   fs_names (snd (run_state (removeOwnedSocket ''/r/c.sock'' (Inode 2)) published_fs)) =
     (fs_names quiet_fs)(''/r/c.sock'' := None, ''/r/.cg-7'' := None)"
proof -
  let ?x = "run_state (installStagedSocket ''/r/.cg-7'' ''/r/c.sock'' (Some (Inode 1))) quiet_fs"
  let ?y = "run_state (removeOwnedSocket ''/r/c.sock'' (Inode 2)) published_fs"
  have q: "quiet quiet_fs" "calm ''/r/c.sock'' quiet_fs" using calm_sample(2) by (simp_all add: quiet_def quiet_fs_def) (simp add: raced_fs_def)
  have n: "fs_names quiet_fs ''/r/.cg-7'' = Some (Inode 2)" "fs_names quiet_fs ''/r/c.sock'' = Some (Inode 1)"
    by (simp_all add: quiet_fs_def raced_fs_def)
  have r: "room ''/r/c.sock'' ''.cg-install-'' quiet_fs" "room ''/r/c.sock'' ''.cg-clean-'' published_fs" by code_simp+
  have "?x = (fst ?x, published_fs)" by (simp add: published_fs_def)
  moreover have "?y = ((), snd ?y)" by (simp add: prod_eq_iff)
  ultimately show ?thesis using publication_roundtrip [OF q r(1) _ n _ _ r(2), of "fst ?x" "snd ?y"] by simp
qed

end
