(* ===== verification/Control_Start.thy ===== *)
theory Control_Start
  imports Control_Publication Core_Types
begin

unbundle bit_operations_syntax

text \<open>
  Starting and releasing the control socket (\<^verbatim>\<open>src/internal/mcp/control.go\<close>, \<^verbatim>\<open>control_runtime.go\<close>,
  \<^verbatim>\<open>control_publication.go\<close>, \<^verbatim>\<open>control_platform_unix.go\<close>): the private runtime directory, the
  ownership lock, the probe of an existing socket, the staged listener, its publication, and the
  clean-up. What the host says about directories is the parameter \<open>host_dirs\<close>; the hexadecimal
  SHA-256 digest is the parameter \<open>sha\<close>.
\<close>

section \<open>The runtime directory\<close>

record dir_info =
  di_IsDir :: bool
  di_Perm :: "32 word"
  di_Uid :: "32 word"

record host_dirs =
  hd_XDG :: string
  hd_UserCacheDir :: "string option"
  hd_Geteuid :: "32 word"
  hd_Lstat :: "string \<Rightarrow> errno + dir_info"
  hd_MkdirAll :: "string \<Rightarrow> errno option"
  hd_Mkdir :: "string \<Rightarrow> errno option"
  hd_LockInfo :: "string \<Rightarrow> errno + bool \<times> dir_info"

datatype dir_error =
    NoRuntimeBase
  | UnsafeXDG string dir_error
  | CreatingCache errno
  | UnsafeCache string dir_error
  | MkdirRuntime errno
  | LstatFailed errno
  | NotADirectory
  | AllowsAccess "32 word"
  | NotOwned

definition is_abs :: "string \<Rightarrow> bool" where
  "is_abs p \<longleftrightarrow> has_prefix p ''/''"

definition controlRuntimeDir :: "host_dirs \<Rightarrow> string" where
  "controlRuntimeDir h =
     (if hd_XDG h \<noteq> [] \<and> is_abs (hd_XDG h) then path_join (hd_XDG h) ''portoland''
      else (case hd_UserCacheDir h of
         Some cache \<Rightarrow> if is_abs cache then path_join cache ''portoland-runtime'' else []
       | None \<Rightarrow> []))"

definition SocketPath :: "(string \<Rightarrow> string) \<Rightarrow> host_dirs \<Rightarrow> Config \<Rightarrow> string" where
  "SocketPath sha h cfg =
     (if cfg_ControlSocket cfg \<noteq> [] then cfg_ControlSocket cfg
      else if controlRuntimeDir h = [] then []
      else path_join (controlRuntimeDir h) (''portoland-'' @ take 12 (sha (cfg_ProjectRoot cfg)) @ ''.sock''))"

definition ownershipLockPath :: "(string \<Rightarrow> string) \<Rightarrow> host_dirs \<Rightarrow> string \<Rightarrow> string" where
  "ownershipLockPath sha h socketPath = path_join (controlRuntimeDir h) (''lock-'' @ take 24 (sha socketPath))"

definition ownedByEffectiveUser :: "host_dirs \<Rightarrow> dir_info \<Rightarrow> bool" where
  "ownedByEffectiveUser h info \<longleftrightarrow> di_Uid info = hd_Geteuid h"

text \<open>\<^verbatim>\<open>0o022\<close> is 18 and \<^verbatim>\<open>0o077\<close> is 63.\<close>

definition validateUserOwnedDir :: "host_dirs \<Rightarrow> string \<Rightarrow> dir_error option" where
  "validateUserOwnedDir h path =
     (case hd_Lstat h path of
        Inl e \<Rightarrow> Some (LstatFailed e)
      | Inr info \<Rightarrow>
          if \<not> di_IsDir info then Some NotADirectory
          else if di_Perm info AND 18 \<noteq> 0 then Some (AllowsAccess (di_Perm info))
          else if \<not> ownedByEffectiveUser h info then Some NotOwned
          else None)"

definition validatePrivateDir :: "host_dirs \<Rightarrow> string \<Rightarrow> dir_error option" where
  "validatePrivateDir h path =
     (case hd_Lstat h path of
        Inl e \<Rightarrow> Some (LstatFailed e)
      | Inr info \<Rightarrow>
          if \<not> di_IsDir info then Some NotADirectory
          else if di_Perm info AND 63 \<noteq> 0 then Some (AllowsAccess (di_Perm info))
          else if \<not> ownedByEffectiveUser h info then Some NotOwned
          else None)"

text \<open>The checks of the parent of the runtime directory, which may create the cache directory.\<close>

definition checkRuntimeBase :: "host_dirs \<Rightarrow> dir_error option" where
  "checkRuntimeBase h =
     (if hd_XDG h \<noteq> [] \<and> is_abs (hd_XDG h)
      then map_option (UnsafeXDG (hd_XDG h)) (validatePrivateDir h (hd_XDG h))
      else (case hd_UserCacheDir h of
         Some cache \<Rightarrow>
           if is_abs cache then
             (case hd_MkdirAll h cache of
                Some e \<Rightarrow> Some (CreatingCache e)
              | None \<Rightarrow> map_option (UnsafeCache cache) (validateUserOwnedDir h cache))
           else None
       | None \<Rightarrow> None))"

definition ensureControlRuntimeDir :: "host_dirs \<Rightarrow> dir_error option" where
  "ensureControlRuntimeDir h =
     (let dir = controlRuntimeDir h in
      if dir = [] then Some NoRuntimeBase
      else (case checkRuntimeBase h of
         Some err \<Rightarrow> Some err
       | None \<Rightarrow>
           (case hd_Mkdir h dir of
              None \<Rightarrow> validatePrivateDir h dir
            | Some e \<Rightarrow> if \<not> os_IsExist (PathError e) then Some (MkdirRuntime e) else validatePrivateDir h dir)))"

section \<open>Starting\<close>

datatype start_error =
    NilContext
  | PreparingRuntimeDir dir_error
  | UnsafeSocketDir dir_error
  | OpeningLock errno
  | LockNotPrivate
  | AlreadyOwned
  | Locking errno
  | Inspecting errno
  | NotASocket
  | LiveListener
  | Probing errno
  | Listening go_error
  | NoStagedName
  | Chmod errno
  | Installing install_error

definition openOwnershipLock :: "host_dirs \<Rightarrow> string \<Rightarrow> (start_error + unit) io" where
  "openOwnershipLock h lockPath = do {
     fault \<leftarrow> sys_call;
     State_Monad.return (case fault of
        Some e \<Rightarrow> Inl (OpeningLock e)
      | None \<Rightarrow>
          (case hd_LockInfo h lockPath of
             Inl e \<Rightarrow> Inl (OpeningLock e)
           | Inr (regular, info) \<Rightarrow>
               if \<not> regular \<or> \<not> ownedByEffectiveUser h info \<or> di_Perm info AND 63 \<noteq> 0 then Inl LockNotPrivate else Inr ())) }"

definition isLockBusy :: "errno \<Rightarrow> bool" where
  "isLockBusy e \<longleftrightarrow> e = EWOULDBLOCK \<or> e = EAGAIN"

definition tryLockFile :: "(errno + unit) io" where
  "tryLockFile = sys_do (\<lambda>s. Inr ((), s\<lparr>fs_locked := True\<rparr>))"

definition releaseLock :: "unit io" where
  "releaseLock = State (\<lambda>s. ((), s\<lparr>fs_locked := False\<rparr>))"

definition closeListener :: "unit io" where
  "closeListener = State (\<lambda>s. ((), s\<lparr>fs_listening := False\<rparr>))"

definition confirmedStaleSocket :: "go_error \<Rightarrow> bool" where
  "confirmedStaleSocket err \<longleftrightarrow> errnoOf err \<in> {ECONNREFUSED, ENOENT, ECONNRESET, ENOTCONN}"

definition net_Dial :: "string \<Rightarrow> (errno + unit) io" where
  "net_Dial p = sys_do (\<lambda>s. case fs_names s p of
      None \<Rightarrow> Inl ENOENT
    | Some Directory \<Rightarrow> Inl ECONNREFUSED
    | Some (Inode n) \<Rightarrow> if fs_live s n then Inr ((), s) else Inl ECONNREFUSED)"

definition isSocketNode :: "node \<Rightarrow> fsys \<Rightarrow> bool" where
  "isSocketNode x s = (case x of Directory \<Rightarrow> False | Inode n \<Rightarrow> fs_socket s n)"

definition preparePath :: "string \<Rightarrow> (start_error + node option) io" where
  "preparePath path = do {
     info \<leftarrow> os_Lstat path;
     s \<leftarrow> State_Monad.get;
     case info of
       Inl e \<Rightarrow> State_Monad.return (if os_IsNotExist (PathError e) then Inr None else Inl (Inspecting e))
     | Inr x \<Rightarrow>
         if \<not> isSocketNode x s then State_Monad.return (Inl NotASocket)
         else do {
           dialed \<leftarrow> net_Dial path;
           State_Monad.return (case dialed of
              Inr _ \<Rightarrow> Inl LiveListener
            | Inl e \<Rightarrow> if \<not> confirmedStaleSocket (OpError e) then Inl (Probing e) else Inr (Some x)) } }"

text \<open>A listener binds a new socket inode to its path.\<close>

definition net_Listen :: "string \<Rightarrow> (errno + unit) io" where
  "net_Listen p = sys_do (\<lambda>s.
     if fs_names s p \<noteq> None then Inl EADDRINUSE
     else Inr ((), set_name p (Some (Inode (fs_nextInode s)))
       (s\<lparr>fs_nextInode := Suc (fs_nextInode s), fs_listening := True\<rparr>)))"

definition rand_hex :: "string io" where
  "rand_hex = State (\<lambda>s. (fs_random s (fs_calls s), s))"

fun listenStagedTries :: "nat \<Rightarrow> string \<Rightarrow> (start_error + string \<times> node) io" where
  "listenStagedTries 0 dir = State_Monad.return (Inl NoStagedName)"
| "listenStagedTries (Suc n) dir = do {
     random \<leftarrow> rand_hex;
     let stagedPath = path_join dir (''.cg-'' @ random);
     ln \<leftarrow> net_Listen stagedPath;
     case ln of
       Inl e \<Rightarrow> if os_IsExist (OpError e) then listenStagedTries n dir else State_Monad.return (Inl (Listening (OpError e)))
     | Inr _ \<Rightarrow> do {
         info \<leftarrow> os_Lstat stagedPath;
         case info of
           Inl e \<Rightarrow> do {
             _ \<leftarrow> closeListener;
             _ \<leftarrow> os_Remove stagedPath;
             State_Monad.return (Inl (Listening (PathError e))) }
         | Inr x \<Rightarrow> State_Monad.return (Inr (stagedPath, x)) } }"

definition listenStaged :: "string \<Rightarrow> (start_error + string \<times> node) io" where
  "listenStaged path = listenStagedTries 8 (path_dir path)"

definition os_Chmod :: "string \<Rightarrow> (errno + unit) io" where
  "os_Chmod p = sys_do (\<lambda>s. if fs_names s p = None then Inl ENOENT else Inr ((), s))"

text \<open>Undoing a staged listener: close it, remove its name, release the lock.\<close>

definition dropStaged :: "string \<Rightarrow> unit io" where
  "dropStaged stagedPath = do {
     _ \<leftarrow> closeListener;
     _ \<leftarrow> os_Remove stagedPath;
     releaseLock }"

text \<open>\<open>Start\<close> once it owns the lock.\<close>

definition publishSocket :: "string \<Rightarrow> (start_error + node) io" where
  "publishSocket path = do {
     prepared \<leftarrow> preparePath path;
     case prepared of
       Inl err \<Rightarrow> do { _ \<leftarrow> releaseLock; State_Monad.return (Inl err) }
     | Inr staleInfo \<Rightarrow> do {
         staged \<leftarrow> listenStaged path;
         case staged of
           Inl err \<Rightarrow> do { _ \<leftarrow> releaseLock; State_Monad.return (Inl err) }
         | Inr (stagedPath, stagedInfo) \<Rightarrow> do {
             mode \<leftarrow> os_Chmod stagedPath;
             case mode of
               Inl e \<Rightarrow> do { _ \<leftarrow> dropStaged stagedPath; State_Monad.return (Inl (Chmod e)) }
             | Inr _ \<Rightarrow> do {
                 failed \<leftarrow> installStagedSocket stagedPath path staleInfo;
                 case failed of
                   Some err \<Rightarrow> do { _ \<leftarrow> dropStaged stagedPath; State_Monad.return (Inl (Installing err)) }
                 | None \<Rightarrow> State_Monad.return (Inr stagedInfo) } } } }"

definition Start :: "(string \<Rightarrow> string) \<Rightarrow> host_dirs \<Rightarrow> bool \<Rightarrow> string \<Rightarrow> (start_error + node) io" where
  "Start sha h nilContext path =
     (if nilContext then State_Monad.return (Inl NilContext)
      else case ensureControlRuntimeDir h of
        Some err \<Rightarrow> State_Monad.return (Inl (PreparingRuntimeDir err))
      | None \<Rightarrow>
          (case validateUserOwnedDir h (path_dir path) of
             Some err \<Rightarrow> State_Monad.return (Inl (UnsafeSocketDir err))
           | None \<Rightarrow> do {
               opened \<leftarrow> openOwnershipLock h (ownershipLockPath sha h path);
               case opened of
                 Inl err \<Rightarrow> State_Monad.return (Inl err)
               | Inr _ \<Rightarrow> do {
                   locked \<leftarrow> tryLockFile;
                   case locked of
                     Inl e \<Rightarrow> State_Monad.return (Inl (if isLockBusy e then AlreadyOwned else Locking e))
                   | Inr _ \<Rightarrow> publishSocket path } }))"

text \<open>The clean-up that \<^verbatim>\<open>Wait\<close> runs once.\<close>

definition cleanup :: "string \<Rightarrow> node option \<Rightarrow> unit io" where
  "cleanup path socketInfo = do {
     _ \<leftarrow> (case socketInfo of None \<Rightarrow> State_Monad.return () | Some info \<Rightarrow> removeOwnedSocket path info);
     releaseLock }"

section \<open>The lock and the listener\<close>

lemma after_call [sys_rules]:
  assumes "calm public s" "\<And>e t. same_view public s t \<Longrightarrow> Q e t"
  shows "after s sys_call Q"
  using assms(2) [OF interference [OF assms(1)]] by (simp add: after_def sys_call_def)

lemma after_Lstat_any:
  assumes "calm public s" "\<And>r t. same_view public s t \<Longrightarrow> Q r t"
  shows "after s (os_Lstat p) Q"
  unfolding os_Lstat_def by (rule after_sys_do [OF assms(1)]) (auto intro!: assms(2) split: option.splits)

lemma after_Dial [sys_rules]:
  assumes "calm public s" "\<And>r t. same_view public s t \<Longrightarrow> Q r t"
  shows "after s (net_Dial p) Q"
  unfolding net_Dial_def
  by (rule after_sys_do [OF assms(1)]) (auto intro!: assms(2) split: option.splits node.splits if_splits)

lemma after_Chmod [sys_rules]:
  assumes "calm public s" "\<And>r t. same_view public s t \<Longrightarrow> Q r t"
  shows "after s (os_Chmod p) Q"
  unfolding os_Chmod_def by (rule after_sys_do [OF assms(1)]) (auto intro!: assms(2) split: if_splits)

lemma calm_flags [simp]:
  "calm public (s\<lparr>fs_locked := b\<rparr>) = calm public s" "calm public (s\<lparr>fs_listening := b\<rparr>) = calm public s"
  "priv public (s\<lparr>fs_locked := b\<rparr>) = priv public s" "priv public (s\<lparr>fs_listening := b\<rparr>) = priv public s"
  "held (s\<lparr>fs_locked := b\<rparr>) = (b, snd (held s))" "held (s\<lparr>fs_listening := b\<rparr>) = (fst (held s), b)"
  by (simp_all add: calm_def priv_def held_def)

lemma after_closeListener [simp]: "after s closeListener Q = Q () (s\<lparr>fs_listening := False\<rparr>)"
  by (simp add: after_def closeListener_def)

lemma after_releaseLock [simp]: "after s releaseLock Q = Q () (s\<lparr>fs_locked := False\<rparr>)"
  by (simp add: after_def releaseLock_def)

lemma after_tryLockFile [sys_rules]:
  assumes "calm public s" "\<And>e t. same_view public s t \<Longrightarrow> Q (Inl e) t"
    and "\<And>t. calm public t \<Longrightarrow> priv public t = priv public s \<Longrightarrow> fs_log t = fs_log s \<Longrightarrow> held t = (True, snd (held s)) \<Longrightarrow> Q (Inr ()) t"
  shows "after s tryLockFile Q"
  unfolding tryLockFile_def by (rule after_sys_do [OF assms(1)]) (auto intro!: assms(2,3) simp: same_view_def)

lemma after_Listen [sys_rules]:
  assumes "calm public s" "p \<noteq> public" "\<And>e t. same_view public s t \<Longrightarrow> Q (Inl e) t"
    and "\<And>x t. calm public t \<Longrightarrow> priv public t = (priv public s)(p \<mapsto> x) \<Longrightarrow> fs_log t = fs_log s \<Longrightarrow> held t = (fst (held s), True) \<Longrightarrow> Q (Inr ()) t"
  shows "after s (net_Listen p) Q"
  unfolding net_Listen_def
proof (rule after_sys_do [OF assms(1)], goal_cases)
  case (2 u a t)
  then have "t = set_name p (Some (Inode (fs_nextInode u))) (u\<lparr>fs_nextInode := Suc (fs_nextInode u), fs_listening := True\<rparr>)"
    by (simp split: if_splits)
  moreover have "calm public (u\<lparr>fs_nextInode := n, fs_listening := True\<rparr>) = calm public u"
    "priv public (u\<lparr>fs_nextInode := n, fs_listening := True\<rparr>) = priv public u"
    "held (u\<lparr>fs_nextInode := n, fs_listening := True\<rparr>) = (fst (held u), True)" for n
    by (simp_all add: calm_def priv_def held_def)
  ultimately have "Q (Inr ()) t" using 2 assms(2) by (intro assms(4)) (auto simp: same_view_def)
  then show ?case by simp
qed (rule assms(3))

lemma after_listenStagedTries:
  assumes "calm public s" "snd (held s) = False"
    and "\<And>err t. calm public t \<Longrightarrow> held t = held s \<Longrightarrow> Q (Inl err) t"
    and "\<And>p x t. calm public t \<Longrightarrow> p \<noteq> public \<Longrightarrow> priv public t p = Some x \<Longrightarrow> fs_log t = fs_log s \<Longrightarrow> held t = (fst (held s), True) \<Longrightarrow> Q (Inr (p, x)) t"
  shows "after s (listenStagedTries n (path_dir public)) Q"
  using assms
proof (induction n arbitrary: s)
  case (Suc n)
  have p: "path_join (path_dir public) (''.cg-'' @ fs_random s (fs_calls s)) \<noteq> public" using Suc.prems(1) by (simp add: calm_def)
  have rand: "after s rand_hex R = R (fs_random s (fs_calls s)) s" for R by (simp add: after_def rand_hex_def)
  show ?case unfolding listenStagedTries.simps after_bind rand Let_def
  proof (rule after_Listen [OF Suc.prems(1) p], goal_cases)
    case (1 e t)
    then have t: "calm public t" "held t = held s" "fs_log t = fs_log s" by (simp_all add: same_view_def)
    have "after t (listenStagedTries n (path_dir public)) Q" by (rule Suc.IH [OF t(1)]) (use t Suc.prems in auto)
    then show ?case using Suc.prems(3) t by simp
  next
    case t: (2 y t)
    show ?case unfolding sum.case after_bind
    proof (rule after_Lstat [OF t(1) p], goal_cases)
      case (1 e u)
      then show ?case using Suc.prems t p
        by (auto simp: same_view_def prod_eq_iff intro!: after_Remove [where public = public])
    next
      case (2 x u)
      then show ?case using Suc.prems t p by (auto simp: same_view_def)
    qed
  qed
qed simp

lemma after_dropStaged:
  assumes "calm public s" "\<And>t. held t = (False, False) \<Longrightarrow> Q () t"
  shows "after s (dropStaged p) Q"
  unfolding dropStaged_def using assms
  by (auto simp: same_view_def prod_eq_iff intro!: after_Remove [where public = public])

lemma after_preparePath:
  assumes "calm public s" "\<And>r t. same_view public s t \<Longrightarrow> Q r t"
  shows "after s (preparePath p) Q"
  unfolding preparePath_def after_bind
proof (rule after_Lstat_any [OF assms(1)], goal_cases)
  case (1 r t)
  then have "calm public t" "\<And>u. same_view public t u \<Longrightarrow> same_view public s u" by (auto simp: same_view_def)
  then show ?case using 1 assms(2) by (auto intro!: after_Dial [where public = public] split: sum.splits)
qed

text \<open>A start that fails holds neither the lock nor a listener; one that succeeds holds both and has published its socket.\<close>

definition started :: "string \<Rightarrow> start_error + node \<Rightarrow> fsys \<Rightarrow> bool" where
  "started path r t \<longleftrightarrow> (case r of
     Inl _ \<Rightarrow> held t = (False, False)
   | Inr own \<Rightarrow> held t = (True, True) \<and> Linked path own \<in> set (fs_log t))"

lemma after_publishSocket:
  assumes s: "calm path s" "held s = (True, False)"
  shows "after s (publishSocket path) (started path)"
  unfolding publishSocket_def after_bind
proof (rule after_preparePath [OF s(1)], goal_cases)
  case (1 prepared t)
  then have t: "calm path t" "held t = (True, False)" using s by (simp_all add: same_view_def)
  show ?case
  proof (cases prepared)
    case (Inr staleInfo)
    show ?thesis unfolding Inr sum.case after_bind listenStaged_def
    proof (rule after_listenStagedTries [OF t(1)], goal_cases)
      case u: (3 p x u)
      show ?case unfolding sum.case prod.case after_bind
      proof (rule after_Chmod [OF u(1)], goal_cases)
        case (1 mode v)
        then have v: "calm path v" "priv path v p = Some x" "held v = (True, True)" using u t by (auto simp: same_view_def)
        show ?case
        proof (cases mode)
          case (Inl e)
          then show ?thesis by (auto simp: started_def intro!: after_dropStaged [OF v(1)])
        next
          case (Inr _)
          show ?thesis unfolding Inr sum.case after_bind
          proof (rule after_installStagedSocket [OF v(1) u(2) v(2), where staleInfo = staleInfo], goal_cases)
            case (1 failed w)
            then show ?case using v
              by (cases failed) (auto simp: installed_def started_def intro!: after_dropStaged [where public = path])
          qed
        qed
      qed
    qed (use t in \<open>auto simp: started_def\<close>)
  qed (use t in \<open>simp add: started_def\<close>)
qed

lemma after_Start:
  assumes s: "calm path s" "held s = (False, False)"
  shows "after s (Start sha h nilContext path) (started path)"
proof -
  let ?opened = "openOwnershipLock h (ownershipLockPath sha h path)"
  have "after s ?opened (\<lambda>opened t. after t (case opened of
      Inl err \<Rightarrow> State_Monad.return (Inl err)
    | Inr _ \<Rightarrow> State_Monad.bind tryLockFile (\<lambda>locked. case locked of
        Inl e \<Rightarrow> State_Monad.return (Inl (if isLockBusy e then AlreadyOwned else Locking e))
      | Inr _ \<Rightarrow> publishSocket path)) (started path))"
    unfolding openOwnershipLock_def after_bind
  proof (rule after_call [OF s(1)], goal_cases)
    case (1 fault t)
    then have t: "calm path t" "held t = (False, False)" using s by (simp_all add: same_view_def)
    have "after t tryLockFile (\<lambda>locked u. after u (case locked of
        Inl e \<Rightarrow> State_Monad.return (Inl (if isLockBusy e then AlreadyOwned else Locking e))
      | Inr _ \<Rightarrow> publishSocket path) (started path))"
      by (rule after_tryLockFile [OF t(1)]) (use t in \<open>auto simp: started_def same_view_def intro!: after_publishSocket\<close>)
    then show ?case using t by (auto simp: started_def split: option.splits sum.splits prod.splits)
  qed
  then show ?thesis using s by (simp add: Start_def started_def split: option.splits)
qed

lemma after_cleanup:
  assumes "calm path s" "\<And>t. orderly (set_option socketInfo) path s (t\<lparr>fs_locked := fst (held s)\<rparr>) \<Longrightarrow> \<not> fs_locked t \<Longrightarrow> Q () t"
  shows "after s (cleanup path socketInfo) Q"
proof (cases socketInfo)
  case None
  then show ?thesis using assms by (auto simp: cleanup_def orderly_def taken_kept_def held_def)
next
  case (Some own)
  have "after s (removeOwnedSocket path own) (\<lambda>_ t. Q () (t\<lparr>fs_locked := False\<rparr>))"
  proof (rule after_removeOwnedSocket [OF assms(1)], goal_cases)
    case (1 t)
    then show ?case using Some by (intro assms(2)) (auto simp: orderly_def held_def)
  qed
  then show ?thesis using Some by (simp add: cleanup_def)
qed

lemma and_63_eq_0: "w AND 63 = 0 \<longleftrightarrow> (\<forall>n < 6. \<not> bit w n)" for w :: "32 word"
proof -
  have mask: "(63 :: 32 word) = mask 6" by (simp add: mask_eq_exp_minus_1)
  have "(w AND mask 6 = 0) \<longleftrightarrow> (\<forall>n < 32. n < 6 \<longrightarrow> \<not> bit w n)"
    by (auto simp: bit_eq_iff bit_and_iff bit_mask_iff)
  moreover have "n < 32" if "n < 6" for n :: nat using that by simp
  ultimately show ?thesis unfolding mask by blast
qed

section \<open>Properties\<close>

text \<open>C24: a control socket that does not start holds nothing: whatever other processes do and whichever system
  call fails, \<open>Start\<close> returns either with the lock held, a listener open and its socket linked to the
  path, or with the lock released and no listener.\<close>

theorem Start_all_or_nothing:
  assumes "calm path s" "\<not> fs_locked s" "\<not> fs_listening s"
    and "run_state (Start sha h nilContext path) s = (r, t)"
  shows "case r of
      Inl err \<Rightarrow> \<not> fs_locked t \<and> \<not> fs_listening t
    | Inr own \<Rightarrow> fs_locked t \<and> fs_listening t \<and> Linked path own \<in> set (fs_log t)"
proof -
  have "held s = (False, False)" using assms(2,3) by (simp add: held_def)
  from afterD [OF after_Start [OF assms(1) this] assms(4)] show ?thesis
    by (auto simp: started_def held_def split: sum.splits)
qed

text \<open>A runtime directory that is accepted is a directory of the effective user whose mode gives group and
  others no permission at all.\<close>

theorem ensureControlRuntimeDir_private:
  assumes "ensureControlRuntimeDir h = None"
  shows "\<exists>info. controlRuntimeDir h \<noteq> [] \<and> hd_Lstat h (controlRuntimeDir h) = Inr info \<and> di_IsDir info \<and>
    di_Uid info = hd_Geteuid h \<and> (\<forall>n < 6. \<not> bit (di_Perm info) n)"
proof -
  have "controlRuntimeDir h \<noteq> []" "validatePrivateDir h (controlRuntimeDir h) = None"
    using assms by (auto simp: ensureControlRuntimeDir_def Let_def split: if_splits option.splits)
  then show ?thesis
    by (auto simp: validatePrivateDir_def ownedByEffectiveUser_def and_63_eq_0 split: sum.splits if_splits)
qed

text \<open>
  The eight attempts at a staged name are one: \<^verbatim>\<open>os.IsExist\<close> does not look into the error of \<^verbatim>\<open>net.Listen\<close>,
  so a name that is taken ends the start at once.
\<close>

lemma listenStaged_single_attempt: "listenStagedTries (Suc n) dir = listenStagedTries (Suc m) dir"
  by (simp add: os_IsExist_def)

section \<open>Witnesses\<close>

definition sample_dirs :: host_dirs where
  "sample_dirs = \<lparr>hd_XDG = ''/r'', hd_UserCacheDir = None, hd_Geteuid = 1000,
     hd_Lstat = (\<lambda>_. Inr \<lparr>di_IsDir = True, di_Perm = 448, di_Uid = 1000\<rparr>), hd_MkdirAll = (\<lambda>_. None), hd_Mkdir = (\<lambda>_. Some EEXIST),
     hd_LockInfo = (\<lambda>_. Inr (True, \<lparr>di_IsDir = False, di_Perm = 384, di_Uid = 1000\<rparr>))\<rparr>"

definition stopped_fs :: fsys where
  "stopped_fs = quiet_fs\<lparr>fs_names := [''/r/c.sock'' \<mapsto> Inode 1], fs_locked := False, fs_listening := False\<rparr>"

theorem ensureControlRuntimeDir_private_witness:
  "controlRuntimeDir sample_dirs = ''/r/portoland'' \<and> (\<exists>info. hd_Lstat sample_dirs ''/r/portoland'' = Inr info \<and> \<not> bit (di_Perm info) 0)"
proof -
  have dir: "controlRuntimeDir sample_dirs = ''/r/portoland''" by code_simp
  have "ensureControlRuntimeDir sample_dirs = None" by code_simp
  from ensureControlRuntimeDir_private [OF this] show ?thesis unfolding dir by auto
qed

theorem Start_all_or_nothing_witness:
  "fst (run_state (Start (\<lambda>s. s) sample_dirs False ''/r/c.sock'') stopped_fs) = Inr (Inode 3) \<and>
   fs_locked (snd (run_state (Start (\<lambda>s. s) sample_dirs False ''/r/c.sock'') stopped_fs)) \<and>
   Linked ''/r/c.sock'' (Inode 3) \<in> set (fs_log (snd (run_state (Start (\<lambda>s. s) sample_dirs False ''/r/c.sock'') stopped_fs)))"
proof -
  let ?x = "run_state (Start (\<lambda>s. s) sample_dirs False ''/r/c.sock'') stopped_fs"
  have s: "calm ''/r/c.sock'' stopped_fs" "\<not> fs_locked stopped_fs" "\<not> fs_listening stopped_fs"
    using calm_sample(2) by (simp_all add: stopped_fs_def quiet_fs_def) (simp add: calm_def)
  have r: "fst ?x = Inr (Inode 3)" by code_simp
  have "?x = (fst ?x, snd ?x)" by simp
  from Start_all_or_nothing [OF s this] show ?thesis unfolding r by simp
qed

end
