(* ===== verification/Spec2Isabelle.thy ===== *)
theory Spec2Isabelle
  imports Eval_Daemon Eval_Process Eval_Jsonl Jsonl_Shutdown Otel_Shutdown Mcp_Server Control_Peer Lsp_Startup
    Lsp_Call Lsp_Provider Tools Telemetry_Jsonl Telemetry_Diagnostic Telemetry_Otel Telemetry_Tee
    Control_Socket Control_Start Daemon_Main
begin

text \<open>
  Portolan is a daemon between a coding agent and language servers. The agent calls three tools over
  MCP (find_definition, find_references, get_outline); a tool names a file and a symbol, asks a
  language provider, and answers with a bounded, rendered result stamped with the generation of the
  workspace. The provider talks LSP to a subprocess over framed pipes; every tool call leaves one
  telemetry event in a JSONL file and, where an endpoint is configured, in an OpenTelemetry mirror. A
  control socket reads and bumps the generation; the command parses the configuration, starts the
  parts and releases them. This development models these parts as functions and step
  relations over the data of the Go code and proves what each part promises to the next.

  \<^bold>\<open>Parts of the program and the theories that model them.\<close>

  \<^item> \<^verbatim>\<open>Portolan_Prelude\<close>, \<^verbatim>\<open>Go_Utf8\<close>, \<^verbatim>\<open>Go_Path\<close>, \<^verbatim>\<open>Go_Url\<close>: what the sources use of the Go
    standard library. Strings are byte lists; UTF-8 decoding with replacement, \<^verbatim>\<open>strings\<close>,
    \<^verbatim>\<open>path.Clean\<close>, \<^verbatim>\<open>net/url\<close> parsing and escaping, decimal printing.
  \<^item> \<^verbatim>\<open>Core_Types\<close> (\<^verbatim>\<open>internal/core\<close>): positions, ranges, symbols, configuration, events, the provider
    interface as the record \<open>LanguageProvider\<close>, its stub, and contexts. A context \<open>ctx\<close> is canceled
    from its n-th poll on; a \<open>world\<close> pairs the number of polls made with the provider's state, so
    that every early return on cancellation is a branch of the model.
  \<^item> \<^verbatim>\<open>Pathnorm\<close>, \<^verbatim>\<open>Pathnorm_Uri\<close> (\<^verbatim>\<open>internal/pathnorm/pathnorm.go\<close>): host path identity over POSIX,
    Windows, UNC and WSL spellings, and file URIs. Canonical paths are exactly the fixed points,
    spellings of one file agree, and paths, Windows spellings and URIs round-trip.
  \<^item> \<^verbatim>\<open>Lsp_Conversion\<close> (\<^verbatim>\<open>conversion.go\<close>, \<^verbatim>\<open>finite_work.go\<close>): answers of the server as core values.
  \<^item> \<^verbatim>\<open>Lsp_Source\<close>, \<^verbatim>\<open>Declaration_Headers\<close>, \<^verbatim>\<open>Lsp_Hover\<close>, \<^verbatim>\<open>Lsp_Signatures\<close> (\<^verbatim>\<open>signatures.go\<close>,
    \<^verbatim>\<open>declaration_headers.go\<close>, \<^verbatim>\<open>hover_conversion.go\<close>): UTF-16 positions in a source text, the
    scanner for declaration headers, hover answers, and the pool of signature requests.
  \<^item> \<^verbatim>\<open>Lsp_Framing\<close>, \<^verbatim>\<open>Lsp_Transport\<close>, \<^verbatim>\<open>Lsp_Rpc\<close> (\<^verbatim>\<open>framing.go\<close>, \<^verbatim>\<open>transport.go\<close>, \<^verbatim>\<open>lifecycle.go\<close>,
    \<^verbatim>\<open>rpc.go\<close>, \<^verbatim>\<open>stderr.go\<close>): frames over byte streams, the connection's life and its waiters, and
    the routing of the server's messages.
  \<^item> \<^verbatim>\<open>Lsp_Sections\<close>, \<^verbatim>\<open>Lsp_Lifecycle\<close>, \<^verbatim>\<open>Lsp_Call\<close> (the write path of \<^verbatim>\<open>transport.go\<close>, \<^verbatim>\<open>lifecycle.go\<close>, \<^verbatim>\<open>rpc.go\<close>): operations
    of several critical sections, the whole of \<^verbatim>\<open>close\<close> with its handshake, writes and waits, and calls and
    notifications.
  \<^item> \<^verbatim>\<open>Lsp_Open\<close>, \<^verbatim>\<open>Lsp_Provider\<close> (\<^verbatim>\<open>provider.go\<close>): the election of one opener per file among any
    number of callers, the handshake and the four methods of the provider. \<^verbatim>\<open>Lsp_Startup\<close>: \<^verbatim>\<open>New\<close>, the
    handshake over the shared connection and the release of a process whose handshake fails.
  \<^item> \<^verbatim>\<open>Tool_Render\<close>, \<^verbatim>\<open>Tools\<close> (\<^verbatim>\<open>internal/tools\<close>): rendering, name resolution, the bounded outline, the
    call frame and the three tools.
  \<^item> \<^verbatim>\<open>Telemetry_Record\<close>, \<^verbatim>\<open>Telemetry_Jsonl\<close> (\<^verbatim>\<open>internal/telemetry\<close>): the line of an event and its capping,
    and the asynchronous logger. \<^verbatim>\<open>Jsonl_Shutdown\<close> (\<^verbatim>\<open>jsonl.go\<close>, \<^verbatim>\<open>jsonl_lifecycle.go\<close>): the file around the logger, from
    opening it to its sync, its close and the error of \<^verbatim>\<open>Close\<close>.
  \<^item> \<^verbatim>\<open>Telemetry_Diagnostic\<close>, \<^verbatim>\<open>Telemetry_Otel\<close>, \<^verbatim>\<open>Telemetry_Tee\<close> (\<^verbatim>\<open>diagnostic.go\<close>, \<^verbatim>\<open>otel.go\<close>, \<^verbatim>\<open>tee.go\<close>,
    \<^verbatim>\<open>telemetry.go\<close>): the bounded queue of diagnostics, the mirror with its token layer, the fan-out of
    events, the composite shutdown and the construction of the sinks. \<^verbatim>\<open>Otel_Shutdown\<close> (\<^verbatim>\<open>otel.go\<close>): the options
    of the mirror, the errors it latches and its \<^verbatim>\<open>Close\<close>.
  \<^item> \<^verbatim>\<open>Control_Socket\<close> (\<^verbatim>\<open>internal/mcp/control_lifecycle.go\<close>, \<^verbatim>\<open>control.go\<close>): the commands over the generation
    counter, the accept loop, the connections and the shutdown. \<^verbatim>\<open>Control_Peer\<close> (\<^verbatim>\<open>control_platform_linux.go\<close>,
    \<^verbatim>\<open>control_platform_bsd.go\<close>, \<^verbatim>\<open>control_platform_unsupported.go\<close>): which peers it serves.
  \<^item> \<^verbatim>\<open>Mcp_Server\<close> (\<^verbatim>\<open>internal/mcp/server.go\<close>): the handlers of the three tools, and calls that run side by side
    with control commands.
  \<^item> \<^verbatim>\<open>Control_Publication\<close>, \<^verbatim>\<open>Control_Start\<close> (\<^verbatim>\<open>control_publication.go\<close>, \<^verbatim>\<open>control_runtime.go\<close>,
    \<^verbatim>\<open>control_platform_unix.go\<close>, \<^verbatim>\<open>control.go\<close>): ownership of the socket's path, as programs over system
    calls.
  \<^item> \<^verbatim>\<open>Daemon_Main\<close> (\<^verbatim>\<open>cmd/portoland/main.go\<close>): flags, environment and defaults, and the order in which
    \<^verbatim>\<open>run\<close> starts and releases its parts.
  \<^item> \<^verbatim>\<open>Eval_Daemon\<close>, \<^verbatim>\<open>Eval_Process\<close>, \<^verbatim>\<open>Eval_Jsonl\<close> (\<^verbatim>\<open>eval/testinfra\<close>): the harness of the evaluations. The environment
    and the arguments it gives a daemon, composed with the daemon's own parser; polling, the analyzer, the
    capture of the output and the cleanup; and the reader of the telemetry file, composed with the logger.
  \<^item> \<^verbatim>\<open>Transition_Systems\<close>: the interfaces (locales) of the step relations: invariants over reachable
    states and measures that bound every run. Each concurrent component interprets them on its own
    relation. \<^verbatim>\<open>State_Logic\<close>: what holds after a program of the state monad.

  \<^bold>\<open>State and concurrency.\<close> Sequential code is a function that returns its result and the new
  state; an error is the left value of a sum, with one constructor per kind of error where callers
  tell them apart. Code that runs in several goroutines is a step relation: one step is what happens
  under one lock, one channel operation or one atomic access, and every interleaving of steps is a
  run. So \<open>open_step\<close> interleaves the callers of \<^verbatim>\<open>ensureOpen\<close>, \<open>pool_step\<close> the signature workers,
  \<open>t_step\<close> the users of a transport, \<open>frame_step\<close> a frame write against its cancellation,
  \<open>jl_step\<close> the callers, worker and shutdown of the logger, \<open>dg_step\<close>, \<open>ot_step\<close> and \<open>tee_step\<close> those of
  the diagnostics, the mirror and the composite, \<open>lf_step\<close> and \<open>ml_step\<close> put the file and the shutdown around
  the logger and the mirror, \<open>cs_step\<close> the clients and the shutdown of the
  control socket, and \<open>sv_step\<close> the tool calls and the control commands of a session. A timer is a step that may happen at any moment.

  Long operations that others may disturb are programs of the state monad. The sequence of system
  calls that publishes or removes the socket runs against a file system in which other processes act
  before each call and each call may fail (\<open>fs_others\<close>, \<open>fs_fault\<close>); \<open>calm\<close> says that the others act on the
  public name only. Calls and the close of a connection run their critical sections with the other users between
  them (\<open>cl_others\<close>); \<open>with_users\<close> says that these use the operations of the transport, and \<open>fair\<close> that
  they leave closing to the one that \<^verbatim>\<open>closeOnce\<close> admits. The locale \<open>section_logic\<close> is interpreted once for
  each of the two. How waits and writes end is part of that state.

  \<^bold>\<open>Parameters.\<close> Code outside the repository is an argument of the model: the host environment
  (\<open>host_env\<close>: variables and the Unicode fold), the connection to the language server
  (\<open>connection\<close>, answers of the server being arbitrary), JSON decoding of its raw messages
  (\<open>json_decoders\<close>), SHA-256 (assumed to give bytes, \<open>sha_ok\<close>), the text of an error, the clock, the
  quoting of a message, the directories of the host, the outcomes of starting and closing the parts of
  the daemon and of the system calls that start a process, the credentials of a peer, what a polling loop sees in
  each round, the formatting of a value for the mirror, and the scheduler of the signature pool (\<open>pool_ok\<close>: it returns what some run
  of \<open>pool_step\<close> returns, which \<open>sequentialSignatures\<close> shows possible).

  \<^bold>\<open>Bounds and loops.\<close> Every recursion has a measure, but three. \<open>minimizeLine\<close> repeats until the
  line fits and has no exit of its own in the code. It is a partial function, and
  \<open>encodeJSONLRecord_bounded\<close> shows that it returns for every record limit the logger accepts (512
  bytes or more). \<open>waitFrom\<close> and \<open>pollFrom\<close> wait for the clock; they are partial functions that return as soon as
  one round is late (\<open>WaitForQuiescentJSONL_sound\<close>, \<open>Poll_first\<close>). Eight signature workers and the 8192 bytes of the stderr tail are the constants of
  the code. Nothing uses fuel.

  \<^bold>\<open>What the theorems show.\<close> Identity: a canonical path is a fixed point, and paths, spellings and
  URIs that name one file agree. Wire: frames written by one side are read back by the other, whole
  and in order; an outstanding request is answered, canceled or released by close or abort, once.
  Files: at most one opening per file is in flight, a file is announced once, no run of the callers
  goes on forever and all can return. Positions: an accepted UTF-16 position is the position of the returned
  byte offset. Symbols: the core tree mirrors the server's tree. Tools: results obey the cap, carry
  one event, and contain only what the provider answered; over the modelled provider all paths are
  canonical and all ranges well formed (the two theorems below compose tools, provider, conversion
  and path identity). Telemetry: a record never exceeds its limit, each call is counted once and
  under one outcome, lines keep the order of admission and the logger never blocks for good; the
  diagnostics and the mirror account for every report and span, and no callback or sink, not even
  one that hangs, keeps a shutdown from returning; a \<^verbatim>\<open>Close\<close> without an error means that nothing was lost, and
  the reader of the evaluations finds only whole events in the file at every moment. Server: each
  reply has one event that agrees with it. Calls: every call returns, with the one result of its
  request. Close of a connection: whatever the others do, it ends
  closed or aborted, with nothing pending and the process awaited, and exited or killed; a start that fails leaves no
  process running. Control socket: peers of other users are ignored, replies follow the
  commands, the shutdown ends although clients stay, Start holds all its resources or none, and
  publication and removal leave the sockets of other processes alone. Command: an accepted
  configuration is well formed, flags precede the environment, \<^verbatim>\<open>run\<close> releases what it started, and the
  harness's arguments and environment give the daemon exactly the configuration that was meant.

  \<^bold>\<open>Deviations found.\<close> The rollback of a publication removes the public path without looking at what is
  there (\<open>rollback_unlinks_foreign\<close>); the eight attempts of \<^verbatim>\<open>listenStaged\<close> end at the first taken name
  (\<open>listenStaged_single_attempt\<close>); the composite shutdown can report success with a sink still open
  (\<open>tee_silent_break\<close>); the harness can read the PID file of the analyzer between its creation and the
  write to it (\<open>WaitForPID_wrapper\<close>).

  \<^bold>\<open>Not modelled.\<close> The MCP SDK decodes requests, picks the handler and encodes results; file locks, atomic renames,
  signals and the processes themselves are system calls. Of the JSONL logger and the mirror, the
  reports they hand to the diagnostics and the counters of oversize and unencodable records are left out. Of
  \<^verbatim>\<open>eval/testinfra\<close>, building the daemon, the MCP client and the stubs for Windows are left out: they
  only call the go tool, the SDK or nothing. Time limits are moments at which a step
  may happen and not durations.
\<close>

section \<open>The tools over the provider\<close>

lemma found_by_wf:
  assumes "found_by P query env cfg c inp w locations truncated"
    and "\<And>f pos w locs w'. query f pos c w = (Inr locs, w') \<Longrightarrow> list_all location_wf locs"
  shows "list_all location_wf locations"
  using assms by (auto simp: found_by_def list_all_iff dest: in_set_takeD)

definition outline_symbol_wf :: "string \<Rightarrow> OutlineSymbol \<Rightarrow> bool" where
  "outline_symbol_wf file o1 \<longleftrightarrow> sym_File (os_Symbol o1) = file \<and> wf_range (sym_Range (os_Symbol o1)) \<and>
     wf_range (sym_SelRange (os_Symbol o1)) \<and> Range_Contains (sym_Range (os_Symbol o1)) (sym_SelRange (os_Symbol o1)) \<and>
     0 \<le> os_Depth o1"

lemma preorder_node_wf:
  "node_wf f t \<Longrightarrow> (s, e) \<in> set (preorder_node d t) \<Longrightarrow>
   sym_File s = f \<and> wf_range (sym_Range s) \<and> wf_range (sym_SelRange s) \<and> Range_Contains (sym_Range s) (sym_SelRange s)"
  by (induction d t rule: preorder_node.induct) (auto simp: list_all_iff)

lemma setSignatures_wf:
  "list_all (outline_symbol_wf f) os \<Longrightarrow> list_all (outline_symbol_wf f) (setSignatures os sigs)"
  by (auto simp: setSignatures_def list_all_iff outline_symbol_wf_def dest!: set_zip_leftD)

lemma outlined_by_wf:
  assumes out: "outlined_by (lsp_provider t env js pool err_text) env cfg c input w out"
  shows "list_all (outline_symbol_wf (go_File out)) (go_Symbols out)"
proof -
  from out obtain symbols sigs w1 where sy: "Canonicalize env input = Inr (go_File out)"
      "DocumentSymbols (lsp_provider t env js pool err_text) (go_File out) c w = (Inr symbols, w1)"
      "go_Symbols out = setSignatures (take (nat (Cap cfg)) (map outline_of (preorder 0 symbols))) sigs"
    unfolding outlined_by_def by blast
  have "Canonicalize env (go_File out) = Inr (go_File out)" using Canonicalize_fixed [OF Canonicalize_canonical [OF sy(1)]] .
  then have "list_all (node_wf (go_File out)) symbols"
    using sy(2) lsp_DocumentSymbols_wf by (fastforce simp: lsp_provider_def)
  then have "list_all (outline_symbol_wf (go_File out)) (map outline_of (preorder 0 symbols))"
    using preorder_node_wf [of "go_File out"] by (fastforce simp: list_all_iff preorder_def outline_symbol_wf_def outline_of_def)
  then show ?thesis unfolding sy(3) by (intro setSignatures_wf) (metis append_take_drop_id list_all_append)
qed

section \<open>Properties\<close>

text \<open>C6: over the language server every location that find_definition or find_references returns
  has a canonical path and a well-formed range, whatever the server answered.\<close>

theorem find_locations_wf:
  "(FindDefinition (lsp_provider t env js pool err_text) env quoted cfg gen duration c inp w = ((out, events), w') \<longrightarrow>
      list_all location_wf (fd_Locations out) \<and> int (length (fd_Locations out)) \<le> Cap cfg) \<and>
   (FindReferences (lsp_provider t env js pool err_text) env quoted cfg gen duration c inp w = ((out', events'), w'') \<longrightarrow>
      list_all location_wf (fr_Locations out') \<and> int (length (fr_Locations out')) \<le> Cap cfg)"
proof (intro conjI impI)
  let ?P = "lsp_provider t env js pool err_text"
  assume "FindDefinition ?P env quoted cfg gen duration c inp w = ((out, events), w')"
  note run = runTool_out [OF this [unfolded FindDefinition_def]]
  have ok: "fd_ok cfg out" using findDefinitionBody_ok [of cfg ?P env quoted c inp "Current gen" w] run by simp
  then show "int (length (fd_Locations out)) \<le> Cap cfg" by (simp add: fd_ok_def)
  show "list_all location_wf (fd_Locations out)"
  proof (cases "fd_Found out")
    case True
    show ?thesis using found_by_wf [OF findDefinitionBody_found [OF run True]] lsp_Definition_wf
      by (fastforce simp: lsp_provider_def)
  qed (use ok in \<open>simp add: fd_ok_def\<close>)
next
  let ?P = "lsp_provider t env js pool err_text"
  assume "FindReferences ?P env quoted cfg gen duration c inp w = ((out', events'), w'')"
  note run = runTool_out [OF this [unfolded FindReferences_def]]
  have ok: "fr_ok cfg out'" using findReferencesBody_ok [of cfg ?P env quoted c inp "Current gen" w] run by simp
  then show "int (length (fr_Locations out')) \<le> Cap cfg" by (simp add: fr_ok_def)
  show "list_all location_wf (fr_Locations out')"
  proof (cases "fr_Found out'")
    case True
    show ?thesis using found_by_wf [OF findReferencesBody_found [OF run True]] lsp_References_wf
      by (fastforce simp: lsp_provider_def)
  qed (use ok in \<open>simp add: fr_ok_def\<close>)
qed

text \<open>C7: over the language server every symbol of an outline belongs to the canonical file of the
  request, has well-formed ranges with its name inside its extent, and a depth; and when the
  server answers every stage the outline is found, for every schedule of the signature requests.\<close>

theorem get_outline_end_to_end:
  assumes "GetOutline (lsp_provider t env js pool err_text) env cfg gen duration c input w = ((out, events), w')"
  shows "list_all (outline_symbol_wf (go_File out)) (go_Symbols out) \<and>
    (pool_ok pool \<and> cancel_at c = None \<and> Canonicalize env input = Inr f \<and>
     lsp_DocumentSymbols t env js f c w = (Inr symbols, w1) \<and> symbols \<noteq> [] \<and>
     (\<forall>ss w. \<exists>sigs w'. lsp_SymbolSignatures t env pool f ss c w = (Inr sigs, w')) \<longrightarrow> go_Found out)"
proof (intro conjI impI)
  let ?P = "lsp_provider t env js pool err_text"
  note run = runTool_out [OF assms [unfolded GetOutline_def]]
  show "list_all (outline_symbol_wf (go_File out)) (go_Symbols out)"
  proof (cases "go_Found out")
    case True
    show ?thesis by (rule outlined_by_wf [OF getOutlineBody_found [OF run True]])
  qed (use getOutlineBody_not_found [OF run] in simp)
  assume h: "pool_ok pool \<and> cancel_at c = None \<and> Canonicalize env input = Inr f \<and>
     lsp_DocumentSymbols t env js f c w = (Inr symbols, w1) \<and> symbols \<noteq> [] \<and>
     (\<forall>ss w. \<exists>sigs w'. lsp_SymbolSignatures t env pool f ss c w = (Inr sigs, w'))"
  have "language_provider ?P" by (rule language_provider.intro, drule lsp_provider_signatures) (use h in simp_all)
  from language_provider.outline_found [OF this, of c env input f w symbols w1 cfg "go_setFreshness (Current gen) go_zero"]
  show "go_Found out" using h run by (simp add: lsp_provider_def del: split_paired_All split_paired_Ex)
qed

section \<open>Witnesses\<close>

text \<open>A server that knows one function and one definition of it.\<close>

definition answering_conn :: "unit connection" where
  "answering_conn = sample_conn\<lparr>conn_call := (\<lambda>_ _ _ w. (Inr ''[]'', w))\<rparr>"

definition answering_json :: json_decoders where
  "answering_json = \<lparr>js_locations = (\<lambda>_. Inr [sample_location]), js_location = Inl, 
     js_symbols = (\<lambda>_. Inr [LspDocumentSymbol ''f'' [] 12 (line_span 0 1) (line_span 0 0) []])\<rparr>"

definition answering_provider :: "unit provider LanguageProvider" where
  "answering_provider = lsp_provider answering_conn ubuntu_env answering_json
     (\<lambda>uri plans c w. (sequentialSignatures (\<lambda>_. ''sig'') plans, w)) (\<lambda>_. ''error'')"

theorem find_locations_wf_witness:
  "list_all location_wf (fd_Locations (fst (fst (FindDefinition answering_provider ubuntu_env (\<lambda>s. s) sample_config 7 5 background
      \<lparr>in_File = ''/a.ts'', in_Symbol = ''f'', in_Line = None\<rparr> (0, fresh_provider))))) \<and>
   fd_Found (fst (fst (FindDefinition answering_provider ubuntu_env (\<lambda>s. s) sample_config 7 5 background
      \<lparr>in_File = ''/a.ts'', in_Symbol = ''f'', in_Line = None\<rparr> (0, fresh_provider))))"
proof (intro conjI)
  let ?X = "FindDefinition answering_provider ubuntu_env (\<lambda>s. s) sample_config 7 5 background
      \<lparr>in_File = ''/a.ts'', in_Symbol = ''f'', in_Line = None\<rparr> (0, fresh_provider)"
  have "?X = ((fst (fst ?X), snd (fst ?X)), snd ?X)" by simp
  then show "list_all location_wf (fd_Locations (fst (fst ?X)))"
    using find_locations_wf unfolding answering_provider_def by blast
  show "fd_Found (fst (fst ?X))" by code_simp
qed

theorem get_outline_end_to_end_witness:
  "list_all (outline_symbol_wf (go_File (fst (fst (GetOutline answering_provider ubuntu_env sample_config 7 5 background ''/a.ts'' (0, fresh_provider))))))
     (go_Symbols (fst (fst (GetOutline answering_provider ubuntu_env sample_config 7 5 background ''/a.ts'' (0, fresh_provider))))) \<and>
   go_Found (fst (fst (GetOutline answering_provider ubuntu_env sample_config 7 5 background ''/a.ts'' (0, fresh_provider))))"
proof (intro conjI)
  let ?X = "GetOutline answering_provider ubuntu_env sample_config 7 5 background ''/a.ts'' (0, fresh_provider)"
  have "?X = ((fst (fst ?X), snd (fst ?X)), snd ?X)" by simp
  then show "list_all (outline_symbol_wf (go_File (fst (fst ?X)))) (go_Symbols (fst (fst ?X)))"
    using get_outline_end_to_end unfolding answering_provider_def by blast
  show "go_Found (fst (fst ?X))" by code_simp
qed

end
